theory Spec2Isabelle
  imports Main "HOL-Library.Word" "HOL-Library.Monad_Syntax"
begin

unbundle bit_operations_syntax

section \<open>Buffers of bytes\<close>

text \<open>
  A C buffer is the list of its bytes; a pointer into it is an offset. Every access
  is checked against the extent of the list: \<open>None\<close> stands for a run of the C code
  that does not return a value, because it reads or writes outside a buffer (undefined
  behaviour), because an unsigned size would wrap below zero on the way to such an
  access, or because \<open>ut_a\<close> / \<open>ut_error\<close> aborts the server.
\<close>

type_synonym byte = "8 word"

definition bytes_at :: "byte list \<Rightarrow> nat \<Rightarrow> nat \<Rightarrow> byte list option" where
  \<comment> \<open>the \<open>n\<close> bytes at \<open>buf + off\<close>\<close>
  "bytes_at buf off n =
     (if off + n \<le> length buf then Some (take n (drop off buf)) else None)"

definition memcpy :: "byte list \<Rightarrow> nat \<Rightarrow> byte list \<Rightarrow> byte list option" where
  \<comment> \<open>\<open>memcpy(buf + off, data, length data)\<close>; \<open>memmove\<close> between two buffers is the same\<close>
  "memcpy buf off data =
     (if off + length data \<le> length buf
      then Some (take off buf @ data @ drop (off + length data) buf) else None)"

definition memset :: "byte list \<Rightarrow> nat \<Rightarrow> byte \<Rightarrow> nat \<Rightarrow> byte list option" where
  \<comment> \<open>\<open>memset(buf + off, c, n)\<close>\<close>
  "memset buf off c n = memcpy buf off (replicate n c)"

definition usub :: "nat \<Rightarrow> nat \<Rightarrow> nat option" where
  \<comment> \<open>\<open>a - b\<close> on sizes (\<open>ulint\<close>) that go on to bound a buffer access: a difference
      that would wrap below zero is a run outside the buffers\<close>
  "usub a b = (if b \<le> a then Some (a - b) else None)"

text \<open>
  Modelled from the spec: the accessors of \<open>mach0data\<close> are not among the sources;
  the spec gives the multi-byte fields as big-endian (``u32 BE'').
\<close>

definition mach_read_from_2 :: "byte list \<Rightarrow> nat \<Rightarrow> 16 word option" where
  "mach_read_from_2 buf off =
     (if off + 2 \<le> length buf
      then Some (push_bit 8 (ucast (buf ! off)) OR ucast (buf ! (off + 1))) else None)"

definition mach_read_from_4 :: "byte list \<Rightarrow> nat \<Rightarrow> 32 word option" where
  "mach_read_from_4 buf off =
     (if off + 4 \<le> length buf
      then Some (push_bit 24 (ucast (buf ! off)) OR push_bit 16 (ucast (buf ! (off + 1)))
                 OR push_bit 8 (ucast (buf ! (off + 2))) OR ucast (buf ! (off + 3)))
      else None)"

definition bytes_of_2 :: "16 word \<Rightarrow> byte list" where
  "bytes_of_2 v = [ucast (drop_bit 8 v), ucast v]"

definition bytes_of_4 :: "32 word \<Rightarrow> byte list" where
  "bytes_of_4 v = [ucast (drop_bit 24 v), ucast (drop_bit 16 v), ucast (drop_bit 8 v), ucast v]"

definition mach_write_to_2 :: "byte list \<Rightarrow> nat \<Rightarrow> 16 word \<Rightarrow> byte list option" where
  "mach_write_to_2 buf off v = memcpy buf off (bytes_of_2 v)"

definition mach_write_to_4 :: "byte list \<Rightarrow> nat \<Rightarrow> 32 word \<Rightarrow> byte list option" where
  "mach_write_to_4 buf off v = memcpy buf off (bytes_of_4 v)"

section \<open>Constants, context and collaborators\<close>

text \<open>
  Modelled from the spec: the page header is its first 38 bytes (\<open>FIL_PAGE_DATA\<close>).
  \<open>MY_AES_BLOCK_SIZE\<close> is the AES block of 16 bytes; \<open>MIN_ENCRYPTION_LEN\<close> is defined
  in \<open>os0enc.cc\<close> itself.
\<close>

definition FIL_PAGE_DATA :: nat where
  "FIL_PAGE_DATA = 38"

definition MY_AES_BLOCK_SIZE :: nat where
  "MY_AES_BLOCK_SIZE = 16"

definition MIN_ENCRYPTION_LEN :: nat where
  "MIN_ENCRYPTION_LEN = 2 * MY_AES_BLOCK_SIZE + FIL_PAGE_DATA"

text \<open>
  The offsets of the header fields and the page type codes are declared in
  \<open>fil0types.h\<close>, and the magic of keyring-encrypted zip pages in \<open>os0enc.h\<close>; neither
  file is among the sources. They are parameters of the model: every theorem holds for
  each layout that satisfies the conditions it states.
\<close>

record fil_consts =
  FIL_PAGE_LSN :: nat
  FIL_PAGE_TYPE :: nat
  FIL_PAGE_ORIGINAL_TYPE_V1 :: nat
  FIL_PAGE_COMPRESS_SIZE_V1 :: nat
  FIL_PAGE_ENCRYPTION_KEY_VERSION :: nat
  FIL_PAGE_ZIP_KEYRING_ENCRYPTION_MAGIC :: nat
  FIL_PAGE_END_LSN_OLD_CHKSUM :: nat
  FIL_PAGE_TYPE_ALLOCATED :: "16 word"
  FIL_PAGE_COMPRESSED :: "16 word"
  FIL_PAGE_ENCRYPTED :: "16 word"
  FIL_PAGE_COMPRESSED_AND_ENCRYPTED :: "16 word"
  FIL_PAGE_ENCRYPTED_RTREE :: "16 word"
  FIL_PAGE_RTREE :: "16 word"
  ZIP_PAGE_KEYRING_ENCRYPTION_MAGIC :: "byte list"
    \<comment> \<open>its first \<open>ZIP_PAGE_KEYRING_ENCRYPTION_MAGIC_LEN\<close> bytes, which are what is copied\<close>
  FIL_PAGE_VERSION_1 :: nat

datatype Type = NONE | AES | KEYRING

datatype Encryption_rotation = NO_ROTATION | MASTER_KEY_TO_KEYRING

datatype my_aes_opmode = my_aes_256_ecb | my_aes_256_cbc

datatype dberr_t = DB_SUCCESS | DB_IO_DECRYPT_FAIL | DB_UNSUPPORTED

text \<open>The members of \<open>Encryption\<close> that the page and log paths read or write.\<close>

record Encryption =
  m_type :: Type
  m_key :: "byte list"
  m_klen :: nat
  m_iv :: "byte list"
  m_key_version :: "32 word"
  m_key_id :: "32 word"
  m_checksum :: "32 word"
  m_encryption_rotation :: Encryption_rotation
  m_key_id_uuid :: string

text \<open>What the page paths ask of the \<open>IORequest\<close>.\<close>

record IORequest =
  is_page_zip_compressed :: bool
  get_zip_page_physical_size :: nat
  block_size :: nat

text \<open>
  The functions \<open>os0enc.cc\<close> calls and that are defined elsewhere: the block cipher
  (\<open>my_aes_encrypt\<close> and \<open>my_aes_decrypt\<close> take the source bytes, the key, the key
  length, the mode, the iv and the padding flag, and give the bytes they wrote, or
  \<open>None\<close> for \<open>MY_AES_BAD_DATA\<close>), the checksums, the version byte that
  \<open>Compression::deserialize_header\<close> reads, \<open>ut_calc_align\<close>, and the contents of the
  block \<open>os_alloc_block\<close> hands out.
\<close>

record extern =
  my_aes_encrypt :: "byte list \<Rightarrow> byte list \<Rightarrow> nat \<Rightarrow> my_aes_opmode \<Rightarrow> byte list option \<Rightarrow> bool
                       \<Rightarrow> byte list option"
  my_aes_decrypt :: "byte list \<Rightarrow> byte list \<Rightarrow> nat \<Rightarrow> my_aes_opmode \<Rightarrow> byte list option \<Rightarrow> bool
                       \<Rightarrow> byte list option"
  ut_crc32 :: "byte list \<Rightarrow> 32 word"
  fil_crypt_calculate_checksum :: "nat \<Rightarrow> byte list \<Rightarrow> bool \<Rightarrow> 32 word"
  deserialize_header_m_version :: "byte list \<Rightarrow> nat"
  ut_calc_align :: "nat \<Rightarrow> nat \<Rightarrow> nat"
  os_alloc_block :: "byte list"

section \<open>Page encryption: \<open>Encryption::encrypt_low\<close>\<close>

definition is_encrypted_page :: "fil_consts \<Rightarrow> byte list \<Rightarrow> bool option" where
  "is_encrypted_page L page = do {
     page_type \<leftarrow> mach_read_from_2 page (FIL_PAGE_TYPE L);
     Some (page_type = FIL_PAGE_ENCRYPTED L \<or> page_type = FIL_PAGE_COMPRESSED_AND_ENCRYPTED L
           \<or> page_type = FIL_PAGE_ENCRYPTED_RTREE L)
   }"

text \<open>
  \<open>encrypt_low\<close> is given in the order of the source: the length to encrypt (lines
  1134 to 1145), the cipher passes (1149 to 1234), the header and the page type (1236 to
  1253), the padding (1255 to 1259), the keyring stamps (1261 to 1317).
  \<open>ut_ad\<close> is compiled out of release builds; what the \<open>ut_ad\<close>s of \<open>encrypt_low\<close>
  ask is collected in \<open>encrypt_low_ut_ad\<close> below and assumed where a theorem needs it.
\<close>

definition encrypt_low_src_enc_len :: "fil_consts \<Rightarrow> byte list \<Rightarrow> nat \<Rightarrow> 16 word \<Rightarrow> nat option" where
  "encrypt_low_src_enc_len L src src_len page_type =
     (if page_type = FIL_PAGE_COMPRESSED L then do {
        z \<leftarrow> mach_read_from_2 src (FIL_PAGE_COMPRESS_SIZE_V1 L);
        let src_enc_len = unat z + FIL_PAGE_DATA;
        let src_enc_len = (if src_enc_len < MIN_ENCRYPTION_LEN then MIN_ENCRYPTION_LEN else src_enc_len);
        \<comment> \<open>\<open>ut_a(src_enc_len <= src_len)\<close>\<close>
        if src_enc_len \<le> src_len then Some src_enc_len else None
      } else Some src_len)"

definition encrypt_low_data_len :: "fil_consts \<Rightarrow> Encryption \<Rightarrow> IORequest \<Rightarrow> 16 word \<Rightarrow> nat \<Rightarrow> nat option" where
  "encrypt_low_data_len L this type page_type src_enc_len =
     (if m_type this = KEYRING \<and> page_type = FIL_PAGE_COMPRESSED L then usub src_enc_len FIL_PAGE_DATA
      else if m_type this = KEYRING \<and> \<not> is_page_zip_compressed type
      then do { n \<leftarrow> usub src_enc_len FIL_PAGE_DATA; usub n 4 }
      else usub src_enc_len FIL_PAGE_DATA)"

text \<open>
  The two cipher passes. The result is \<open>(False, dst)\<close> where the source returns false
  (\<open>MY_AES_BAD_DATA\<close>), and \<open>None\<close> where \<open>ut_a(len == chunk_len)\<close> or
  \<open>ut_a(elen == trailer_len)\<close> fails.
\<close>

definition encrypt_low_data ::
  "extern \<Rightarrow> Encryption \<Rightarrow> byte list \<Rightarrow> byte list \<Rightarrow> nat \<Rightarrow> nat \<Rightarrow> (bool \<times> byte list) option" where
  "encrypt_low_data X this src dst DST_HEADER_SIZE data_len =
     (let chunk_len = (data_len div MY_AES_BLOCK_SIZE) * MY_AES_BLOCK_SIZE;
          remain_len = data_len - chunk_len;
          trailer_len = MY_AES_BLOCK_SIZE * 2
      in do {
        plain \<leftarrow> bytes_at src FIL_PAGE_DATA (chunk_len mod 2 ^ 32);
        case my_aes_encrypt X plain (m_key this) (m_klen this mod 2 ^ 32) my_aes_256_cbc
               (Some (m_iv this)) False of
          None \<Rightarrow> Some (False, dst)
        | Some c \<Rightarrow> do {
            dst \<leftarrow> memcpy dst DST_HEADER_SIZE c;
            if length c \<noteq> chunk_len then None
            else if remain_len \<noteq> 0 then do {
              rest \<leftarrow> bytes_at src (FIL_PAGE_DATA + length c) remain_len;
              dst \<leftarrow> memcpy dst (DST_HEADER_SIZE + length c) rest;
              off \<leftarrow> usub (DST_HEADER_SIZE + data_len) trailer_len;
              tail \<leftarrow> bytes_at dst off trailer_len;
              case my_aes_encrypt X tail (m_key this) (m_klen this mod 2 ^ 32) my_aes_256_cbc
                     (Some (m_iv this)) False of
                None \<Rightarrow> Some (False, dst)
              | Some buf \<Rightarrow>
                  if length buf \<noteq> trailer_len then None
                  else do { dst \<leftarrow> memcpy dst off buf; Some (True, dst) }
            } else Some (True, dst)
          }
      })"

definition encrypt_low_header :: "fil_consts \<Rightarrow> byte list \<Rightarrow> byte list \<Rightarrow> 16 word \<Rightarrow> byte list option" where
  "encrypt_low_header L src dst page_type = do {
     hdr \<leftarrow> bytes_at src 0 FIL_PAGE_DATA;
     dst \<leftarrow> memcpy dst 0 hdr;
     if page_type = FIL_PAGE_COMPRESSED L
     then mach_write_to_2 dst (FIL_PAGE_TYPE L) (FIL_PAGE_COMPRESSED_AND_ENCRYPTED L)
     else if page_type = FIL_PAGE_RTREE L
     then mach_write_to_2 dst (FIL_PAGE_TYPE L) (FIL_PAGE_ENCRYPTED_RTREE L)
     else do {
       dst \<leftarrow> mach_write_to_2 dst (FIL_PAGE_TYPE L) (FIL_PAGE_ENCRYPTED L);
       mach_write_to_2 dst (FIL_PAGE_ORIGINAL_TYPE_V1 L) page_type
     }
   }"

definition encrypt_low_padding :: "byte list \<Rightarrow> nat \<Rightarrow> nat \<Rightarrow> nat \<Rightarrow> nat \<Rightarrow> byte list option" where
  "encrypt_low_padding dst src_len src_enc_len DST_HEADER_SIZE data_len =
     (if src_len > src_enc_len then do {
        n \<leftarrow> usub src_len DST_HEADER_SIZE;
        n \<leftarrow> usub n data_len;
        memset dst (DST_HEADER_SIZE + data_len) 0 n
      } else Some dst)"

text \<open>
  The keyring stamps, in three steps: the eight bytes after the header of a compressed
  page (lines 1268 to 1275), the post-encryption checksum of a rotation from the master
  key to the keyring (1278 to 1294; the result is the value of \<open>m_checksum\<close>), and the
  key version and the checksum in the destination (1301 to 1309). \<open>dst_len\<close> is the value
  of \<open>*dst_len\<close> on entry.
\<close>

definition encrypt_low_keyring_reserve ::
  "fil_consts \<Rightarrow> Encryption \<Rightarrow> byte list \<Rightarrow> 16 word \<Rightarrow> byte list option" where
  "encrypt_low_keyring_reserve L this dst page_type =
     (if page_type = FIL_PAGE_COMPRESSED L then do {
        dst \<leftarrow> memset dst FIL_PAGE_DATA 0 4;
        mach_write_to_4 dst (FIL_PAGE_DATA + 4) (m_key_version this)
      } else Some dst)"

definition encrypt_low_keyring_checksum ::
  "fil_consts \<Rightarrow> extern \<Rightarrow> Encryption \<Rightarrow> IORequest \<Rightarrow> byte list \<Rightarrow> nat \<Rightarrow> 16 word
     \<Rightarrow> (32 word \<times> byte list) option" where
  "encrypt_low_keyring_checksum L X this type dst dst_len page_type =
     (if m_encryption_rotation this = MASTER_KEY_TO_KEYRING then do {
        dst \<leftarrow> (if is_page_zip_compressed type
                then memcpy dst (FIL_PAGE_ZIP_KEYRING_ENCRYPTION_MAGIC L)
                       (ZIP_PAGE_KEYRING_ENCRYPTION_MAGIC L)
                else Some dst);
        page_size \<leftarrow>
          (if page_type = FIL_PAGE_COMPRESSED L
           then map_option unat (mach_read_from_2 dst (FIL_PAGE_COMPRESS_SIZE_V1 L))
           else if is_page_zip_compressed type then Some (get_zip_page_physical_size type)
           else Some (dst_len mod 2 ^ 32));
        Some (fil_crypt_calculate_checksum X page_size dst (is_page_zip_compressed type), dst)
      } else Some (0, dst))"

definition encrypt_low_keyring_stamp ::
  "fil_consts \<Rightarrow> Encryption \<Rightarrow> IORequest \<Rightarrow> byte list \<Rightarrow> nat \<Rightarrow> 16 word \<Rightarrow> byte list option" where
  "encrypt_low_keyring_stamp L this type dst dst_len page_type =
     (if page_type = FIL_PAGE_COMPRESSED L
      then (if m_checksum this \<noteq> 0 then mach_write_to_4 dst FIL_PAGE_DATA (m_checksum this)
            else Some dst)
      else if \<not> is_page_zip_compressed type then do {
        dst \<leftarrow> mach_write_to_4 dst (FIL_PAGE_ENCRYPTION_KEY_VERSION L) (m_key_version this);
        if m_checksum this \<noteq> 0
        then do { off \<leftarrow> usub dst_len 4; mach_write_to_4 dst off (m_checksum this) }
        else Some dst
      }
      else mach_write_to_4 dst (FIL_PAGE_ENCRYPTION_KEY_VERSION L) (m_key_version this))"

definition encrypt_low_keyring ::
  "fil_consts \<Rightarrow> extern \<Rightarrow> Encryption \<Rightarrow> IORequest \<Rightarrow> byte list \<Rightarrow> byte list \<Rightarrow> nat \<Rightarrow> 16 word
     \<Rightarrow> (Encryption \<times> byte list \<times> byte list) option" where
  "encrypt_low_keyring L X this type src dst dst_len page_type = do {
     let this = this\<lparr>m_checksum := 0\<rparr>;
     dst \<leftarrow> encrypt_low_keyring_reserve L this dst page_type;
     (checksum, dst) \<leftarrow> encrypt_low_keyring_checksum L X this type dst dst_len page_type;
     let this = this\<lparr>m_checksum := checksum\<rparr>;
     src \<leftarrow> mach_write_to_4 src (FIL_PAGE_ENCRYPTION_KEY_VERSION L) (m_key_version this);
     dst \<leftarrow> encrypt_low_keyring_stamp L this type dst dst_len page_type;
     Some (this, src, dst)
   }"

record encrypt_low_result =
  ret :: bool
  this_out :: Encryption
  src_out :: "byte list"
  dst_out :: "byte list"
  dst_len_out :: nat

definition encrypt_low ::
  "fil_consts \<Rightarrow> extern \<Rightarrow> Encryption \<Rightarrow> IORequest \<Rightarrow> byte list \<Rightarrow> nat \<Rightarrow> byte list \<Rightarrow> nat
     \<Rightarrow> encrypt_low_result option" where
  "encrypt_low L X this type src src_len dst dst_len = do {
     page_type \<leftarrow> mach_read_from_2 src (FIL_PAGE_TYPE L);
     let DST_HEADER_SIZE =
       (if m_type this = KEYRING \<and> page_type = FIL_PAGE_COMPRESSED L
        then FIL_PAGE_DATA + 8 else FIL_PAGE_DATA);
     src_enc_len \<leftarrow> encrypt_low_src_enc_len L src src_len page_type;
     case m_type this of
       NONE \<Rightarrow> None \<comment> \<open>\<open>ut_error\<close>\<close>
     | _ \<Rightarrow> do {
         data_len \<leftarrow> encrypt_low_data_len L this type page_type src_enc_len;
         (ok, dst) \<leftarrow> encrypt_low_data X this src dst DST_HEADER_SIZE data_len;
         if \<not> ok
         then Some \<lparr>ret = False, this_out = this, src_out = src, dst_out = dst,
                     dst_len_out = src_len\<rparr>
         else do {
           dst \<leftarrow> encrypt_low_header L src dst page_type;
           dst \<leftarrow> encrypt_low_padding dst src_len src_enc_len DST_HEADER_SIZE data_len;
           (this, src, dst) \<leftarrow>
             (if m_type this = KEYRING
              then encrypt_low_keyring L X this type src dst dst_len page_type
              else Some (this, src, dst));
           Some \<lparr>ret = True, this_out = this, src_out = src, dst_out = dst,
                  dst_len_out = src_len\<rparr>
         }
       }
   }"

text \<open>
  The \<open>ut_ad\<close>s of \<open>encrypt_low\<close>: the page is not encrypted already, the key has
  \<open>KEY_LEN\<close> = 32 bytes, at least two cipher blocks are encrypted, and in keyring mode
  \<open>*dst_len\<close> is \<open>src_len\<close> on entry and the key version is not 0.
\<close>

definition encrypt_low_ut_ad ::
  "fil_consts \<Rightarrow> Encryption \<Rightarrow> IORequest \<Rightarrow> byte list \<Rightarrow> nat \<Rightarrow> nat \<Rightarrow> bool" where
  "encrypt_low_ut_ad L this type src src_len dst_len \<longleftrightarrow>
     is_encrypted_page L src = Some False \<and> m_klen this = 32 \<and>
     (case do {
             page_type \<leftarrow> mach_read_from_2 src (FIL_PAGE_TYPE L);
             src_enc_len \<leftarrow> encrypt_low_src_enc_len L src src_len page_type;
             encrypt_low_data_len L this type page_type src_enc_len
           } of
        None \<Rightarrow> False
      | Some data_len \<Rightarrow> 2 * MY_AES_BLOCK_SIZE \<le> data_len) \<and>
     (m_type this \<noteq> KEYRING \<or> dst_len = src_len \<and> m_key_version this \<noteq> 0)"

section \<open>Page decryption: \<open>Encryption::decrypt\<close>\<close>

text \<open>
  \<open>decrypt\<close> works in place on \<open>src\<close>, with \<open>dst\<close> as scratch space (\<open>None\<close> for a
  null \<open>dst\<close>: the block of \<open>os_alloc_block\<close> is taken). The result is the error code,
  the page and the scratch buffer. The length the cipher passes work on (lines 1563 to
  1633), the passes (1635 to 1715) and the restored header (1717 to 1742) follow the
  source. Its \<open>default\<close> branch is not reached: \<open>NONE\<close> has returned before the switch.
\<close>

definition decrypt_src_len :: "fil_consts \<Rightarrow> extern \<Rightarrow> IORequest \<Rightarrow> byte list \<Rightarrow> nat \<Rightarrow> 16 word \<Rightarrow> nat option" where
  "decrypt_src_len L X type src src_len page_type =
     (if page_type = FIL_PAGE_COMPRESSED_AND_ENCRYPTED L then do {
        z_len \<leftarrow> mach_read_from_2 src (FIL_PAGE_COMPRESS_SIZE_V1 L);
        let src_len = unat z_len + FIL_PAGE_DATA;
        Some (if deserialize_header_m_version X src = FIL_PAGE_VERSION_1 L
              then ut_calc_align X src_len (block_size type)
              else if src_len < MIN_ENCRYPTION_LEN then MIN_ENCRYPTION_LEN else src_len)
      } else Some src_len)"

definition decrypt_data_len :: "fil_consts \<Rightarrow> Encryption \<Rightarrow> IORequest \<Rightarrow> 16 word \<Rightarrow> nat \<Rightarrow> nat \<Rightarrow> nat option" where
  "decrypt_data_len L this type page_type src_len HEADER_SIZE = do {
     data_len \<leftarrow> usub src_len HEADER_SIZE;
     if m_type this = KEYRING \<and> page_type = FIL_PAGE_COMPRESSED_AND_ENCRYPTED L
     then Some (data_len + 8)
     else if page_type = FIL_PAGE_ENCRYPTED L \<and> m_type this = KEYRING
             \<and> \<not> is_page_zip_compressed type
     then usub data_len 4
     else Some data_len
   }"

text \<open>
  The cipher passes of \<open>decrypt\<close>; \<open>ptr\<close> is the offset \<open>HEADER_SIZE\<close> into \<open>src\<close>.
  The result is \<open>(False, src, dst)\<close> where the source returns \<open>DB_IO_DECRYPT_FAIL\<close>.
\<close>

definition decrypt_data ::
  "fil_consts \<Rightarrow> extern \<Rightarrow> Encryption \<Rightarrow> byte list \<Rightarrow> byte list \<Rightarrow> 16 word \<Rightarrow> nat \<Rightarrow> nat
     \<Rightarrow> (bool \<times> byte list \<times> byte list) option" where
  "decrypt_data L X this src dst page_type ptr data_len =
     (let main_len = (data_len div MY_AES_BLOCK_SIZE) * MY_AES_BLOCK_SIZE;
          remain_len = data_len - main_len
      in do {
        r \<leftarrow> (if remain_len \<noteq> 0 then do {
                let remain_len = MY_AES_BLOCK_SIZE * 2;
                off \<leftarrow> usub (ptr + data_len) remain_len;
                remain_buf \<leftarrow> bytes_at src off remain_len;
                case my_aes_decrypt X remain_buf (m_key this) (m_klen this mod 2 ^ 32)
                       my_aes_256_cbc (Some (m_iv this)) False of
                  None \<Rightarrow> Some (False, dst)
                | Some t \<Rightarrow> do {
                    doff \<leftarrow> usub data_len remain_len;
                    dst \<leftarrow> memcpy dst doff t;
                    other \<leftarrow> bytes_at src ptr doff;
                    dst \<leftarrow> memcpy dst 0 other;
                    Some (True, dst)
                  }
              } else do {
                other \<leftarrow> bytes_at src ptr data_len;
                dst \<leftarrow> memcpy dst 0 other;
                Some (True, dst)
              });
        case r of
          (False, dst) \<Rightarrow> Some (False, src, dst)
        | (True, dst) \<Rightarrow> do {
            (src, ptr) \<leftarrow>
              (if m_type this = KEYRING \<and> page_type = FIL_PAGE_COMPRESSED_AND_ENCRYPTED L
               then do {
                 ptr \<leftarrow> usub ptr 8;
                 src \<leftarrow> memset src (ptr + data_len) 0 8;
                 Some (src, ptr)
               } else Some (src, ptr));
            main \<leftarrow> bytes_at dst 0 (main_len mod 2 ^ 32);
            case my_aes_decrypt X main (m_key this) (m_klen this mod 2 ^ 32)
                   my_aes_256_cbc (Some (m_iv this)) False of
              None \<Rightarrow> Some (False, src, dst)
            | Some m \<Rightarrow> do {
                src \<leftarrow> memcpy src ptr m;
                rest \<leftarrow> bytes_at dst main_len (data_len - main_len);
                src \<leftarrow> memcpy src (ptr + main_len) rest;
                Some (True, src, dst)
              }
          }
      })"

definition decrypt_header ::
  "fil_consts \<Rightarrow> Encryption \<Rightarrow> IORequest \<Rightarrow> byte list \<Rightarrow> nat \<Rightarrow> 16 word \<Rightarrow> 16 word \<Rightarrow> byte list option" where
  "decrypt_header L this type src src_len page_type original_type = do {
     src \<leftarrow> (if m_type this = KEYRING \<and> page_type \<noteq> FIL_PAGE_COMPRESSED_AND_ENCRYPTED L
                \<and> \<not> is_page_zip_compressed type
             then do {
               lsn \<leftarrow> bytes_at src (FIL_PAGE_LSN L + 4) 4;
               off \<leftarrow> usub src_len (FIL_PAGE_END_LSN_OLD_CHKSUM L);
               memcpy src (off + 4) lsn
             } else Some src);
     src \<leftarrow> (if page_type = FIL_PAGE_ENCRYPTED L
             then mach_write_to_2 src (FIL_PAGE_TYPE L) original_type
             else if page_type = FIL_PAGE_ENCRYPTED_RTREE L
             then mach_write_to_2 src (FIL_PAGE_TYPE L) (FIL_PAGE_RTREE L)
             else mach_write_to_2 src (FIL_PAGE_TYPE L) (FIL_PAGE_COMPRESSED L));
     if original_type \<noteq> FIL_PAGE_TYPE_ALLOCATED L
        \<and> page_type \<noteq> FIL_PAGE_COMPRESSED_AND_ENCRYPTED L
     then mach_write_to_2 src (FIL_PAGE_ORIGINAL_TYPE_V1 L) (FIL_PAGE_ENCRYPTED L)
     else Some src
   }"

definition decrypt ::
  "fil_consts \<Rightarrow> extern \<Rightarrow> Encryption \<Rightarrow> IORequest \<Rightarrow> byte list \<Rightarrow> nat \<Rightarrow> byte list option \<Rightarrow> nat
     \<Rightarrow> (dberr_t \<times> byte list \<times> byte list option) option" where
  "decrypt L X this type src src_len dst dst_len = do {
     encrypted \<leftarrow> is_encrypted_page L src;
     if encrypted \<and> m_type this = NONE then Some (DB_IO_DECRYPT_FAIL, src, dst)
     else if \<not> encrypted \<or> m_type this = NONE then Some (DB_SUCCESS, src, dst)
     else do {
       page_type \<leftarrow> mach_read_from_2 src (FIL_PAGE_TYPE L);
       src_len \<leftarrow> decrypt_src_len L X type src src_len page_type;
       let HEADER_SIZE =
         (if m_type this = KEYRING \<and> page_type = FIL_PAGE_COMPRESSED_AND_ENCRYPTED L
          then FIL_PAGE_DATA + 8 else FIL_PAGE_DATA);
       original_type \<leftarrow> mach_read_from_2 src (FIL_PAGE_ORIGINAL_TYPE_V1 L);
       let block = (case dst of None \<Rightarrow> os_alloc_block X | Some d \<Rightarrow> d);
       data_len \<leftarrow> decrypt_data_len L this type page_type src_len HEADER_SIZE;
       (ok, src, block) \<leftarrow> decrypt_data L X this src block page_type HEADER_SIZE data_len;
       let dst = map_option (\<lambda>_. block) dst;
       if \<not> ok then Some (DB_IO_DECRYPT_FAIL, src, dst)
       else do {
         src \<leftarrow> decrypt_header L this type src src_len page_type original_type;
         Some (DB_SUCCESS, src, dst)
       }
     }
   }"


section \<open>Conditions on the layout, and an instance\<close>

text \<open>
  What the theorems ask of the constants that are not among the sources: the fields
  lie in the 38 bytes of the header, the page type, the original type, the key version
  and the zip magic do not overlap one another, and the page type codes that the code
  tells apart are different.
\<close>

definition disjoint_fields :: "nat \<Rightarrow> nat \<Rightarrow> nat \<Rightarrow> nat \<Rightarrow> bool" where
  "disjoint_fields a m b n \<longleftrightarrow> a + m \<le> b \<or> b + n \<le> a"

definition layout_ok :: "fil_consts \<Rightarrow> bool" where
  "layout_ok L \<longleftrightarrow>
     FIL_PAGE_TYPE L + 2 \<le> FIL_PAGE_DATA \<and>
     FIL_PAGE_ORIGINAL_TYPE_V1 L + 2 \<le> FIL_PAGE_DATA \<and>
     FIL_PAGE_ENCRYPTION_KEY_VERSION L + 4 \<le> FIL_PAGE_DATA \<and>
     FIL_PAGE_ZIP_KEYRING_ENCRYPTION_MAGIC L + length (ZIP_PAGE_KEYRING_ENCRYPTION_MAGIC L)
       \<le> FIL_PAGE_DATA \<and>
     disjoint_fields (FIL_PAGE_TYPE L) 2 (FIL_PAGE_ORIGINAL_TYPE_V1 L) 2 \<and>
     disjoint_fields (FIL_PAGE_TYPE L) 2 (FIL_PAGE_ENCRYPTION_KEY_VERSION L) 4 \<and>
     disjoint_fields (FIL_PAGE_ORIGINAL_TYPE_V1 L) 2 (FIL_PAGE_ENCRYPTION_KEY_VERSION L) 4 \<and>
     disjoint_fields (FIL_PAGE_TYPE L) 2 (FIL_PAGE_ZIP_KEYRING_ENCRYPTION_MAGIC L)
       (length (ZIP_PAGE_KEYRING_ENCRYPTION_MAGIC L)) \<and>
     disjoint_fields (FIL_PAGE_ORIGINAL_TYPE_V1 L) 2 (FIL_PAGE_ZIP_KEYRING_ENCRYPTION_MAGIC L)
       (length (ZIP_PAGE_KEYRING_ENCRYPTION_MAGIC L)) \<and>
     FIL_PAGE_END_LSN_OLD_CHKSUM L = 8 \<and>
     FIL_PAGE_ENCRYPTED L \<noteq> FIL_PAGE_COMPRESSED_AND_ENCRYPTED L \<and>
     FIL_PAGE_ENCRYPTED L \<noteq> FIL_PAGE_ENCRYPTED_RTREE L \<and>
     FIL_PAGE_COMPRESSED_AND_ENCRYPTED L \<noteq> FIL_PAGE_ENCRYPTED_RTREE L \<and>
     FIL_PAGE_COMPRESSED L \<noteq> FIL_PAGE_RTREE L"

text \<open>
  What restoring the trailer asks in addition: the low four bytes of the LSN lie in the
  header, apart from the page type, the original type and the key version.
\<close>

definition trailer_layout_ok :: "fil_consts \<Rightarrow> bool" where
  "trailer_layout_ok L \<longleftrightarrow>
     FIL_PAGE_LSN L + 8 \<le> FIL_PAGE_DATA \<and>
     disjoint_fields (FIL_PAGE_LSN L + 4) 4 (FIL_PAGE_TYPE L) 2 \<and>
     disjoint_fields (FIL_PAGE_LSN L + 4) 4 (FIL_PAGE_ORIGINAL_TYPE_V1 L) 2 \<and>
     disjoint_fields (FIL_PAGE_LSN L + 4) 4 (FIL_PAGE_ENCRYPTION_KEY_VERSION L) 4"

text \<open>
  An instance for the concrete runs below: the offsets and type codes of InnoDB's page
  header (LSN at 16, page type at 24, original type at 28, compressed size at 32, the
  trailer of 8 bytes; \<open>FIL_PAGE_ENCRYPTED\<close> = 15 as in the spec), with the key version in
  the four header bytes after the original type and the zip magic in the two before it.
\<close>

definition fil0types :: fil_consts where
  "fil0types = \<lparr>
     FIL_PAGE_LSN = 16, FIL_PAGE_TYPE = 24, FIL_PAGE_ORIGINAL_TYPE_V1 = 28,
     FIL_PAGE_COMPRESS_SIZE_V1 = 32, FIL_PAGE_ENCRYPTION_KEY_VERSION = 30,
     FIL_PAGE_ZIP_KEYRING_ENCRYPTION_MAGIC = 26, FIL_PAGE_END_LSN_OLD_CHKSUM = 8,
     FIL_PAGE_TYPE_ALLOCATED = 0, FIL_PAGE_COMPRESSED = 14, FIL_PAGE_ENCRYPTED = 15,
     FIL_PAGE_COMPRESSED_AND_ENCRYPTED = 16, FIL_PAGE_ENCRYPTED_RTREE = 17,
     FIL_PAGE_RTREE = 17854, ZIP_PAGE_KEYRING_ENCRYPTION_MAGIC = [0x52, 0x4B],
     FIL_PAGE_VERSION_1 = 1 \<rparr>"

text \<open>
  A stand-in for the collaborators, for the concrete runs: a cipher that adds 1 to each
  byte of a whole number of blocks (and subtracts it again), a checksum that adds the
  bytes up, a constant page checksum, compression header version 2, and a zeroed
  scratch block.
\<close>

definition shift_encrypt ::
  "byte list \<Rightarrow> byte list \<Rightarrow> nat \<Rightarrow> my_aes_opmode \<Rightarrow> byte list option \<Rightarrow> bool \<Rightarrow> byte list option" where
  "shift_encrypt source key key_length mode iv padding =
     (if length source mod 16 = 0 then Some (map (\<lambda>b. b + 1) source) else None)"

definition shift_decrypt ::
  "byte list \<Rightarrow> byte list \<Rightarrow> nat \<Rightarrow> my_aes_opmode \<Rightarrow> byte list option \<Rightarrow> bool \<Rightarrow> byte list option" where
  "shift_decrypt source key key_length mode iv padding =
     (if length source mod 16 = 0 then Some (map (\<lambda>b. b - 1) source) else None)"

definition byte_sum :: "byte list \<Rightarrow> 32 word" where
  "byte_sum bs = foldr (\<lambda>b s. ucast b + s) bs 0"

definition stand_in :: extern where
  "stand_in = \<lparr>
     my_aes_encrypt = shift_encrypt, my_aes_decrypt = shift_decrypt, ut_crc32 = byte_sum,
     fil_crypt_calculate_checksum = (\<lambda>page_size page zip. 7),
     deserialize_header_m_version = (\<lambda>page. 2),
     ut_calc_align = (\<lambda>n align. ((n + align - 1) div align) * align),
     os_alloc_block = replicate 128 0 \<rparr>"

text \<open>
  What the round trip asks of the cipher: on a whole number of blocks both directions
  succeed, keep the length, and decryption undoes encryption under the same key and iv.
\<close>

definition cipher_ok :: "extern \<Rightarrow> bool" where
  "cipher_ok X \<longleftrightarrow>
     (\<forall>source key klen mode iv.
        length source mod MY_AES_BLOCK_SIZE = 0 \<longrightarrow>
        (\<exists>c. my_aes_encrypt X source key klen mode iv False = Some c \<and> length c = length source \<and>
              my_aes_decrypt X c key klen mode iv False = Some source))"

text \<open>
  The cipher calls of the page paths: \<open>my_aes_encrypt\<close> and \<open>my_aes_decrypt\<close> with the
  key of the context, its length cast to \<open>uint32\<close>, the mode \<open>my_aes_256_cbc\<close>, the iv of the
  context and no padding.
\<close>

abbreviation enc_pass :: "extern \<Rightarrow> Encryption \<Rightarrow> byte list \<Rightarrow> byte list option" where
  "enc_pass X this x \<equiv>
     my_aes_encrypt X x (m_key this) (m_klen this mod 2 ^ 32) my_aes_256_cbc (Some (m_iv this)) False"

abbreviation dec_pass :: "extern \<Rightarrow> Encryption \<Rightarrow> byte list \<Rightarrow> byte list option" where
  "dec_pass X this x \<equiv>
     my_aes_decrypt X x (m_key this) (m_klen this mod 2 ^ 32) my_aes_256_cbc (Some (m_iv this)) False"

text \<open>A page of 80 bytes: an index page (type 17855) with LSN bytes and a payload.\<close>

definition page80 :: "byte list" where
  "page80 = [1, 2, 3, 4, 0, 0, 0, 5, 255, 255, 255, 255, 255, 255, 255, 255,
             0, 0, 0, 0, 0, 0, 9, 7, 69, 191, 0, 0, 0, 0, 0, 0,
             0, 0, 0, 0, 0, 6, 3, 10, 17, 24, 31, 38, 45, 52, 59, 66,
             73, 80, 87, 94, 101, 108, 115, 122, 129, 136, 143, 150, 157, 164, 171, 178,
             185, 192, 199, 206, 213, 220, 227, 234, 241, 248, 4, 11, 0, 0, 9, 7]"

definition ctx_aes :: Encryption where
  "ctx_aes = \<lparr> m_type = AES, m_key = replicate 32 1, m_klen = 32, m_iv = replicate 32 2,
     m_key_version = 0, m_key_id = 0, m_checksum = 0, m_encryption_rotation = NO_ROTATION,
     m_key_id_uuid = [] \<rparr>"

definition ctx_keyring :: Encryption where
  "ctx_keyring = \<lparr> m_type = KEYRING, m_key = replicate 32 1, m_klen = 32, m_iv = replicate 32 2,
     m_key_version = 5, m_key_id = 1, m_checksum = 0, m_encryption_rotation = NO_ROTATION,
     m_key_id_uuid = ''00000000-0000-0000-0000-000000000001'' \<rparr>"

definition plain_io :: IORequest where
  "plain_io = \<lparr> is_page_zip_compressed = False, get_zip_page_physical_size = 0,
     block_size = 512 \<rparr>"

text \<open>The result of encrypting \<open>page80\<close> in keyring mode into a zeroed buffer.\<close>

definition run_keyring80 :: encrypt_low_result where
  "run_keyring80 = \<lparr> ret = True, this_out = ctx_keyring,
     src_out = [1, 2, 3, 4, 0, 0, 0, 5, 255, 255, 255, 255, 255, 255, 255, 255,
                0, 0, 0, 0, 0, 0, 9, 7, 69, 191, 0, 0, 0, 0, 0, 0,
                0, 5, 0, 0, 0, 6, 3, 10, 17, 24, 31, 38, 45, 52, 59, 66,
                73, 80, 87, 94, 101, 108, 115, 122, 129, 136, 143, 150, 157, 164, 171, 178,
                185, 192, 199, 206, 213, 220, 227, 234, 241, 248, 4, 11, 0, 0, 9, 7],
     dst_out = [1, 2, 3, 4, 0, 0, 0, 5, 255, 255, 255, 255, 255, 255, 255, 255,
                0, 0, 0, 0, 0, 0, 9, 7, 0, 15, 0, 0, 69, 191, 0, 0,
                0, 5, 0, 0, 0, 6, 4, 11, 18, 25, 32, 39, 47, 54, 61, 68,
                75, 82, 89, 96, 103, 110, 117, 124, 131, 138, 145, 152, 159, 166, 173, 180,
                187, 194, 201, 208, 215, 222, 228, 235, 242, 249, 5, 12, 0, 0, 0, 0],
     dst_len_out = 80 \<rparr>"

text \<open>The result of encrypting \<open>page80\<close> in AES mode into a zeroed buffer.\<close>

definition run_aes80 :: encrypt_low_result where
  "run_aes80 = \<lparr> ret = True, this_out = ctx_aes, src_out = page80,
     dst_out = [1, 2, 3, 4, 0, 0, 0, 5, 255, 255, 255, 255, 255, 255, 255, 255,
                0, 0, 0, 0, 0, 0, 9, 7, 0, 15, 0, 0, 69, 191, 0, 0,
                0, 0, 0, 0, 0, 6, 4, 11, 18, 25, 32, 39, 46, 53, 60, 67,
                75, 82, 89, 96, 103, 110, 117, 124, 131, 138, 145, 152, 159, 166, 173, 180,
                187, 194, 201, 208, 215, 222, 228, 235, 242, 249, 5, 12, 1, 1, 10, 8],
     dst_len_out = 80 \<rparr>"

text \<open>
  A page of type \<open>FIL_PAGE_COMPRESSED\<close> whose 42 bytes of compressed data fill its 80
  bytes (bytes 26 to 33 are the compression control block: version 2, algorithm 1, the
  original type, the original size 16384 and the compressed size 42), and the result of
  encrypting it in keyring mode into a zeroed buffer of 96 bytes.
\<close>

definition zfull80 :: "byte list" where
  "zfull80 = [1, 2, 3, 4, 0, 0, 0, 5, 255, 255, 255, 255, 255, 255, 255, 255,
             0, 0, 0, 0, 0, 0, 9, 7, 0, 14, 2, 1, 69, 191, 64, 0,
             0, 42, 0, 0, 0, 6, 3, 10, 17, 24, 31, 38, 45, 52, 59, 66,
             73, 80, 87, 94, 101, 108, 115, 122, 129, 136, 143, 150, 157, 164, 171, 178,
             185, 192, 199, 206, 213, 220, 227, 234, 241, 248, 4, 11, 0, 0, 9, 7]"

definition run_zfull80 :: encrypt_low_result where
  "run_zfull80 = \<lparr> ret = True, this_out = ctx_keyring,
     src_out = [1, 2, 3, 4, 0, 0, 0, 5, 255, 255, 255, 255, 255, 255, 255, 255,
                0, 0, 0, 0, 0, 0, 9, 7, 0, 14, 2, 1, 69, 191, 0, 0,
                0, 5, 0, 0, 0, 6, 3, 10, 17, 24, 31, 38, 45, 52, 59, 66,
                73, 80, 87, 94, 101, 108, 115, 122, 129, 136, 143, 150, 157, 164, 171, 178,
                185, 192, 199, 206, 213, 220, 227, 234, 241, 248, 4, 11, 0, 0, 9, 7],
     dst_out = [1, 2, 3, 4, 0, 0, 0, 5, 255, 255, 255, 255, 255, 255, 255, 255,
                0, 0, 0, 0, 0, 0, 9, 7, 0, 16, 2, 1, 69, 191, 64, 0,
                0, 42, 0, 0, 0, 6, 0, 0, 0, 0, 0, 0, 0, 5, 4, 11,
                18, 25, 32, 39, 46, 53, 60, 67, 75, 82, 89, 96, 103, 110, 117, 124,
                131, 138, 145, 152, 159, 166, 173, 180, 187, 194, 201, 208, 215, 222, 228, 235,
                242, 249, 5, 12, 1, 1, 10, 8, 0, 0, 0, 0, 0, 0, 0, 0],
     dst_len_out = 80 \<rparr>"



text \<open>
  A keyring context in a rotation from the master key, a request for a zip page, and
  the result of encrypting \<open>page80\<close> with them into a zeroed buffer.
\<close>

definition ctx_rot :: Encryption where
  "ctx_rot = ctx_keyring\<lparr>m_encryption_rotation := MASTER_KEY_TO_KEYRING\<rparr>"

definition zip_io :: IORequest where
  "zip_io = \<lparr> is_page_zip_compressed = True, get_zip_page_physical_size = 80,
     block_size = 512 \<rparr>"

definition run_rot80 :: encrypt_low_result where
  "run_rot80 = \<lparr> ret = True, this_out = ctx_rot\<lparr>m_checksum := 7\<rparr>,
     src_out = [1, 2, 3, 4, 0, 0, 0, 5, 255, 255, 255, 255, 255, 255, 255, 255,
                0, 0, 0, 0, 0, 0, 9, 7, 69, 191, 0, 0, 0, 0, 0, 0,
                0, 5, 0, 0, 0, 6, 3, 10, 17, 24, 31, 38, 45, 52, 59, 66,
                73, 80, 87, 94, 101, 108, 115, 122, 129, 136, 143, 150, 157, 164, 171, 178,
                185, 192, 199, 206, 213, 220, 227, 234, 241, 248, 4, 11, 0, 0, 9, 7],
     dst_out = [1, 2, 3, 4, 0, 0, 0, 5, 255, 255, 255, 255, 255, 255, 255, 255,
                0, 0, 0, 0, 0, 0, 9, 7, 0, 15, 82, 75, 69, 191, 0, 0,
                0, 5, 0, 0, 0, 6, 4, 11, 18, 25, 32, 39, 46, 53, 60, 67,
                75, 82, 89, 96, 103, 110, 117, 124, 131, 138, 145, 152, 159, 166, 173, 180,
                187, 194, 201, 208, 215, 222, 228, 235, 242, 249, 5, 12, 1, 1, 10, 8],
     dst_len_out = 80 \<rparr>"

text \<open>What \<open>decrypt\<close> makes of the AES-encrypted \<open>page80\<close>.\<close>

definition back_aes80 :: "byte list" where
  "back_aes80 = [1, 2, 3, 4, 0, 0, 0, 5, 255, 255, 255, 255, 255, 255, 255, 255,
                 0, 0, 0, 0, 0, 0, 9, 7, 69, 191, 0, 0, 0, 15, 0, 0,
                 0, 0, 0, 0, 0, 6, 3, 10, 17, 24, 31, 38, 45, 52, 59, 66,
                 73, 80, 87, 94, 101, 108, 115, 122, 129, 136, 143, 150, 157, 164, 171, 178,
                 185, 192, 199, 206, 213, 220, 227, 234, 241, 248, 4, 11, 0, 0, 9, 7]"

text \<open>What \<open>decrypt\<close> makes of the keyring-encrypted \<open>page80\<close>.\<close>

definition back_keyring80 :: "byte list" where
  "back_keyring80 = [1, 2, 3, 4, 0, 0, 0, 5, 255, 255, 255, 255, 255, 255, 255, 255,
                     0, 0, 0, 0, 0, 0, 9, 7, 69, 191, 0, 0, 0, 15, 0, 0,
                     0, 5, 0, 0, 0, 6, 3, 10, 17, 24, 31, 38, 45, 52, 59, 66,
                     73, 80, 87, 94, 101, 108, 115, 122, 129, 136, 143, 150, 157, 164, 171, 178,
                     185, 192, 199, 206, 213, 220, 227, 234, 241, 248, 4, 11, 0, 0, 9, 7]"

section \<open>Redo log blocks: \<open>encrypt_log_block\<close> and \<open>decrypt_log_block\<close>\<close>

text \<open>
  Modelled from the spec: a log block is a fixed unit of 512 bytes.
\<close>

definition OS_FILE_LOG_BLOCK_SIZE :: nat where
  "OS_FILE_LOG_BLOCK_SIZE = 512"

text \<open>
  The sizes of the block header and trailer, \<open>REDO_LOG_ENCRYPT_NO_VERSION\<close>, the
  accessors of the block (\<open>log0log\<close>) and the key manager of the redo log are not among
  the sources: they are parameters. \<open>load_key_version\<close> stands for
  \<open>redo_log_key_mgr.load_key_version(nullptr, uuid, version)\<close>, with \<open>None\<close> for a null
  result; it is handed the \<open>ulint\<close> that the source hands it.
\<close>

record redo_log_key =
  mkey_version :: "32 word"
  mkey_key :: "byte list"

record log0log =
  LOG_BLOCK_HDR_SIZE :: nat
  LOG_BLOCK_TRL_SIZE :: nat
  REDO_LOG_ENCRYPT_NO_VERSION :: "64 word"
  log_block_get_encrypt_bit :: "byte list \<Rightarrow> bool"
  log_block_set_encrypt_bit :: "byte list \<Rightarrow> bool \<Rightarrow> byte list"
  log_block_calc_checksum_crc32 :: "byte list \<Rightarrow> 32 word"
  log_block_get_checksum :: "byte list \<Rightarrow> 32 word"
  log_block_set_checksum :: "byte list \<Rightarrow> 32 word \<Rightarrow> byte list"
  load_key_version :: "string \<Rightarrow> 64 word \<Rightarrow> redo_log_key option"

definition log_block_data_len :: "log0log \<Rightarrow> Encryption \<Rightarrow> nat option" where
  "log_block_data_len G this = do {
     let unencrypted_trailer_size = (if m_type this = KEYRING then LOG_BLOCK_TRL_SIZE G else 0);
     n \<leftarrow> usub OS_FILE_LOG_BLOCK_SIZE (LOG_BLOCK_HDR_SIZE G);
     usub n unencrypted_trailer_size
   }"

text \<open>
  \<open>encrypt_log_block\<close> on the block at \<open>src_ptr\<close> and the block at \<open>dst_ptr\<close>: the
  cipher passes (lines 1004 to 1043; \<open>(False, dst_ptr)\<close> where the source returns false)
  and the whole function. The sum \<open>crc + m_key_version\<close> is formed in \<open>ulint\<close> (64 bits)
  and stored in the 4 bytes of the checksum.
\<close>

definition encrypt_log_block_data ::
  "log0log \<Rightarrow> extern \<Rightarrow> Encryption \<Rightarrow> byte list \<Rightarrow> byte list \<Rightarrow> nat \<Rightarrow> (bool \<times> byte list) option" where
  "encrypt_log_block_data G X this src_ptr dst_ptr data_len =
     (let main_len = (data_len div MY_AES_BLOCK_SIZE) * MY_AES_BLOCK_SIZE;
          remain_len = data_len - main_len
      in do {
        plain \<leftarrow> bytes_at src_ptr (LOG_BLOCK_HDR_SIZE G) (main_len mod 2 ^ 32);
        case my_aes_encrypt X plain (m_key this) (m_klen this mod 2 ^ 32) my_aes_256_cbc
               (Some (m_iv this)) False of
          None \<Rightarrow> Some (False, dst_ptr)
        | Some c \<Rightarrow> do {
            dst_ptr \<leftarrow> memcpy dst_ptr (LOG_BLOCK_HDR_SIZE G) c;
            let len = length c;
            n \<leftarrow> usub OS_FILE_LOG_BLOCK_SIZE (LOG_BLOCK_HDR_SIZE G);
            n \<leftarrow> usub n len;
            rest \<leftarrow> bytes_at src_ptr (LOG_BLOCK_HDR_SIZE G + len) n;
            dst_ptr \<leftarrow> memcpy dst_ptr (LOG_BLOCK_HDR_SIZE G + len) rest;
            if remain_len \<noteq> 0 then do {
              let remain_len = MY_AES_BLOCK_SIZE * 2;
              off \<leftarrow> usub (LOG_BLOCK_HDR_SIZE G + data_len) remain_len;
              tail \<leftarrow> bytes_at dst_ptr off remain_len;
              case my_aes_encrypt X tail (m_key this) (m_klen this mod 2 ^ 32)
                     my_aes_256_cbc (Some (m_iv this)) False of
                None \<Rightarrow> Some (False, dst_ptr)
              | Some remain_buf \<Rightarrow>
                  \<comment> \<open>\<open>remain_buf\<close> has \<open>remain_len\<close> bytes, all of which are copied\<close>
                  if length remain_buf \<noteq> remain_len then None
                  else do { d \<leftarrow> memcpy dst_ptr off remain_buf; Some (True, d) }
            } else Some (True, dst_ptr)
          }
      })"

definition encrypt_log_block ::
  "log0log \<Rightarrow> extern \<Rightarrow> Encryption \<Rightarrow> byte list \<Rightarrow> byte list \<Rightarrow> (bool \<times> byte list) option" where
  "encrypt_log_block G X this src_ptr dst_ptr = do {
     data_len \<leftarrow> log_block_data_len G this;
     hdr \<leftarrow> bytes_at src_ptr 0 (LOG_BLOCK_HDR_SIZE G);
     dst_ptr \<leftarrow> memcpy dst_ptr 0 hdr;
     case m_type this of
       NONE \<Rightarrow> None \<comment> \<open>\<open>ut_error\<close>\<close>
     | _ \<Rightarrow> do {
         (ok, dst_ptr) \<leftarrow> encrypt_log_block_data G X this src_ptr dst_ptr data_len;
         if \<not> ok then Some (False, dst_ptr)
         else do {
           let dst_ptr = log_block_set_encrypt_bit G dst_ptr True;
           let dst_ptr =
             (if m_type this = KEYRING
              then (let crc = (ucast (log_block_calc_checksum_crc32 G dst_ptr) :: 64 word)
                    in log_block_set_checksum G dst_ptr
                         (ucast (crc + ucast (m_key_version this))))
              else dst_ptr);
           Some (True, dst_ptr)
         }
       }
   }"

text \<open>
  \<open>decrypt_log_block\<close>, in place on the block at \<open>src\<close> with \<open>dst\<close> as scratch space. In
  keyring mode it first recovers the key version the block was encrypted with (lines 1392
  to 1395) and swaps that key in (1397 to 1403); both members that the swap assigns are
  part of the result. The cipher passes are lines 1407 to 1453.
\<close>

definition enc_key_version :: "log0log \<Rightarrow> byte list \<Rightarrow> 64 word" where
  "enc_key_version G src =
     (let block_crc = (ucast (log_block_calc_checksum_crc32 G src) :: 64 word);
          written_crc = (ucast (log_block_get_checksum G src) :: 64 word)
      in written_crc - block_crc)"

definition decrypt_log_block_key :: "log0log \<Rightarrow> Encryption \<Rightarrow> byte list \<Rightarrow> Encryption option" where
  "decrypt_log_block_key G this src =
     (if ucast (m_key_version this) \<noteq> enc_key_version G src
         \<and> enc_key_version G src \<noteq> REDO_LOG_ENCRYPT_NO_VERSION G
      then do {
        mkey \<leftarrow> load_key_version G (m_key_id_uuid this) (enc_key_version G src);
        Some (this\<lparr>m_key_version := mkey_version mkey, m_key := mkey_key mkey\<rparr>)
      } else Some this)"

definition decrypt_log_block_data ::
  "log0log \<Rightarrow> extern \<Rightarrow> Encryption \<Rightarrow> byte list \<Rightarrow> byte list \<Rightarrow> nat
     \<Rightarrow> (bool \<times> byte list \<times> byte list) option" where
  "decrypt_log_block_data G X this src dst data_len =
     (let main_len = (data_len div MY_AES_BLOCK_SIZE) * MY_AES_BLOCK_SIZE;
          remain_len = data_len - main_len;
          ptr = LOG_BLOCK_HDR_SIZE G
      in do {
        r \<leftarrow> (if remain_len \<noteq> 0 then do {
                let remain_len = MY_AES_BLOCK_SIZE * 2;
                off \<leftarrow> usub (ptr + data_len) remain_len;
                remain_buf \<leftarrow> bytes_at src off remain_len;
                case my_aes_decrypt X remain_buf (m_key this) (m_klen this mod 2 ^ 32)
                       my_aes_256_cbc (Some (m_iv this)) False of
                  None \<Rightarrow> Some (False, dst)
                | Some t \<Rightarrow> do {
                    doff \<leftarrow> usub data_len remain_len;
                    dst \<leftarrow> memcpy dst doff t;
                    other \<leftarrow> bytes_at src ptr doff;
                    dst \<leftarrow> memcpy dst 0 other;
                    Some (True, dst)
                  }
              } else do {
                other \<leftarrow> bytes_at src ptr data_len;
                dst \<leftarrow> memcpy dst 0 other;
                Some (True, dst)
              });
        case r of
          (False, dst) \<Rightarrow> Some (False, src, dst)
        | (True, dst) \<Rightarrow> do {
            main \<leftarrow> bytes_at dst 0 (main_len mod 2 ^ 32);
            case my_aes_decrypt X main (m_key this) (m_klen this mod 2 ^ 32)
                   my_aes_256_cbc (Some (m_iv this)) False of
              None \<Rightarrow> Some (False, src, dst)
            | Some m \<Rightarrow> do {
                src \<leftarrow> memcpy src ptr m;
                rest \<leftarrow> bytes_at dst main_len (data_len - main_len);
                src \<leftarrow> memcpy src (ptr + main_len) rest;
                Some (True, src, dst)
              }
          }
      })"

definition decrypt_log_block ::
  "log0log \<Rightarrow> extern \<Rightarrow> Encryption \<Rightarrow> byte list \<Rightarrow> byte list
     \<Rightarrow> (dberr_t \<times> Encryption \<times> byte list \<times> byte list) option" where
  "decrypt_log_block G X this src dst = do {
     data_len \<leftarrow> log_block_data_len G this;
     case m_type this of
       NONE \<Rightarrow> Some (DB_UNSUPPORTED, this, src, dst)
     | _ \<Rightarrow> do {
         this \<leftarrow> (if m_type this = KEYRING then decrypt_log_block_key G this src else Some this);
         (ok, src, dst) \<leftarrow> decrypt_log_block_data G X this src dst data_len;
         if \<not> ok then Some (DB_IO_DECRYPT_FAIL, this, src, dst)
         else do {
           let src = log_block_set_encrypt_bit G src False;
           let src =
             (if m_type this = KEYRING
              then log_block_set_checksum G src (log_block_calc_checksum_crc32 G src)
              else src);
           Some (DB_SUCCESS, this, src, dst)
         }
       }
   }"

text \<open>
  What the theorems ask of the accessors, on a block of 512 bytes: storing the checksum
  and the encrypted bit keeps the length of the block, a stored checksum is read back,
  and the checksum field is not part of what \<open>log_block_calc_checksum_crc32\<close> sums.
\<close>

definition log0log_ok :: "log0log \<Rightarrow> bool" where
  "log0log_ok G \<longleftrightarrow>
     (\<forall>b c. length b = OS_FILE_LOG_BLOCK_SIZE \<longrightarrow>
        length (log_block_set_checksum G b c) = length b \<and>
        log_block_get_checksum G (log_block_set_checksum G b c) = c \<and>
        log_block_calc_checksum_crc32 G (log_block_set_checksum G b c)
          = log_block_calc_checksum_crc32 G b) \<and>
     (\<forall>b e. length (log_block_set_encrypt_bit G b e) = length b)"

text \<open>
  An instance for the concrete runs: a header of 12 bytes and a trailer of 4, the
  checksum in the last 4 bytes of the block, the encrypted bit as the top bit of byte 4,
  the sum of the first 508 bytes as checksum, no version as 0, and a key manager that
  knows every version.
\<close>

definition log0log_std :: log0log where
  "log0log_std = \<lparr>
     LOG_BLOCK_HDR_SIZE = 12, LOG_BLOCK_TRL_SIZE = 4, REDO_LOG_ENCRYPT_NO_VERSION = 0,
     log_block_get_encrypt_bit = (\<lambda>b. bit (b ! 4) 7),
     log_block_set_encrypt_bit =
       (\<lambda>b e. b[4 := (if e then b ! 4 OR 0x80 else b ! 4 AND 0x7F)]),
     log_block_calc_checksum_crc32 = (\<lambda>b. byte_sum (take 508 b)),
     log_block_get_checksum = (\<lambda>b. the (mach_read_from_4 b 508)),
     log_block_set_checksum = (\<lambda>b c. take 508 b @ bytes_of_4 c @ drop 512 b),
     load_key_version =
       (\<lambda>uuid v. Some \<lparr>mkey_version = ucast v, mkey_key = replicate 32 (ucast v)\<rparr>) \<rparr>"

definition log_block512 :: "byte list" where
  "log_block512 = [0, 0, 0, 7, 1, 0, 0, 12, 0, 0, 0, 3] @ replicate 496 0x21 @ [0, 0, 0, 0]"

text \<open>
  A context and blocks of the redo log for the concrete runs: a context whose key has
  version 3, and the blocks that encrypting \<open>log_block512\<close> under version 5 and
  decrypting the result give.
\<close>

definition ctx_log :: Encryption where
  "ctx_log = ctx_keyring\<lparr>m_key_version := 3, m_key := replicate 32 3\<rparr>"

definition enc_block512 :: "byte list" where
  "enc_block512 = [0, 0, 0, 7, 0x81, 0, 0, 12, 0, 0, 0, 3] @ replicate 496 0x22 @ [0, 0, 0x42, 0x7C]"

definition dec_block512 :: "byte list" where
  "dec_block512 = [0, 0, 0, 7, 1, 0, 0, 12, 0, 0, 0, 3] @ replicate 496 0x21 @ [0, 0, 0x40, 7]"



section \<open>The master key and the encryption information\<close>

text \<open>
  A C string is the list of its bytes before the terminating NUL. The constants of
  \<open>os0enc.h\<close>, \<open>server_uuid\<close> and \<open>server_id\<close> of \<open>mysqld.h\<close>, \<open>recv_recovery_is_on\<close> and
  the keyring service are not among the sources: they are parameters. The keyring
  service works on a store of type \<open>'k\<close>: \<open>my_key_generate\<close> gives its return value and
  the new store, \<open>my_key_fetch\<close> its return value and the key it stores through its
  \<open>key\<close> argument (\<open>None\<close> for a null pointer).
\<close>

type_synonym cstring = "byte list"

record 'k os0enc =
  KEY_MAGIC_V1 :: "byte list"
  KEY_MAGIC_V2 :: "byte list"
  KEY_MAGIC_V3 :: "byte list"
  MAGIC_SIZE :: nat
  KEY_LEN :: nat
  SERVER_UUID_LEN :: nat
  MASTER_KEY_PREFIX :: cstring
  MASTER_KEY_NAME_MAX_LEN :: nat
  DEFAULT_MASTER_KEY :: cstring
  DEFAULT_MASTER_KEY_ID :: "32 word"
  server_uuid :: cstring
  server_id :: nat
  recv_recovery_is_on :: bool
  my_key_generate :: "'k \<Rightarrow> cstring \<Rightarrow> cstring \<Rightarrow> nat \<Rightarrow> int \<times> 'k"
  my_key_fetch :: "'k \<Rightarrow> cstring \<Rightarrow> int \<times> byte list option"

text \<open>
  The static members \<open>s_master_key_id\<close> (a \<open>uint32_t\<close>) and \<open>s_uuid\<close>, and the store of
  the keyring. The mutex around the first key is left out: the model runs one call at a
  time.
\<close>

record 'k globals =
  s_master_key_id :: "32 word"
  s_uuid :: cstring
  keyring :: 'k

datatype Version = VERSION_1 | VERSION_2 | VERSION_3

fun decimal :: "nat \<Rightarrow> cstring" where
  "decimal n = (if n < 10 then [0x30 + of_nat n]
                else decimal (n div 10) @ [0x30 + of_nat (n mod 10)])"

declare decimal.simps [simp del]

definition c_str :: "byte list \<Rightarrow> cstring" where
  \<comment> \<open>the string that starts a buffer whose last byte is NUL\<close>
  "c_str buf = takeWhile (\<lambda>b. b \<noteq> 0) buf"

definition master_key_name :: "'k os0enc \<Rightarrow> cstring \<Rightarrow> cstring \<Rightarrow> cstring" where
  \<comment> \<open>what \<open>snprintf\<close> leaves in \<open>key_name\<close>: the prefix, the uuid or the server id, and
      the number, with \<open>-\<close> between them, cut to the size of the array\<close>
  "master_key_name K mid num =
     take (MASTER_KEY_NAME_MAX_LEN K - 1) (MASTER_KEY_PREFIX K @ [0x2D] @ mid @ [0x2D] @ num)"

definition get_keyring_key :: "'k os0enc \<Rightarrow> 'k \<Rightarrow> cstring \<Rightarrow> byte list option" where
  "get_keyring_key K kr key_name =
     (let (ret, key) = my_key_fetch K kr key_name in if ret \<noteq> 0 then None else key)"

text \<open>
  \<open>create_master_key\<close> gives the new statics and \<open>*master_key\<close>.
\<close>

definition create_master_key :: "'k os0enc \<Rightarrow> 'k globals \<Rightarrow> 'k globals \<times> byte list option" where
  "create_master_key K g =
     (let g = (if s_uuid g \<noteq> server_uuid K
               then g\<lparr>s_uuid := take (SERVER_UUID_LEN K) (server_uuid K)\<rparr> else g);
          key_name = master_key_name K (s_uuid g) (decimal (unat (s_master_key_id g + 1)));
          (ret, kr) = my_key_generate K (keyring g) key_name [0x41, 0x45, 0x53] (KEY_LEN K);
          g = g\<lparr>keyring := kr\<rparr>;
          (ret, master_key) = my_key_fetch K (keyring g) key_name
      in if ret \<noteq> 0 \<or> master_key = None then (g, None)
         else (g\<lparr>s_master_key_id := s_master_key_id g + 1\<rparr>, master_key))"

text \<open>
  The two overloads of \<open>get_master_key\<close>: \<open>get_master_key_by_id\<close> is the one that takes
  the id and the uuid (\<open>None\<close> for a null \<open>srv_uuid\<close>) and gives \<open>*master_key\<close>;
  \<open>get_master_key\<close> is the one that takes pointers to the id and to the key, and gives
  the new statics, \<open>*master_key_id\<close> and \<open>*master_key\<close>.
\<close>

definition get_master_key_by_id ::
  "'k os0enc \<Rightarrow> 'k globals \<Rightarrow> 32 word \<Rightarrow> cstring option \<Rightarrow> byte list option" where
  "get_master_key_by_id K g master_key_id srv_uuid =
     (let key_name =
            (case srv_uuid of
               Some u \<Rightarrow> master_key_name K u (decimal (unat master_key_id))
             | None \<Rightarrow> master_key_name K (decimal (server_id K)) (decimal (unat master_key_id)))
      in get_keyring_key K (keyring g) key_name)"

definition get_master_key ::
  "'k os0enc \<Rightarrow> 'k globals \<Rightarrow> 32 word \<Rightarrow> 'k globals \<times> 32 word \<times> byte list option" where
  "get_master_key K g master_key_id =
     (if s_master_key_id g = DEFAULT_MASTER_KEY_ID K then
        (let g = g\<lparr>s_uuid := take (SERVER_UUID_LEN K) (server_uuid K)\<rparr>;
             key_name = master_key_name K (s_uuid g) [0x31];
             (ret, kr) = my_key_generate K (keyring g) key_name [0x41, 0x45, 0x53] (KEY_LEN K);
             g = g\<lparr>keyring := kr\<rparr>;
             (ret, master_key) = my_key_fetch K (keyring g) key_name
         in if ret = 0 \<and> master_key \<noteq> None
            then (g\<lparr>s_master_key_id := s_master_key_id g + 1\<rparr>, s_master_key_id g + 1, master_key)
            else (g, master_key_id, if ret \<noteq> 0 then None else master_key))
      else
        (let master_key_id = s_master_key_id g;
             (ret, master_key) =
               my_key_fetch K (keyring g)
                 (master_key_name K (s_uuid g) (decimal (unat master_key_id)));
             (ret, master_key) =
               (if ret \<noteq> 0 \<or> master_key = None
                then my_key_fetch K (keyring g)
                       (master_key_name K (decimal (server_id K)) (decimal (unat master_key_id)))
                else (ret, master_key))
         in (g, master_key_id, if ret \<noteq> 0 then None else master_key)))"

text \<open>
  \<open>get_master_key_from_info\<close> reads the information at offset \<open>encrypt_info\<close> of the
  buffer \<open>info\<close> and gives the offset it returns, \<open>*m_key_id\<close>, \<open>srv_uuid\<close> and
  \<open>*master_key\<close>. For version 1 \<open>srv_uuid\<close> is not written.
\<close>

definition get_master_key_from_info ::
  "'k os0enc \<Rightarrow> 'k globals \<Rightarrow> byte list \<Rightarrow> nat \<Rightarrow> Version \<Rightarrow> cstring
     \<Rightarrow> (nat \<times> 32 word \<times> cstring \<times> byte list option) option" where
  "get_master_key_from_info K g info encrypt_info version srv_uuid = do {
     key_id \<leftarrow> mach_read_from_4 info encrypt_info;
     let ptr = encrypt_info + 4;
     case version of
       VERSION_1 \<Rightarrow> do {
         w \<leftarrow> mach_read_from_4 info ptr;
         let ptr = (if w = 0 then ptr + 4 else ptr);
         case get_master_key_by_id K g key_id None of
           None \<Rightarrow> Some (encrypt_info, 0, srv_uuid, None)
         | Some master_key \<Rightarrow> Some (ptr, key_id, srv_uuid, Some master_key)
       }
     | VERSION_2 \<Rightarrow> do {
         w \<leftarrow> mach_read_from_4 info ptr;
         let ptr = (if w = 0 then ptr + 4 else ptr);
         u \<leftarrow> bytes_at info ptr (SERVER_UUID_LEN K);
         let srv_uuid = c_str u;
         let ptr = ptr + SERVER_UUID_LEN K;
         case get_master_key_by_id K g key_id (Some srv_uuid) of
           None \<Rightarrow> Some (encrypt_info, 0, srv_uuid, None)
         | Some master_key \<Rightarrow> Some (ptr, key_id, srv_uuid, Some master_key)
       }
     | VERSION_3 \<Rightarrow> do {
         u \<leftarrow> bytes_at info ptr (SERVER_UUID_LEN K);
         let srv_uuid = c_str u;
         let ptr = ptr + SERVER_UUID_LEN K;
         if key_id = 0 then do {
           master_key \<leftarrow> memcpy (replicate (KEY_LEN K) 0) 0 (DEFAULT_MASTER_KEY K);
           Some (ptr, 0, srv_uuid, Some master_key)
         } else
           (case get_master_key_by_id K g key_id (Some srv_uuid) of
              None \<Rightarrow> Some (encrypt_info, 0, srv_uuid, None)
            | Some master_key \<Rightarrow> Some (ptr, key_id, srv_uuid, Some master_key))
       }
   }"

text \<open>
  \<open>decode_encryption_info\<close> on the buffers \<open>key\<close>, \<open>iv\<close> and \<open>encryption_info\<close>;
  \<open>srv_uuid\<close> is what the local array of that name holds on entry. The result is the
  return value, the new statics, and the buffers \<open>key\<close> and \<open>iv\<close>. The wrapped key is
  the \<open>2 * KEY_LEN\<close> bytes that \<open>key_info\<close> has room for; a cipher that writes another
  number of bytes is outside the model.
\<close>

definition info_version :: "'k os0enc \<Rightarrow> byte list \<Rightarrow> Version option" where
  "info_version K magic =
     (if magic = take (MAGIC_SIZE K) (KEY_MAGIC_V1 K) then Some VERSION_1
      else if magic = take (MAGIC_SIZE K) (KEY_MAGIC_V2 K) then Some VERSION_2
      else if magic = take (MAGIC_SIZE K) (KEY_MAGIC_V3 K) then Some VERSION_3
      else None)"

definition decode_key_info ::
  "'k os0enc \<Rightarrow> extern \<Rightarrow> 'k globals \<Rightarrow> byte list \<Rightarrow> Version \<Rightarrow> bool \<Rightarrow> cstring
     \<Rightarrow> (nat \<times> 32 word \<times> cstring \<times> byte list option) option" where
  "decode_key_info K X g encryption_info version decrypt_key srv_uuid =
     (let ptr = MAGIC_SIZE K in
      if decrypt_key then do {
        (ptr, master_key_id, srv_uuid, master_key) \<leftarrow>
          get_master_key_from_info K g encryption_info ptr version srv_uuid;
        case master_key of
          None \<Rightarrow> Some (ptr, master_key_id, srv_uuid, None)
        | Some mk \<Rightarrow> do {
            wrapped \<leftarrow> bytes_at encryption_info ptr (2 * KEY_LEN K);
            case my_aes_decrypt X wrapped mk (KEY_LEN K) my_aes_256_ecb None False of
              None \<Rightarrow> Some (ptr, master_key_id, srv_uuid, None)
            | Some key_info \<Rightarrow>
                if length key_info \<noteq> 2 * KEY_LEN K then None
                else Some (ptr, master_key_id, srv_uuid, Some key_info)
          }
      } else do {
        let ptr = ptr + 4 + SERVER_UUID_LEN K;
        key_info \<leftarrow> bytes_at encryption_info ptr (2 * KEY_LEN K);
        Some (ptr, DEFAULT_MASTER_KEY_ID K, srv_uuid, Some key_info)
      })"

definition decode_encryption_info ::
  "'k os0enc \<Rightarrow> extern \<Rightarrow> 'k globals \<Rightarrow> byte list \<Rightarrow> byte list \<Rightarrow> byte list \<Rightarrow> bool \<Rightarrow> cstring
     \<Rightarrow> (bool \<times> 'k globals \<times> byte list \<times> byte list) option" where
  "decode_encryption_info K X g key iv encryption_info decrypt_key srv_uuid = do {
     magic \<leftarrow> bytes_at encryption_info 0 (MAGIC_SIZE K);
     case info_version K magic of
       None \<Rightarrow> if recv_recovery_is_on K then Some (True, g, key, iv) else Some (False, g, key, iv)
     | Some version \<Rightarrow> do {
         (ptr, master_key_id, srv_uuid, key_info) \<leftarrow>
           decode_key_info K X g encryption_info version decrypt_key srv_uuid;
         case key_info of
           None \<Rightarrow> Some (False, g, key, iv)
         | Some key_info \<Rightarrow> do {
             let ptr = ptr + 2 * KEY_LEN K;
             crc1 \<leftarrow> mach_read_from_4 encryption_info ptr;
             let crc2 = ut_crc32 X key_info;
             if crc1 \<noteq> crc2 then Some (False, g, key, iv)
             else do {
               key \<leftarrow> memcpy key 0 (take (KEY_LEN K) key_info);
               iv \<leftarrow> memcpy iv 0 (take (KEY_LEN K) (drop (KEY_LEN K) key_info));
               let g = (if decrypt_key \<and> s_master_key_id g < master_key_id
                        then g\<lparr>s_master_key_id := master_key_id,
                               s_uuid := take (SERVER_UUID_LEN K) srv_uuid\<rparr>
                        else g);
               Some (True, g, key, iv)
             }
           }
       }
   }"

text \<open>
  An instance for the concrete runs: the magics \<open>lCA\<close>, \<open>lCB\<close> and \<open>lCC\<close>, keys of 32
  bytes, uuids of 36, the prefix \<open>INNODBKey\<close>, recovery in progress, and a keyring that
  is an association list, generates a key of bytes \<open>0x4B\<close> under a name that is free and
  fetches what is stored under a name.
\<close>

definition os0enc_std :: "(cstring \<times> byte list) list os0enc" where
  "os0enc_std = \<lparr>
     KEY_MAGIC_V1 = [0x6C, 0x43, 0x41], KEY_MAGIC_V2 = [0x6C, 0x43, 0x42],
     KEY_MAGIC_V3 = [0x6C, 0x43, 0x43], MAGIC_SIZE = 3, KEY_LEN = 32, SERVER_UUID_LEN = 36,
     MASTER_KEY_PREFIX = [0x49, 0x4E, 0x4E, 0x4F, 0x44, 0x42, 0x4B, 0x65, 0x79],
     MASTER_KEY_NAME_MAX_LEN = 100,
     DEFAULT_MASTER_KEY = [0x44, 0x65, 0x66, 0x61, 0x75, 0x6C, 0x74, 0x4D, 0x61, 0x73, 0x74,
                           0x65, 0x72, 0x4B, 0x65, 0x79],
     DEFAULT_MASTER_KEY_ID = 0, server_uuid = replicate 36 0x61, server_id = 1,
     recv_recovery_is_on = True,
     my_key_generate = (\<lambda>kr name type len.
        if map_of kr name = None then (0, (name, replicate len 0x4B) # kr) else (1, kr)),
     my_key_fetch = (\<lambda>kr name. (0, map_of kr name)) \<rparr>"

definition uuid_a :: cstring where
  "uuid_a = replicate 36 0x61"

definition name7 :: cstring where
  "name7 = [0x49, 0x4E, 0x4E, 0x4F, 0x44, 0x42, 0x4B, 0x65, 0x79, 0x2D] @ replicate 36 0x61 @ [0x2D, 0x37]"

definition name0 :: cstring where
  "name0 = [0x49, 0x4E, 0x4E, 0x4F, 0x44, 0x42, 0x4B, 0x65, 0x79, 0x2D] @ replicate 36 0x61 @ [0x2D, 0x30]"

text \<open>
  Statics at master key 2 with key 7 in the keyring, and statics at the last id; an
  information of version 3 that names key 7 and wraps a key of bytes \<open>0x11\<close> and an iv of
  bytes \<open>0x22\<close>, the same with a wrong checksum, and one with an unknown magic.
\<close>

definition globals2 :: "(cstring \<times> byte list) list globals" where
  "globals2 = \<lparr> s_master_key_id = 2, s_uuid = replicate 36 0x62,
                 keyring = [(name7, replicate 32 0x4B)] \<rparr>"

definition globals_last :: "(cstring \<times> byte list) list globals" where
  "globals_last = \<lparr> s_master_key_id = 0xFFFFFFFF, s_uuid = replicate 36 0x61, keyring = [] \<rparr>"

definition info7 :: "byte list" where
  "info7 = [0x6C, 0x43, 0x43, 0, 0, 0, 7] @ replicate 36 0x61 @ replicate 32 0x12
             @ replicate 32 0x23 @ [0, 0, 6, 0x60]"

definition info7_bad :: "byte list" where
  "info7_bad = [0x6C, 0x43, 0x43, 0, 0, 0, 7] @ replicate 36 0x61 @ replicate 32 0x12
             @ replicate 32 0x23 @ [0, 0, 6, 0x61]"

definition info_unknown :: "byte list" where
  "info_unknown = [0x6C, 0x43, 0x5A, 0, 0, 0, 7] @ replicate 104 0"

section \<open>Facts about buffers\<close>

lemma length_bytes_of_2 [simp]: "length (bytes_of_2 v) = 2"
  by (simp add: bytes_of_2_def)

lemma length_bytes_of_4 [simp]: "length (bytes_of_4 v) = 4"
  by (simp add: bytes_of_4_def)

lemma bytes_at_Some:
  "bytes_at buf off n = Some d \<longleftrightarrow> off + n \<le> length buf \<and> d = take n (drop off buf)"
  by (auto simp: bytes_at_def)

lemma bytes_at_length: "bytes_at buf off n = Some d \<Longrightarrow> length d = n"
  by (auto simp: bytes_at_def split: if_splits)

lemma memcpy_Some:
  "memcpy buf off data = Some b \<longleftrightarrow>
     off + length data \<le> length buf \<and> b = take off buf @ data @ drop (off + length data) buf"
  by (auto simp: memcpy_def)

lemma memcpy_length: "memcpy buf off data = Some b \<Longrightarrow> length b = length buf"
  by (auto simp: memcpy_def split: if_splits)

lemma memset_length: "memset buf off c n = Some b \<Longrightarrow> length b = length buf"
  by (simp add: memset_def memcpy_length)

lemma mach_write_to_2_length: "mach_write_to_2 buf off v = Some b \<Longrightarrow> length b = length buf"
  by (simp add: mach_write_to_2_def memcpy_length)

lemma mach_write_to_4_length: "mach_write_to_4 buf off v = Some b \<Longrightarrow> length b = length buf"
  by (simp add: mach_write_to_4_def memcpy_length)

lemma memcpy_nth:
  assumes "memcpy buf off data = Some b" and "i < length buf"
  shows "b ! i = (if off \<le> i \<and> i < off + length data then data ! (i - off) else buf ! i)"
proof -
  from assms(1) have le: "off + length data \<le> length buf"
    and b: "b = take off buf @ data @ drop (off + length data) buf"
    by (simp_all add: memcpy_Some)
  show ?thesis
  proof (cases "i < off")
    case True
    then show ?thesis using le b by (simp add: nth_append)
  next
    case False
    note nlt = this
    show ?thesis
    proof (cases "i < off + length data")
      case True
      then have "i - off < length data" using nlt by simp
      then show ?thesis using True nlt le b by (simp add: nth_append)
    next
      case False
      then have ge: "\<not> i - off < length data" and eq: "off + length data + (i - off - length data) = i"
        using nlt by simp_all
      have "b ! i = (data @ drop (off + length data) buf) ! (i - off)"
        using nlt le b by (simp add: nth_append)
      also have "\<dots> = drop (off + length data) buf ! (i - off - length data)"
        using ge by (simp add: nth_append)
      also have "\<dots> = buf ! i"
        using le eq by (simp add: nth_drop)
      finally show ?thesis using False by simp
    qed
  qed
qed

lemma memcpy_nth_outside:
  "memcpy buf off data = Some b \<Longrightarrow> i < length buf \<Longrightarrow> i < off \<or> off + length data \<le> i
     \<Longrightarrow> b ! i = buf ! i"
  by (auto simp: memcpy_nth)

lemma memcpy_nth_inside:
  "memcpy buf off data = Some b \<Longrightarrow> off \<le> i \<Longrightarrow> i < off + length data
     \<Longrightarrow> b ! i = data ! (i - off)"
  by (frule memcpy_nth [where i = i]) (auto simp: memcpy_Some)

lemma bytes_at_nth: "bytes_at buf off n = Some d \<Longrightarrow> i < n \<Longrightarrow> d ! i = buf ! (off + i)"
  by (auto simp: bytes_at_Some)

lemma bytes_at_cong:
  assumes "off + n \<le> length a" and "length b = length a"
    and "\<And>i. off \<le> i \<Longrightarrow> i < off + n \<Longrightarrow> a ! i = b ! i"
  shows "bytes_at a off n = bytes_at b off n"
proof -
  have "take n (drop off a) = take n (drop off b)"
    using assms by (intro nth_equalityI) auto
  then show ?thesis using assms by (simp add: bytes_at_def)
qed

lemma bytes_at_memcpy_same:
  "memcpy buf off data = Some b \<Longrightarrow> bytes_at b off (length data) = Some data"
  by (auto simp: memcpy_Some bytes_at_def)

lemma memcpy_in_bounds: "memcpy buf off data = Some b \<Longrightarrow> off + length data \<le> length buf"
  by (simp add: memcpy_Some)

lemma mach_read_from_2_cong:
  "off + 2 \<le> length a \<Longrightarrow> length b = length a \<Longrightarrow> a ! off = b ! off
     \<Longrightarrow> a ! (off + 1) = b ! (off + 1) \<Longrightarrow> mach_read_from_2 a off = mach_read_from_2 b off"
  by (simp add: mach_read_from_2_def)

lemma mach_read_from_4_cong:
  "off + 4 \<le> length a \<Longrightarrow> length b = length a \<Longrightarrow> a ! off = b ! off
     \<Longrightarrow> a ! (off + 1) = b ! (off + 1) \<Longrightarrow> a ! (off + 2) = b ! (off + 2)
     \<Longrightarrow> a ! (off + 3) = b ! (off + 3) \<Longrightarrow> mach_read_from_4 a off = mach_read_from_4 b off"
  by (simp add: mach_read_from_4_def)

lemma word16_of_bytes: "push_bit 8 (ucast (ucast (drop_bit 8 v) :: byte)) OR ucast (ucast v :: byte) = (v :: 16 word)"
  by (rule bit_word_eqI) (auto simp: bit_simps)

lemma word32_of_bytes:
  "push_bit 24 (ucast (ucast (drop_bit 24 v) :: byte)) OR push_bit 16 (ucast (ucast (drop_bit 16 v) :: byte))
     OR push_bit 8 (ucast (ucast (drop_bit 8 v) :: byte)) OR ucast (ucast v :: byte) = (v :: 32 word)"
proof (rule bit_word_eqI)
  fix n :: nat
  assume "n < LENGTH(32)"
  then have n: "n < 32" by simp
  consider "n < 8" | "8 \<le> n" "n < 16" | "16 \<le> n" "n < 24" | "24 \<le> n" "n < 32"
    using n by linarith
  then show "bit (push_bit 24 (ucast (ucast (drop_bit 24 v) :: byte)) OR push_bit 16 (ucast (ucast (drop_bit 16 v) :: byte))
     OR push_bit 8 (ucast (ucast (drop_bit 8 v) :: byte)) OR (ucast (ucast v :: byte) :: 32 word)) n = bit v n"
    by cases (auto simp: bit_simps)
qed

lemma mach_read_write_2:
  assumes "mach_write_to_2 buf off v = Some b"
  shows "mach_read_from_2 b off = Some v"
proof -
  from assms have le: "off + 2 \<le> length buf" and len: "length b = length buf"
    using memcpy_in_bounds [of buf off "bytes_of_2 v" b] memcpy_length [of buf off "bytes_of_2 v" b]
    by (simp_all add: mach_write_to_2_def)
  have "b ! off = ucast (drop_bit 8 v)"
    using memcpy_nth_inside [of buf off "bytes_of_2 v" b off] assms
    by (simp add: mach_write_to_2_def bytes_of_2_def)
  moreover have "b ! (off + 1) = ucast v"
    using memcpy_nth_inside [of buf off "bytes_of_2 v" b "off + 1"] assms
    by (simp add: mach_write_to_2_def bytes_of_2_def)
  ultimately show ?thesis
    using le len by (simp add: mach_read_from_2_def word16_of_bytes)
qed

lemma mach_read_write_4:
  assumes "mach_write_to_4 buf off v = Some b"
  shows "mach_read_from_4 b off = Some v"
proof -
  from assms have le: "off + 4 \<le> length buf" and len: "length b = length buf"
    using memcpy_in_bounds [of buf off "bytes_of_4 v" b] memcpy_length [of buf off "bytes_of_4 v" b]
    by (simp_all add: mach_write_to_4_def)
  have "b ! off = ucast (drop_bit 24 v)"
    using memcpy_nth_inside [of buf off "bytes_of_4 v" b off] assms
    by (simp add: mach_write_to_4_def bytes_of_4_def)
  moreover have "b ! (off + 1) = ucast (drop_bit 16 v)"
    using memcpy_nth_inside [of buf off "bytes_of_4 v" b "off + 1"] assms
    by (simp add: mach_write_to_4_def bytes_of_4_def)
  moreover have "b ! (off + 2) = ucast (drop_bit 8 v)"
    using memcpy_nth_inside [of buf off "bytes_of_4 v" b "off + 2"] assms
    by (simp add: mach_write_to_4_def bytes_of_4_def)
  moreover have "b ! (off + 3) = ucast v"
    using memcpy_nth_inside [of buf off "bytes_of_4 v" b "off + 3"] assms
    by (simp add: mach_write_to_4_def bytes_of_4_def)
  ultimately show ?thesis
    using le len by (simp add: mach_read_from_4_def word32_of_bytes)
qed


lemma mach_read_from_2_memcpy:
  assumes "memcpy buf o' data = Some b" and "off + 2 \<le> o' \<or> o' + length data \<le> off"
  shows "mach_read_from_2 b off = mach_read_from_2 buf off"
proof (cases "off + 2 \<le> length buf")
  case True
  have "b ! off = buf ! off" "b ! (off + 1) = buf ! (off + 1)"
    using assms True by (auto intro!: memcpy_nth_outside)
  then show ?thesis
    using True memcpy_length [OF assms(1)] by (simp add: mach_read_from_2_def)
next
  case False
  then show ?thesis
    using memcpy_length [OF assms(1)] by (simp add: mach_read_from_2_def)
qed

lemma mach_read_from_4_memcpy:
  assumes "memcpy buf o' data = Some b" and "off + 4 \<le> o' \<or> o' + length data \<le> off"
  shows "mach_read_from_4 b off = mach_read_from_4 buf off"
proof (cases "off + 4 \<le> length buf")
  case True
  have "b ! off = buf ! off" "b ! (off + 1) = buf ! (off + 1)"
    "b ! (off + 2) = buf ! (off + 2)" "b ! (off + 3) = buf ! (off + 3)"
    using assms True by (auto intro!: memcpy_nth_outside)
  then show ?thesis
    using True memcpy_length [OF assms(1)] by (simp add: mach_read_from_4_def)
next
  case False
  then show ?thesis
    using memcpy_length [OF assms(1)] by (simp add: mach_read_from_4_def)
qed

lemma mach_read_from_2_write_2:
  "mach_write_to_2 buf o' v = Some b \<Longrightarrow> off + 2 \<le> o' \<or> o' + 2 \<le> off
     \<Longrightarrow> mach_read_from_2 b off = mach_read_from_2 buf off"
  by (simp add: mach_write_to_2_def mach_read_from_2_memcpy)

lemma mach_read_from_2_write_4:
  "mach_write_to_4 buf o' v = Some b \<Longrightarrow> off + 2 \<le> o' \<or> o' + 4 \<le> off
     \<Longrightarrow> mach_read_from_2 b off = mach_read_from_2 buf off"
  by (simp add: mach_write_to_4_def mach_read_from_2_memcpy)

lemma mach_read_from_4_write_4:
  "mach_write_to_4 buf o' v = Some b \<Longrightarrow> off + 4 \<le> o' \<or> o' + 4 \<le> off
     \<Longrightarrow> mach_read_from_4 b off = mach_read_from_4 buf off"
  by (simp add: mach_write_to_4_def mach_read_from_4_memcpy)

lemma mach_read_from_2_memset:
  "memset buf o' c n = Some b \<Longrightarrow> off + 2 \<le> o' \<or> o' + n \<le> off
     \<Longrightarrow> mach_read_from_2 b off = mach_read_from_2 buf off"
  by (simp add: memset_def mach_read_from_2_memcpy)

lemma mach_read_from_4_memset:
  "memset buf o' c n = Some b \<Longrightarrow> off + 4 \<le> o' \<or> o' + n \<le> off
     \<Longrightarrow> mach_read_from_4 b off = mach_read_from_4 buf off"
  by (simp add: memset_def mach_read_from_4_memcpy)

lemma mach_write_to_2_nth_outside:
  "mach_write_to_2 buf off v = Some b \<Longrightarrow> i < length buf \<Longrightarrow> i < off \<or> off + 2 \<le> i
     \<Longrightarrow> b ! i = buf ! i"
  by (simp add: mach_write_to_2_def memcpy_nth_outside)

lemma mach_write_to_4_nth_outside:
  "mach_write_to_4 buf off v = Some b \<Longrightarrow> i < length buf \<Longrightarrow> i < off \<or> off + 4 \<le> i
     \<Longrightarrow> b ! i = buf ! i"
  by (simp add: mach_write_to_4_def memcpy_nth_outside)

lemma memset_nth_outside:
  "memset buf off c n = Some b \<Longrightarrow> i < length buf \<Longrightarrow> i < off \<or> off + n \<le> i
     \<Longrightarrow> b ! i = buf ! i"
  by (simp add: memset_def memcpy_nth_outside)

lemma mach_write_to_2_in_bounds: "mach_write_to_2 buf off v = Some b \<Longrightarrow> off + 2 \<le> length buf"
  using memcpy_in_bounds [of buf off "bytes_of_2 v" b] by (simp add: mach_write_to_2_def)

lemma mach_write_to_4_in_bounds: "mach_write_to_4 buf off v = Some b \<Longrightarrow> off + 4 \<le> length buf"
  using memcpy_in_bounds [of buf off "bytes_of_4 v" b] by (simp add: mach_write_to_4_def)

lemma mach_read_from_2_in_bounds: "mach_read_from_2 buf off = Some v \<Longrightarrow> off + 2 \<le> length buf"
  by (simp add: mach_read_from_2_def split: if_splits)

lemma usub_Some: "usub a b = Some n \<longleftrightarrow> b \<le> a \<and> n = a - b"
  by (auto simp: usub_def)

lemma mach_read_from_2_eqI:
  "length b = length a \<Longrightarrow> b ! off = a ! off \<Longrightarrow> b ! (off + 1) = a ! (off + 1)
     \<Longrightarrow> mach_read_from_2 b off = mach_read_from_2 a off"
  by (simp add: mach_read_from_2_def)

lemma mach_read_from_4_eqI:
  "length b = length a \<Longrightarrow> b ! off = a ! off \<Longrightarrow> b ! (off + 1) = a ! (off + 1)
     \<Longrightarrow> b ! (off + 2) = a ! (off + 2) \<Longrightarrow> b ! (off + 3) = a ! (off + 3)
     \<Longrightarrow> mach_read_from_4 b off = mach_read_from_4 a off"
  by (simp add: mach_read_from_4_def)

section \<open>Facts about words\<close>

lemma unat_up: "unat (ucast (a :: 32 word) :: 64 word) = unat a"
proof -
  have "unat a < 2 ^ 64"
    using unsigned_less [of a, where 'a = nat] by simp
  then show ?thesis
    by (simp add: unsigned_ucast_eq take_bit_nat_eq_self)
qed

lemma unat_down: "unat (ucast (x :: 64 word) :: 32 word) = unat x mod 2 ^ 32"
  by (simp add: unsigned_ucast_eq take_bit_eq_mod)

lemma ucast_up_down: "(ucast (ucast (a :: 32 word) :: 64 word) :: 32 word) = a"
proof -
  have "unat a < 2 ^ 32"
    using unsigned_less [of a, where 'a = nat] by simp
  then have "unat (ucast (ucast a :: 64 word) :: 32 word) = unat a"
    by (simp only: unat_down unat_up mod_less)
  then show ?thesis by (simp only: word_unat_eq_iff)
qed

lemma ucast_down_add: "(ucast ((x :: 64 word) + y) :: 32 word) = ucast x + ucast y"
proof -
  have d: "(2::nat) ^ 32 dvd 2 ^ 64"
    by (rule le_imp_power_dvd) simp
  have "unat (ucast (x + y) :: 32 word) = ((unat x + unat y) mod 2 ^ 64) mod 2 ^ 32"
    by (simp only: unat_down unat_word_ariths) simp
  also have "\<dots> = (unat x + unat y) mod 2 ^ 32"
    by (rule mod_mod_cancel [OF d])
  also have "\<dots> = (unat x mod 2 ^ 32 + unat y mod 2 ^ 32) mod 2 ^ 32"
    by (rule mod_add_eq [symmetric])
  also have "\<dots> = unat ((ucast x :: 32 word) + ucast y)"
    by (simp only: unat_down unat_word_ariths) simp
  finally show ?thesis by (simp only: word_unat_eq_iff)
qed

lemma ucast_sum_64_32:
  "(ucast ((ucast (a :: 32 word) :: 64 word) + ucast (b :: 32 word)) :: 32 word) = a + b"
  by (simp only: ucast_down_add ucast_up_down)

lemma ucast_diff_64_32:
  "(ucast ((ucast (a :: 32 word) :: 64 word) - ucast (b :: 32 word)) :: 32 word) = a - b"
proof -
  have "(ucast ((ucast a :: 64 word) - ucast b) :: 32 word) + b
          = ucast ((ucast a :: 64 word) - ucast b) + ucast (ucast b :: 64 word)"
    by (simp only: ucast_up_down)
  also have "\<dots> = ucast (((ucast a :: 64 word) - ucast b) + ucast b)"
    by (rule ucast_down_add [symmetric])
  also have "\<dots> = a"
    by (simp add: ucast_up_down)
  finally show ?thesis by (simp add: algebra_simps)
qed

lemma ucast_diff_no_wrap:
  assumes "unat a + unat b < 2 ^ 32"
  shows "(ucast (a + b :: 32 word) :: 64 word) - ucast a = ucast b"
proof -
  from assms have s: "unat (a + b) = unat a + unat b"
    using unat_add_lem [of a b] by simp
  then have le: "(ucast a :: 64 word) \<le> ucast (a + b)"
    by (simp add: word_le_nat_alt unat_up)
  have "unat ((ucast (a + b) :: 64 word) - ucast a) = unat (ucast b :: 64 word)"
    using unat_sub [OF le] s by (simp add: unat_up)
  then show ?thesis by (simp add: word_unat_eq_iff)
qed






section \<open>Concrete runs\<close>

lemmas page_defs = encrypt_low_def encrypt_low_src_enc_len_def encrypt_low_data_len_def
  encrypt_low_data_def encrypt_low_header_def encrypt_low_padding_def encrypt_low_keyring_def
  encrypt_low_keyring_reserve_def encrypt_low_keyring_checksum_def encrypt_low_keyring_stamp_def
  decrypt_def decrypt_src_len_def decrypt_data_len_def decrypt_data_def decrypt_header_def
  is_encrypted_page_def encrypt_low_ut_ad_def
  bytes_at_def memcpy_def memset_def usub_def mach_read_from_2_def mach_read_from_4_def
  mach_write_to_2_def mach_write_to_4_def bytes_of_2_def bytes_of_4_def
  FIL_PAGE_DATA_def MY_AES_BLOCK_SIZE_def MIN_ENCRYPTION_LEN_def
  fil0types_def stand_in_def shift_encrypt_def shift_decrypt_def byte_sum_def
  page80_def ctx_aes_def ctx_keyring_def plain_io_def

lemma replicate_numeral: "replicate (numeral k) x = x # replicate (pred_numeral k) x"
  by (simp add: numeral_eq_Suc)

lemma layout_ok_fil0types: "layout_ok fil0types"
  by (simp add: layout_ok_def disjoint_fields_def fil0types_def FIL_PAGE_DATA_def)

lemma encrypt_low_keyring80:
  "encrypt_low fil0types stand_in ctx_keyring plain_io page80 80 (replicate 80 0) 80
     = Some run_keyring80"
  by (simp add: page_defs run_keyring80_def Let_def replicate_numeral)

lemma encrypt_low_aes80:
  "encrypt_low fil0types stand_in ctx_aes plain_io page80 80 (replicate 80 0) 80
     = Some run_aes80"
  by (simp add: page_defs run_aes80_def Let_def replicate_numeral)

lemma encrypt_low_zfull80:
  "encrypt_low fil0types stand_in ctx_keyring plain_io zfull80 80 (replicate 96 0) 80
     = Some run_zfull80"
  by (simp add: page_defs zfull80_def run_zfull80_def Let_def replicate_numeral)

lemma encrypt_low_zfull80_short:
  "encrypt_low fil0types stand_in ctx_keyring plain_io zfull80 80 (replicate 80 0) 80 = None"
  by (simp add: page_defs zfull80_def Let_def replicate_numeral)

lemma encrypt_low_ut_ad_zfull80:
  "encrypt_low_ut_ad fil0types ctx_keyring plain_io zfull80 80 80"
  by (simp add: page_defs zfull80_def Let_def)


lemma encrypt_low_rot80:
  "encrypt_low fil0types stand_in ctx_rot zip_io page80 80 (replicate 80 0) 80
     = Some run_rot80"
  by (simp add: page_defs ctx_rot_def zip_io_def run_rot80_def Let_def replicate_numeral)

lemma decrypt_aes80:
  "decrypt fil0types stand_in ctx_aes plain_io (dst_out run_aes80) 80 None 80
     = Some (DB_SUCCESS, back_aes80, None)"
  by (simp add: page_defs run_aes80_def back_aes80_def Let_def replicate_numeral)

section \<open>The stages of \<open>encrypt_low\<close>\<close>

lemma encrypt_low_keyring_SomeE:
  assumes "encrypt_low_keyring L X this type src dst dst_len page_type = Some (t, s, d)"
  obtains da db where
    "encrypt_low_keyring_reserve L (this\<lparr>m_checksum := 0\<rparr>) dst page_type = Some da"
    "encrypt_low_keyring_checksum L X (this\<lparr>m_checksum := 0\<rparr>) type da dst_len page_type
       = Some (m_checksum t, db)"
    "t = this\<lparr>m_checksum := m_checksum t\<rparr>"
    "mach_write_to_4 src (FIL_PAGE_ENCRYPTION_KEY_VERSION L) (m_key_version this) = Some s"
    "encrypt_low_keyring_stamp L t type db dst_len page_type = Some d"
  using assms
  by (auto simp: encrypt_low_keyring_def Let_def split: bind_splits prod.splits)

lemma encrypt_low_keyring_src:
  assumes "encrypt_low_keyring L X this type src dst dst_len page_type = Some (t, s, d)"
  shows "mach_write_to_4 src (FIL_PAGE_ENCRYPTION_KEY_VERSION L) (m_key_version this) = Some s"
  using assms by (rule encrypt_low_keyring_SomeE)

lemma encrypt_low_keyring_reserve_length:
  "encrypt_low_keyring_reserve L this dst page_type = Some d \<Longrightarrow> length d = length dst"
  by (auto simp: encrypt_low_keyring_reserve_def split: bind_splits if_splits
        dest!: memset_length mach_write_to_4_length)

lemma encrypt_low_keyring_checksum_length:
  "encrypt_low_keyring_checksum L X this type dst dst_len page_type = Some (c, d)
     \<Longrightarrow> length d = length dst"
  by (auto simp: encrypt_low_keyring_checksum_def split: bind_splits if_splits
        dest!: memcpy_length)

lemma encrypt_low_keyring_stamp_length:
  "encrypt_low_keyring_stamp L this type dst dst_len page_type = Some d \<Longrightarrow> length d = length dst"
  by (auto simp: encrypt_low_keyring_stamp_def split: bind_splits if_splits
        dest!: mach_write_to_4_length)

lemma encrypt_low_keyring_length:
  assumes "encrypt_low_keyring L X this type src dst dst_len page_type = Some (t, s, d)"
  shows "length d = length dst \<and> length s = length src"
  using assms
  by (elim encrypt_low_keyring_SomeE)
     (simp add: encrypt_low_keyring_reserve_length encrypt_low_keyring_checksum_length
        encrypt_low_keyring_stamp_length mach_write_to_4_length)

lemma encrypt_low_keyring_stamp_version:
  assumes "encrypt_low_keyring_stamp L this type dst dst_len page_type = Some d"
    and "page_type \<noteq> FIL_PAGE_COMPRESSED L"
    and "is_page_zip_compressed type \<or> FIL_PAGE_ENCRYPTION_KEY_VERSION L + 8 \<le> dst_len"
  shows "mach_read_from_4 d (FIL_PAGE_ENCRYPTION_KEY_VERSION L) = Some (m_key_version this)"
  using assms
  by (auto simp: encrypt_low_keyring_stamp_def usub_Some mach_read_write_4 mach_read_from_4_write_4
      split: bind_splits if_splits)

lemma encrypt_low_keyring_dst_version:
  assumes "encrypt_low_keyring L X this type src dst dst_len page_type = Some (t, s, d)"
    and "page_type \<noteq> FIL_PAGE_COMPRESSED L"
    and "is_page_zip_compressed type \<or> FIL_PAGE_ENCRYPTION_KEY_VERSION L + 8 \<le> dst_len"
  shows "mach_read_from_4 d (FIL_PAGE_ENCRYPTION_KEY_VERSION L) = Some (m_key_version this)"
proof -
  from assms(1) obtain db where
    t: "t = this\<lparr>m_checksum := m_checksum t\<rparr>"
    and st: "encrypt_low_keyring_stamp L t type db dst_len page_type = Some d"
    by (rule encrypt_low_keyring_SomeE)
  have "m_key_version t = m_key_version this"
    by (subst t) simp
  then show ?thesis
    using encrypt_low_keyring_stamp_version [OF st assms(2,3)] by simp
qed

lemma encrypt_low_keyring_dst_version_compressed:
  assumes "encrypt_low_keyring L X this type src dst dst_len page_type = Some (t, s, d)"
    and "page_type = FIL_PAGE_COMPRESSED L"
    and "FIL_PAGE_ZIP_KEYRING_ENCRYPTION_MAGIC L + length (ZIP_PAGE_KEYRING_ENCRYPTION_MAGIC L)
       \<le> FIL_PAGE_DATA"
  shows "mach_read_from_4 d (FIL_PAGE_DATA + 4) = Some (m_key_version this)"
proof -
  from assms(1) obtain da db where
    a: "encrypt_low_keyring_reserve L (this\<lparr>m_checksum := 0\<rparr>) dst page_type = Some da"
    and b: "encrypt_low_keyring_checksum L X (this\<lparr>m_checksum := 0\<rparr>) type da dst_len page_type
       = Some (m_checksum t, db)"
    and st: "encrypt_low_keyring_stamp L t type db dst_len page_type = Some d"
    by (rule encrypt_low_keyring_SomeE)
  have "mach_read_from_4 da (FIL_PAGE_DATA + 4) = Some (m_key_version this)"
    using a assms(2)
    by (auto simp: encrypt_low_keyring_reserve_def mach_read_write_4 split: bind_splits)
  moreover have "mach_read_from_4 db (FIL_PAGE_DATA + 4) = mach_read_from_4 da (FIL_PAGE_DATA + 4)"
    using b assms(3)
    by (auto simp: encrypt_low_keyring_checksum_def mach_read_from_4_memcpy
          split: bind_splits if_splits)
  moreover have "mach_read_from_4 d (FIL_PAGE_DATA + 4) = mach_read_from_4 db (FIL_PAGE_DATA + 4)"
    using st assms(2)
    by (auto simp: encrypt_low_keyring_stamp_def mach_read_from_4_write_4 split: if_splits)
  ultimately show ?thesis by simp
qed

lemma encrypt_low_data_length:
  "encrypt_low_data X this src dst H data_len = Some (ok, d) \<Longrightarrow> length d = length dst"
  by (auto simp: encrypt_low_data_def Let_def split: bind_splits if_splits option.splits
        dest!: memcpy_length)

lemma encrypt_low_header_SomeE:
  assumes "encrypt_low_header L src d1 page_type = Some d2"
  obtains d where "FIL_PAGE_DATA \<le> length src"
    "memcpy d1 0 (take FIL_PAGE_DATA src) = Some d"
    "(if page_type = FIL_PAGE_COMPRESSED L
     then mach_write_to_2 d (FIL_PAGE_TYPE L) (FIL_PAGE_COMPRESSED_AND_ENCRYPTED L)
     else if page_type = FIL_PAGE_RTREE L
     then mach_write_to_2 d (FIL_PAGE_TYPE L) (FIL_PAGE_ENCRYPTED_RTREE L)
     else do {
       dst \<leftarrow> mach_write_to_2 d (FIL_PAGE_TYPE L) (FIL_PAGE_ENCRYPTED L);
       mach_write_to_2 dst (FIL_PAGE_ORIGINAL_TYPE_V1 L) page_type
     }) = Some d2"
  using assms
  by (auto simp: encrypt_low_header_def bytes_at_Some split: bind_splits)

lemma encrypt_low_header_length:
  "encrypt_low_header L src d1 page_type = Some d2 \<Longrightarrow> length d2 = length d1"
  by (erule encrypt_low_header_SomeE)
     (auto split: bind_splits if_splits dest!: memcpy_length mach_write_to_2_length)

lemma encrypt_low_header_bounds:
  "encrypt_low_header L src d1 page_type = Some d2 \<Longrightarrow>
     FIL_PAGE_DATA \<le> length src \<and> FIL_PAGE_DATA \<le> length d1"
  by (erule encrypt_low_header_SomeE) (auto dest!: memcpy_in_bounds)

lemma encrypt_low_header_type:
  assumes "encrypt_low_header L src d1 page_type = Some d2"
    and "disjoint_fields (FIL_PAGE_TYPE L) 2 (FIL_PAGE_ORIGINAL_TYPE_V1 L) 2"
  shows "mach_read_from_2 d2 (FIL_PAGE_TYPE L) =
           Some (if page_type = FIL_PAGE_COMPRESSED L then FIL_PAGE_COMPRESSED_AND_ENCRYPTED L
                 else if page_type = FIL_PAGE_RTREE L then FIL_PAGE_ENCRYPTED_RTREE L
                 else FIL_PAGE_ENCRYPTED L)"
  using assms
  by (elim encrypt_low_header_SomeE)
     (auto simp: disjoint_fields_def mach_read_write_2 mach_read_from_2_write_2
        split: bind_splits if_splits)

lemma encrypt_low_header_original_type:
  assumes "encrypt_low_header L src d1 page_type = Some d2"
    and "page_type \<noteq> FIL_PAGE_COMPRESSED L" and "page_type \<noteq> FIL_PAGE_RTREE L"
  shows "mach_read_from_2 d2 (FIL_PAGE_ORIGINAL_TYPE_V1 L) = Some page_type"
  using assms
  by (elim encrypt_low_header_SomeE)
     (auto simp: mach_read_write_2 split: bind_splits if_splits)

lemma encrypt_low_header_copy:
  assumes "encrypt_low_header L src d1 page_type = Some d2" and "i < FIL_PAGE_DATA"
    and "i < FIL_PAGE_TYPE L \<or> FIL_PAGE_TYPE L + 2 \<le> i"
    and "page_type = FIL_PAGE_COMPRESSED L \<or> page_type = FIL_PAGE_RTREE L \<or>
         i < FIL_PAGE_ORIGINAL_TYPE_V1 L \<or> FIL_PAGE_ORIGINAL_TYPE_V1 L + 2 \<le> i"
  shows "d2 ! i = src ! i"
proof -
  from assms(1) obtain d where le: "FIL_PAGE_DATA \<le> length src"
    and d: "memcpy d1 0 (take FIL_PAGE_DATA src) = Some d"
    and w: "(if page_type = FIL_PAGE_COMPRESSED L
     then mach_write_to_2 d (FIL_PAGE_TYPE L) (FIL_PAGE_COMPRESSED_AND_ENCRYPTED L)
     else if page_type = FIL_PAGE_RTREE L
     then mach_write_to_2 d (FIL_PAGE_TYPE L) (FIL_PAGE_ENCRYPTED_RTREE L)
     else do {
       dst \<leftarrow> mach_write_to_2 d (FIL_PAGE_TYPE L) (FIL_PAGE_ENCRYPTED L);
       mach_write_to_2 dst (FIL_PAGE_ORIGINAL_TYPE_V1 L) page_type
     }) = Some d2"
    by (rule encrypt_low_header_SomeE)
  have ld: "length d = length d1" and ld1: "FIL_PAGE_DATA \<le> length d1"
    using memcpy_length [OF d] memcpy_in_bounds [OF d] le by simp_all
  then have i: "i < length d" using assms(2) by simp
  have "d ! i = src ! i"
    using memcpy_nth_inside [OF d, of i] assms(2) le by simp
  moreover have "d2 ! i = d ! i"
  proof (cases "page_type = FIL_PAGE_COMPRESSED L \<or> page_type = FIL_PAGE_RTREE L")
    case True
    then show ?thesis
      using w assms(3) i by (auto simp: mach_write_to_2_nth_outside split: if_splits)
  next
    case False
    then obtain e where e: "mach_write_to_2 d (FIL_PAGE_TYPE L) (FIL_PAGE_ENCRYPTED L) = Some e"
      and e2: "mach_write_to_2 e (FIL_PAGE_ORIGINAL_TYPE_V1 L) page_type = Some d2"
      using w by (auto split: bind_splits)
    have "e ! i = d ! i"
      using mach_write_to_2_nth_outside [OF e i] assms(3) by simp
    moreover have "d2 ! i = e ! i"
      using mach_write_to_2_nth_outside [OF e2, of i] i mach_write_to_2_length [OF e]
        assms(4) False by simp
    ultimately show ?thesis by simp
  qed
  ultimately show ?thesis by simp
qed


lemma encrypt_low_header_rest:
  assumes "encrypt_low_header L src d1 page_type = Some d2" and "FIL_PAGE_DATA \<le> i"
    and "i < length d1"
    and "FIL_PAGE_TYPE L + 2 \<le> FIL_PAGE_DATA" and "FIL_PAGE_ORIGINAL_TYPE_V1 L + 2 \<le> FIL_PAGE_DATA"
  shows "d2 ! i = d1 ! i"
proof -
  from assms(1) obtain d where le: "FIL_PAGE_DATA \<le> length src"
    and d: "memcpy d1 0 (take FIL_PAGE_DATA src) = Some d"
    and w: "(if page_type = FIL_PAGE_COMPRESSED L
     then mach_write_to_2 d (FIL_PAGE_TYPE L) (FIL_PAGE_COMPRESSED_AND_ENCRYPTED L)
     else if page_type = FIL_PAGE_RTREE L
     then mach_write_to_2 d (FIL_PAGE_TYPE L) (FIL_PAGE_ENCRYPTED_RTREE L)
     else do {
       dst \<leftarrow> mach_write_to_2 d (FIL_PAGE_TYPE L) (FIL_PAGE_ENCRYPTED L);
       mach_write_to_2 dst (FIL_PAGE_ORIGINAL_TYPE_V1 L) page_type
     }) = Some d2"
    by (rule encrypt_low_header_SomeE)
  have ld: "length d = length d1"
    using memcpy_length [OF d] by simp
  then have i: "i < length d" using assms(3) by simp
  have "d ! i = d1 ! i"
    using memcpy_nth_outside [OF d, of i] assms(2,3) le by simp
  moreover have "d2 ! i = d ! i"
  proof (cases "page_type = FIL_PAGE_COMPRESSED L \<or> page_type = FIL_PAGE_RTREE L")
    case True
    then show ?thesis
      using w assms(2,4) i by (auto simp: mach_write_to_2_nth_outside split: if_splits)
  next
    case False
    then obtain e where e: "mach_write_to_2 d (FIL_PAGE_TYPE L) (FIL_PAGE_ENCRYPTED L) = Some e"
      and e2: "mach_write_to_2 e (FIL_PAGE_ORIGINAL_TYPE_V1 L) page_type = Some d2"
      using w by (auto split: bind_splits)
    have "e ! i = d ! i"
      using mach_write_to_2_nth_outside [OF e i] assms(2,4) by simp
    moreover have "d2 ! i = e ! i"
      using mach_write_to_2_nth_outside [OF e2, of i] i mach_write_to_2_length [OF e]
        assms(2,5) by simp
    ultimately show ?thesis by simp
  qed
  ultimately show ?thesis by simp
qed

lemma encrypt_low_padding_length:
  "encrypt_low_padding d2 src_len src_enc_len H data_len = Some d3 \<Longrightarrow> length d3 = length d2"
  by (auto simp: encrypt_low_padding_def split: bind_splits if_splits dest!: memset_length)

lemma encrypt_low_padding_nth:
  "encrypt_low_padding d2 src_len src_enc_len H data_len = Some d3 \<Longrightarrow> i < H + data_len
     \<Longrightarrow> i < length d2 \<Longrightarrow> d3 ! i = d2 ! i"
  by (auto simp: encrypt_low_padding_def memset_nth_outside split: bind_splits if_splits)

lemma encrypt_low_keyring_reserve_nth:
  "encrypt_low_keyring_reserve L this dst page_type = Some d \<Longrightarrow> i < length dst
     \<Longrightarrow> page_type \<noteq> FIL_PAGE_COMPRESSED L \<or> i < FIL_PAGE_DATA \<or> FIL_PAGE_DATA + 8 \<le> i
     \<Longrightarrow> d ! i = dst ! i"
  by (auto simp: encrypt_low_keyring_reserve_def memset_nth_outside mach_write_to_4_nth_outside
        memset_length split: bind_splits if_splits)

lemma encrypt_low_keyring_checksum_nth:
  "encrypt_low_keyring_checksum L X this type dst dst_len page_type = Some (c, d) \<Longrightarrow> i < length dst
     \<Longrightarrow> \<not> (is_page_zip_compressed type \<and> m_encryption_rotation this = MASTER_KEY_TO_KEYRING) \<or>
         i < FIL_PAGE_ZIP_KEYRING_ENCRYPTION_MAGIC L \<or>
         FIL_PAGE_ZIP_KEYRING_ENCRYPTION_MAGIC L + length (ZIP_PAGE_KEYRING_ENCRYPTION_MAGIC L) \<le> i
     \<Longrightarrow> d ! i = dst ! i"
  by (auto simp: encrypt_low_keyring_checksum_def memcpy_nth_outside
        split: bind_splits if_splits)

lemma encrypt_low_keyring_stamp_nth:
  "encrypt_low_keyring_stamp L this type dst dst_len page_type = Some d \<Longrightarrow> i < length dst
     \<Longrightarrow> (if page_type = FIL_PAGE_COMPRESSED L then i < FIL_PAGE_DATA \<or> FIL_PAGE_DATA + 4 \<le> i
          else (i < FIL_PAGE_ENCRYPTION_KEY_VERSION L \<or> FIL_PAGE_ENCRYPTION_KEY_VERSION L + 4 \<le> i)
               \<and> (is_page_zip_compressed type \<or> i + 4 < dst_len \<or> dst_len \<le> i))
     \<Longrightarrow> d ! i = dst ! i"
  by (auto simp: encrypt_low_keyring_stamp_def usub_Some mach_write_to_4_nth_outside
        mach_write_to_4_length split: bind_splits if_splits)


text \<open>What a successful call of \<open>encrypt_low\<close> went through.\<close>

lemma encrypt_low_SomeE:
  assumes "encrypt_low L X this type src src_len dst dst_len = Some r" and "ret r"
  obtains page_type src_enc_len data_len d1 d2 d3 where
    "mach_read_from_2 src (FIL_PAGE_TYPE L) = Some page_type"
    "encrypt_low_src_enc_len L src src_len page_type = Some src_enc_len"
    "m_type this \<noteq> NONE"
    "encrypt_low_data_len L this type page_type src_enc_len = Some data_len"
    "encrypt_low_data X this src dst
       (if m_type this = KEYRING \<and> page_type = FIL_PAGE_COMPRESSED L
        then FIL_PAGE_DATA + 8 else FIL_PAGE_DATA) data_len = Some (True, d1)"
    "encrypt_low_header L src d1 page_type = Some d2"
    "encrypt_low_padding d2 src_len src_enc_len
       (if m_type this = KEYRING \<and> page_type = FIL_PAGE_COMPRESSED L
        then FIL_PAGE_DATA + 8 else FIL_PAGE_DATA) data_len = Some d3"
    "(if m_type this = KEYRING
      then encrypt_low_keyring L X this type src d3 dst_len page_type
      else Some (this, src, d3)) = Some (this_out r, src_out r, dst_out r)"
    "dst_len_out r = src_len"
  using assms
  by (cases "m_type this")
     (auto simp: encrypt_low_def Let_def split: bind_splits if_splits prod.splits)


lemma encrypt_low_keyring_nth:
  assumes kr: "encrypt_low_keyring L X this type src dst dst_len page_type = Some (t, s, d)"
    and i: "i < length dst"
    and A: "page_type \<noteq> FIL_PAGE_COMPRESSED L \<or> i < FIL_PAGE_DATA \<or> FIL_PAGE_DATA + 8 \<le> i"
    and B: "\<not> (is_page_zip_compressed type \<and> m_encryption_rotation this = MASTER_KEY_TO_KEYRING) \<or>
         i < FIL_PAGE_ZIP_KEYRING_ENCRYPTION_MAGIC L \<or>
         FIL_PAGE_ZIP_KEYRING_ENCRYPTION_MAGIC L + length (ZIP_PAGE_KEYRING_ENCRYPTION_MAGIC L) \<le> i"
    and C: "page_type = FIL_PAGE_COMPRESSED L \<or>
         (i < FIL_PAGE_ENCRYPTION_KEY_VERSION L \<or> FIL_PAGE_ENCRYPTION_KEY_VERSION L + 4 \<le> i)
          \<and> (is_page_zip_compressed type \<or> i + 4 < dst_len \<or> dst_len \<le> i)"
  shows "d ! i = dst ! i"
proof -
  from kr obtain da db where
    a: "encrypt_low_keyring_reserve L (this\<lparr>m_checksum := 0\<rparr>) dst page_type = Some da"
    and b: "encrypt_low_keyring_checksum L X (this\<lparr>m_checksum := 0\<rparr>) type da dst_len page_type
       = Some (m_checksum t, db)"
    and st: "encrypt_low_keyring_stamp L t type db dst_len page_type = Some d"
    by (rule encrypt_low_keyring_SomeE)
  have la: "length da = length dst" and lb: "length db = length da"
    using encrypt_low_keyring_reserve_length [OF a] encrypt_low_keyring_checksum_length [OF b]
    by simp_all
  have "da ! i = dst ! i"
    using encrypt_low_keyring_reserve_nth [OF a i] A by simp
  moreover have "db ! i = da ! i"
    using encrypt_low_keyring_checksum_nth [OF b, of i] i la B by simp
  moreover have "d ! i = db ! i"
    using encrypt_low_keyring_stamp_nth [OF st, of i] i la lb A C by auto
  ultimately show ?thesis by simp
qed

text \<open>The lengths that a successful run fixes.\<close>

lemma encrypt_low_lengths:
  assumes run: "encrypt_low L X this type src src_len dst dst_len = Some r"
  shows "length (dst_out r) = length dst \<and> length (src_out r) = length src \<and> dst_len_out r = src_len"
proof (cases "ret r")
  case True
  from run True show ?thesis
    by (elim encrypt_low_SomeE)
       (auto simp: encrypt_low_data_length encrypt_low_header_length encrypt_low_padding_length
          split: if_splits dest!: encrypt_low_keyring_length)
next
  case False
  with run show ?thesis
    by (cases "m_type this")
       (auto simp: encrypt_low_def Let_def encrypt_low_data_length
          split: bind_splits if_splits prod.splits)
qed

lemma encrypt_low_size:
  assumes run: "encrypt_low L X this type src src_len dst dst_len = Some r" and ok: "ret r"
    and k: "m_type this = KEYRING"
    and pt: "mach_read_from_2 src (FIL_PAGE_TYPE L) = Some page_type"
  shows "page_type = FIL_PAGE_COMPRESSED L \<or> is_page_zip_compressed type \<or> FIL_PAGE_DATA + 4 \<le> src_len"
  using run ok
  by (elim encrypt_low_SomeE)
     (use k pt in \<open>auto simp: encrypt_low_data_len_def encrypt_low_src_enc_len_def usub_Some
       split: bind_splits if_splits\<close>)

lemma encrypt_low_header_byte:
  assumes run: "encrypt_low L X this type src src_len dst dst_len = Some r" and ok: "ret r"
    and len: "m_type this = KEYRING \<longrightarrow> dst_len = src_len"
    and pt: "mach_read_from_2 src (FIL_PAGE_TYPE L) = Some page_type"
    and i: "i < FIL_PAGE_DATA"
    and T: "i < FIL_PAGE_TYPE L \<or> FIL_PAGE_TYPE L + 2 \<le> i"
    and O: "page_type = FIL_PAGE_COMPRESSED L \<or> page_type = FIL_PAGE_RTREE L \<or>
         i < FIL_PAGE_ORIGINAL_TYPE_V1 L \<or> FIL_PAGE_ORIGINAL_TYPE_V1 L + 2 \<le> i"
    and K: "m_type this \<noteq> KEYRING \<or> page_type = FIL_PAGE_COMPRESSED L \<or>
         i < FIL_PAGE_ENCRYPTION_KEY_VERSION L \<or> FIL_PAGE_ENCRYPTION_KEY_VERSION L + 4 \<le> i"
    and M: "\<not> (m_type this = KEYRING \<and> is_page_zip_compressed type
              \<and> m_encryption_rotation this = MASTER_KEY_TO_KEYRING) \<or>
         i < FIL_PAGE_ZIP_KEYRING_ENCRYPTION_MAGIC L \<or>
         FIL_PAGE_ZIP_KEYRING_ENCRYPTION_MAGIC L + length (ZIP_PAGE_KEYRING_ENCRYPTION_MAGIC L) \<le> i"
  shows "dst_out r ! i = src ! i"
proof -
  define H where "H = (if m_type this = KEYRING \<and> page_type = FIL_PAGE_COMPRESSED L
        then FIL_PAGE_DATA + 8 else FIL_PAGE_DATA)"
  from run ok pt obtain src_enc_len data_len d1 d2 d3 where
    hd: "encrypt_low_header L src d1 page_type = Some d2"
    and pad: "encrypt_low_padding d2 src_len src_enc_len H data_len = Some d3"
    and kr: "(if m_type this = KEYRING
      then encrypt_low_keyring L X this type src d3 dst_len page_type
      else Some (this, src, d3)) = Some (this_out r, src_out r, dst_out r)"
    unfolding H_def by (elim encrypt_low_SomeE) auto
  have l2: "FIL_PAGE_DATA \<le> length d1" "length d2 = length d1"
    using encrypt_low_header_bounds [OF hd] encrypt_low_header_length [OF hd] by simp_all
  have l3: "length d3 = length d2"
    using encrypt_low_padding_length [OF pad] .
  have "d2 ! i = src ! i"
    using encrypt_low_header_copy [OF hd i T O] .
  moreover have "d3 ! i = d2 ! i"
    using encrypt_low_padding_nth [OF pad, of i] i l2 by (simp add: H_def)
  moreover have "dst_out r ! i = d3 ! i"
  proof (cases "m_type this = KEYRING")
    case False
    then show ?thesis using kr by simp
  next
    case True
    then have k: "encrypt_low_keyring L X this type src d3 dst_len page_type
                    = Some (this_out r, src_out r, dst_out r)"
      using kr by simp
    have "page_type = FIL_PAGE_COMPRESSED L \<or> is_page_zip_compressed type \<or> i + 4 < dst_len"
      using encrypt_low_size [OF run ok True pt] len True i by auto
    then show ?thesis
      using encrypt_low_keyring_nth [OF k, of i] i l2 l3 K M True by auto
  qed
  ultimately show ?thesis by simp
qed


lemma encrypt_low_after_header:
  assumes run: "encrypt_low L X this type src src_len dst dst_len = Some r" and ok: "ret r"
    and len: "m_type this = KEYRING \<longrightarrow> dst_len = src_len"
    and pt: "mach_read_from_2 src (FIL_PAGE_TYPE L) = Some page_type"
  shows "\<exists>d1 d2. encrypt_low_header L src d1 page_type = Some d2 \<and>
    length (dst_out r) = length d2 \<and>
    (\<forall>i. i < FIL_PAGE_DATA \<longrightarrow>
       (m_type this \<noteq> KEYRING \<or> page_type = FIL_PAGE_COMPRESSED L \<or>
         i < FIL_PAGE_ENCRYPTION_KEY_VERSION L \<or> FIL_PAGE_ENCRYPTION_KEY_VERSION L + 4 \<le> i) \<longrightarrow>
       (\<not> (m_type this = KEYRING \<and> is_page_zip_compressed type
              \<and> m_encryption_rotation this = MASTER_KEY_TO_KEYRING) \<or>
         i < FIL_PAGE_ZIP_KEYRING_ENCRYPTION_MAGIC L \<or>
         FIL_PAGE_ZIP_KEYRING_ENCRYPTION_MAGIC L + length (ZIP_PAGE_KEYRING_ENCRYPTION_MAGIC L) \<le> i) \<longrightarrow>
       dst_out r ! i = d2 ! i)"
proof -
  define H where "H = (if m_type this = KEYRING \<and> page_type = FIL_PAGE_COMPRESSED L
        then FIL_PAGE_DATA + 8 else FIL_PAGE_DATA)"
  from run ok pt obtain src_enc_len data_len d1 d2 d3 where
    hd: "encrypt_low_header L src d1 page_type = Some d2"
    and pad: "encrypt_low_padding d2 src_len src_enc_len H data_len = Some d3"
    and kr: "(if m_type this = KEYRING
      then encrypt_low_keyring L X this type src d3 dst_len page_type
      else Some (this, src, d3)) = Some (this_out r, src_out r, dst_out r)"
    unfolding H_def by (elim encrypt_low_SomeE) auto
  have l2: "FIL_PAGE_DATA \<le> length d1" "length d2 = length d1"
    using encrypt_low_header_bounds [OF hd] encrypt_low_header_length [OF hd] by simp_all
  have l3: "length d3 = length d2"
    using encrypt_low_padding_length [OF pad] .
  have l4: "length (dst_out r) = length d3"
    using kr by (auto split: if_splits dest!: encrypt_low_keyring_length)
  have "dst_out r ! i = d2 ! i"
    if i: "i < FIL_PAGE_DATA"
      and K: "m_type this \<noteq> KEYRING \<or> page_type = FIL_PAGE_COMPRESSED L \<or>
         i < FIL_PAGE_ENCRYPTION_KEY_VERSION L \<or> FIL_PAGE_ENCRYPTION_KEY_VERSION L + 4 \<le> i"
      and M: "\<not> (m_type this = KEYRING \<and> is_page_zip_compressed type
              \<and> m_encryption_rotation this = MASTER_KEY_TO_KEYRING) \<or>
         i < FIL_PAGE_ZIP_KEYRING_ENCRYPTION_MAGIC L \<or>
         FIL_PAGE_ZIP_KEYRING_ENCRYPTION_MAGIC L + length (ZIP_PAGE_KEYRING_ENCRYPTION_MAGIC L) \<le> i"
    for i
  proof -
    have "d3 ! i = d2 ! i"
      using encrypt_low_padding_nth [OF pad, of i] i l2 by (simp add: H_def)
    moreover have "dst_out r ! i = d3 ! i"
    proof (cases "m_type this = KEYRING")
      case False
      then show ?thesis using kr by simp
    next
      case True
      then have k: "encrypt_low_keyring L X this type src d3 dst_len page_type
                      = Some (this_out r, src_out r, dst_out r)"
        using kr by simp
      have "page_type = FIL_PAGE_COMPRESSED L \<or> is_page_zip_compressed type \<or> i + 4 < dst_len"
        using encrypt_low_size [OF run ok True pt] len True i by auto
      then show ?thesis
        using encrypt_low_keyring_nth [OF k, of i] i l2 l3 K M True by auto
    qed
    ultimately show ?thesis by simp
  qed
  then show ?thesis
    using hd l3 l4 by auto
qed

lemma encrypt_low_type:
  assumes run: "encrypt_low L X this type src src_len dst dst_len = Some r" and ok: "ret r"
    and len: "m_type this = KEYRING \<longrightarrow> dst_len = src_len"
    and pt: "mach_read_from_2 src (FIL_PAGE_TYPE L) = Some page_type"
    and lay: "layout_ok L"
  shows "mach_read_from_2 (dst_out r) (FIL_PAGE_TYPE L) =
           Some (if page_type = FIL_PAGE_COMPRESSED L then FIL_PAGE_COMPRESSED_AND_ENCRYPTED L
                 else if page_type = FIL_PAGE_RTREE L then FIL_PAGE_ENCRYPTED_RTREE L
                 else FIL_PAGE_ENCRYPTED L)"
proof -
  from encrypt_low_after_header [OF run ok len pt] obtain d1 d2 where
    hd: "encrypt_low_header L src d1 page_type = Some d2"
    and l: "length (dst_out r) = length d2"
    and same: "\<And>i. i < FIL_PAGE_DATA \<Longrightarrow>
       m_type this \<noteq> KEYRING \<or> page_type = FIL_PAGE_COMPRESSED L \<or>
         i < FIL_PAGE_ENCRYPTION_KEY_VERSION L \<or> FIL_PAGE_ENCRYPTION_KEY_VERSION L + 4 \<le> i \<Longrightarrow>
       \<not> (m_type this = KEYRING \<and> is_page_zip_compressed type
              \<and> m_encryption_rotation this = MASTER_KEY_TO_KEYRING) \<or>
         i < FIL_PAGE_ZIP_KEYRING_ENCRYPTION_MAGIC L \<or>
         FIL_PAGE_ZIP_KEYRING_ENCRYPTION_MAGIC L + length (ZIP_PAGE_KEYRING_ENCRYPTION_MAGIC L) \<le> i \<Longrightarrow>
       dst_out r ! i = d2 ! i"
    by blast
  have "dst_out r ! FIL_PAGE_TYPE L = d2 ! FIL_PAGE_TYPE L"
    using lay by (intro same) (auto simp: layout_ok_def disjoint_fields_def)
  moreover have "dst_out r ! (FIL_PAGE_TYPE L + 1) = d2 ! (FIL_PAGE_TYPE L + 1)"
    using lay by (intro same) (auto simp: layout_ok_def disjoint_fields_def)
  ultimately have "mach_read_from_2 (dst_out r) (FIL_PAGE_TYPE L) = mach_read_from_2 d2 (FIL_PAGE_TYPE L)"
    using l by (intro mach_read_from_2_eqI) simp_all
  then show ?thesis
    using encrypt_low_header_type [OF hd] lay by (simp add: layout_ok_def)
qed

lemma encrypt_low_original_type:
  assumes run: "encrypt_low L X this type src src_len dst dst_len = Some r" and ok: "ret r"
    and len: "m_type this = KEYRING \<longrightarrow> dst_len = src_len"
    and pt: "mach_read_from_2 src (FIL_PAGE_TYPE L) = Some page_type"
    and lay: "layout_ok L"
    and plain: "page_type \<noteq> FIL_PAGE_COMPRESSED L" "page_type \<noteq> FIL_PAGE_RTREE L"
  shows "mach_read_from_2 (dst_out r) (FIL_PAGE_ORIGINAL_TYPE_V1 L) = Some page_type"
proof -
  from encrypt_low_after_header [OF run ok len pt] obtain d1 d2 where
    hd: "encrypt_low_header L src d1 page_type = Some d2"
    and l: "length (dst_out r) = length d2"
    and same: "\<And>i. i < FIL_PAGE_DATA \<Longrightarrow>
       m_type this \<noteq> KEYRING \<or> page_type = FIL_PAGE_COMPRESSED L \<or>
         i < FIL_PAGE_ENCRYPTION_KEY_VERSION L \<or> FIL_PAGE_ENCRYPTION_KEY_VERSION L + 4 \<le> i \<Longrightarrow>
       \<not> (m_type this = KEYRING \<and> is_page_zip_compressed type
              \<and> m_encryption_rotation this = MASTER_KEY_TO_KEYRING) \<or>
         i < FIL_PAGE_ZIP_KEYRING_ENCRYPTION_MAGIC L \<or>
         FIL_PAGE_ZIP_KEYRING_ENCRYPTION_MAGIC L + length (ZIP_PAGE_KEYRING_ENCRYPTION_MAGIC L) \<le> i \<Longrightarrow>
       dst_out r ! i = d2 ! i"
    by blast
  have "dst_out r ! FIL_PAGE_ORIGINAL_TYPE_V1 L = d2 ! FIL_PAGE_ORIGINAL_TYPE_V1 L"
    using lay by (intro same) (auto simp: layout_ok_def disjoint_fields_def)
  moreover have "dst_out r ! (FIL_PAGE_ORIGINAL_TYPE_V1 L + 1) = d2 ! (FIL_PAGE_ORIGINAL_TYPE_V1 L + 1)"
    using lay by (intro same) (auto simp: layout_ok_def disjoint_fields_def)
  ultimately have "mach_read_from_2 (dst_out r) (FIL_PAGE_ORIGINAL_TYPE_V1 L)
                     = mach_read_from_2 d2 (FIL_PAGE_ORIGINAL_TYPE_V1 L)"
    using l by (intro mach_read_from_2_eqI) simp_all
  then show ?thesis
    using encrypt_low_header_original_type [OF hd plain] by simp
qed


section \<open>The stages of \<open>decrypt\<close>\<close>

lemma decrypt_header_type:
  assumes "decrypt_header L this type src src_len page_type original_type = Some p"
    and "disjoint_fields (FIL_PAGE_TYPE L) 2 (FIL_PAGE_ORIGINAL_TYPE_V1 L) 2"
  shows "mach_read_from_2 p (FIL_PAGE_TYPE L) =
           Some (if page_type = FIL_PAGE_ENCRYPTED L then original_type
                 else if page_type = FIL_PAGE_ENCRYPTED_RTREE L then FIL_PAGE_RTREE L
                 else FIL_PAGE_COMPRESSED L)"
proof -
  from assms(1) obtain a b where
    b: "(if page_type = FIL_PAGE_ENCRYPTED L
             then mach_write_to_2 a (FIL_PAGE_TYPE L) original_type
             else if page_type = FIL_PAGE_ENCRYPTED_RTREE L
             then mach_write_to_2 a (FIL_PAGE_TYPE L) (FIL_PAGE_RTREE L)
             else mach_write_to_2 a (FIL_PAGE_TYPE L) (FIL_PAGE_COMPRESSED L)) = Some b"
    and p: "(if original_type \<noteq> FIL_PAGE_TYPE_ALLOCATED L
        \<and> page_type \<noteq> FIL_PAGE_COMPRESSED_AND_ENCRYPTED L
     then mach_write_to_2 b (FIL_PAGE_ORIGINAL_TYPE_V1 L) (FIL_PAGE_ENCRYPTED L)
     else Some b) = Some p"
    by (auto simp: decrypt_header_def split: bind_splits)
  have "mach_read_from_2 b (FIL_PAGE_TYPE L) =
           Some (if page_type = FIL_PAGE_ENCRYPTED L then original_type
                 else if page_type = FIL_PAGE_ENCRYPTED_RTREE L then FIL_PAGE_RTREE L
                 else FIL_PAGE_COMPRESSED L)"
    using b by (auto simp: mach_read_write_2 split: if_splits)
  moreover have "mach_read_from_2 p (FIL_PAGE_TYPE L) = mach_read_from_2 b (FIL_PAGE_TYPE L)"
    using p assms(2)
    by (auto simp: mach_read_from_2_write_2 disjoint_fields_def split: if_splits)
  ultimately show ?thesis by simp
qed

lemma decrypt_SomeE:
  assumes "decrypt L X this type src src_len dst dst_len = Some (DB_SUCCESS, p, s)"
    and "is_encrypted_page L src = Some True"
  obtains page_type src_len' original_type data_len src1 blk where
    "m_type this \<noteq> NONE"
    "mach_read_from_2 src (FIL_PAGE_TYPE L) = Some page_type"
    "decrypt_src_len L X type src src_len page_type = Some src_len'"
    "mach_read_from_2 src (FIL_PAGE_ORIGINAL_TYPE_V1 L) = Some original_type"
    "decrypt_data_len L this type page_type src_len'
       (if m_type this = KEYRING \<and> page_type = FIL_PAGE_COMPRESSED_AND_ENCRYPTED L
        then FIL_PAGE_DATA + 8 else FIL_PAGE_DATA) = Some data_len"
    "decrypt_data L X this src (case dst of None \<Rightarrow> os_alloc_block X | Some d \<Rightarrow> d) page_type
       (if m_type this = KEYRING \<and> page_type = FIL_PAGE_COMPRESSED_AND_ENCRYPTED L
        then FIL_PAGE_DATA + 8 else FIL_PAGE_DATA) data_len = Some (True, src1, blk)"
    "decrypt_header L this type src1 src_len' page_type original_type = Some p"
    "s = map_option (\<lambda>_. blk) dst"
  using assms
  by (auto simp: decrypt_def Let_def split: bind_splits if_splits prod.splits)

lemma decrypt_data_length:
  "decrypt_data L X this src dst page_type ptr data_len = Some (ok, s, d) \<Longrightarrow> length s = length src"
  by (auto simp: decrypt_data_def Let_def memset_def
        split: bind_splits if_splits option.splits prod.splits bool.splits dest!: memcpy_length)

lemma decrypt_header_length:
  "decrypt_header L this type src src_len page_type original_type = Some p \<Longrightarrow> length p = length src"
  by (auto simp: decrypt_header_def mach_write_to_2_length
        split: bind_splits if_splits dest!: memcpy_length)

lemma decrypt_length:
  assumes "decrypt L X this type src src_len dst dst_len = Some (e, p, s)"
  shows "length p = length src"
  using assms
  by (auto simp: decrypt_def Let_def
        split: bind_splits if_splits prod.splits
        dest!: decrypt_data_length decrypt_header_length)



section \<open>The round trip of a page\<close>

lemma bytes_at_append:
  assumes "bytes_at b off m = Some x" and "bytes_at b (off + m) k = Some y"
  shows "bytes_at b off (m + k) = Some (x @ y)"
proof -
  have "take (m + k) (drop off b) = take m (drop off b) @ take k (drop m (drop off b))"
    by (rule take_add)
  also have "drop m (drop off b) = drop (off + m) b"
    by (simp add: add.commute)
  finally show ?thesis
    using assms by (simp add: bytes_at_Some add.assoc)
qed

lemma bytes_at_split:
  assumes "bytes_at b off (m + k) = Some z"
  shows "bytes_at b off m = Some (take m z)" and "bytes_at b (off + m) k = Some (drop m z)"
proof -
  from assms have le: "off + (m + k) \<le> length b" and z: "z = take (m + k) (drop off b)"
    by (simp_all add: bytes_at_Some)
  have s: "take (m + k) (drop off b) = take m (drop off b) @ take k (drop m (drop off b))"
    by (rule take_add)
  have l: "length (take m (drop off b)) = m" using le by simp
  show "bytes_at b off m = Some (take m z)"
    using le l unfolding z s by (simp add: bytes_at_Some)
  have "drop m z = take k (drop m (drop off b))"
    using l unfolding z s by simp
  also have "drop m (drop off b) = drop (off + m) b"
    by (simp add: add.commute)
  finally show "bytes_at b (off + m) k = Some (drop m z)"
    using le by (simp add: bytes_at_Some add.assoc)
qed

lemma memcpy_eqI:
  assumes "off + length data \<le> length buf" and "length b = length buf"
    and "\<And>i. i < length buf \<Longrightarrow>
           b ! i = (if off \<le> i \<and> i < off + length data then data ! (i - off) else buf ! i)"
  shows "memcpy buf off data = Some b"
proof -
  obtain c where c: "memcpy buf off data = Some c"
    using assms(1) by (simp add: memcpy_def)
  have "c = b"
  proof (rule nth_equalityI)
    show "length c = length b" using memcpy_length [OF c] assms(2) by simp
    fix i assume "i < length c"
    then have i: "i < length buf" using memcpy_length [OF c] by simp
    show "c ! i = b ! i"
      using memcpy_nth [OF c i] assms(3) [OF i] by simp
  qed
  with c show ?thesis by simp
qed

lemma memcpy_append:
  assumes "memcpy buf off a = Some b1" and "memcpy b1 (off + length a) b = Some b2"
  shows "memcpy buf off (a @ b) = Some b2"
proof (rule memcpy_eqI)
  have l1: "length b1 = length buf" using assms(1) by (rule memcpy_length)
  show "off + length (a @ b) \<le> length buf"
    using memcpy_in_bounds [OF assms(2)] l1 by simp
  show "length b2 = length buf" using memcpy_length [OF assms(2)] l1 by simp
  fix i assume i: "i < length buf"
  show "b2 ! i = (if off \<le> i \<and> i < off + length (a @ b) then (a @ b) ! (i - off) else buf ! i)"
    using memcpy_nth [OF assms(1) i] memcpy_nth [OF assms(2), of i] i l1
    by (auto simp: nth_append)
qed

lemma memcpy_prepend:
  assumes "memcpy buf (off + length a) b = Some b1" and "memcpy b1 off a = Some b2"
  shows "memcpy buf off (a @ b) = Some b2"
proof (rule memcpy_eqI)
  have l1: "length b1 = length buf" using assms(1) by (rule memcpy_length)
  show "off + length (a @ b) \<le> length buf"
    using memcpy_in_bounds [OF assms(1)] by simp
  show "length b2 = length buf" using memcpy_length [OF assms(2)] l1 by simp
  fix i assume i: "i < length buf"
  show "b2 ! i = (if off \<le> i \<and> i < off + length (a @ b) then (a @ b) ! (i - off) else buf ! i)"
    using memcpy_nth [OF assms(1) i] memcpy_nth [OF assms(2), of i] i l1
    by (auto simp: nth_append)
qed

lemma memcpy_over_suffix:
  assumes "memcpy buf off x = Some b1" and "k + length y = length x"
    and "memcpy b1 (off + k) y = Some b2"
  shows "memcpy buf off (take k x @ y) = Some b2"
proof (rule memcpy_eqI)
  have l1: "length b1 = length buf" using assms(1) by (rule memcpy_length)
  have k: "k \<le> length x" using assms(2) by simp
  have lt: "length (take k x @ y) = length x" using assms(2) k by simp
  show "off + length (take k x @ y) \<le> length buf"
    unfolding lt using memcpy_in_bounds [OF assms(1)] .
  show "length b2 = length buf" using memcpy_length [OF assms(3)] l1 by simp
  fix i assume i: "i < length buf"
  show "b2 ! i = (if off \<le> i \<and> i < off + length (take k x @ y)
                  then (take k x @ y) ! (i - off) else buf ! i)"
    unfolding lt
    using memcpy_nth [OF assms(1) i] memcpy_nth [OF assms(3), of i] i l1 k assms(2)
    by (auto simp: nth_append min_def)
qed

lemma memcpy_bytes_at_prefix:
  assumes "memcpy buf off x = Some b" and "n \<le> length x"
  shows "bytes_at b off n = Some (take n x)"
proof -
  have "bytes_at b off (n + (length x - n)) = Some x"
    using bytes_at_memcpy_same [OF assms(1)] assms(2) by simp
  then show ?thesis by (rule bytes_at_split)
qed

lemma memcpy_bytes_at_suffix:
  assumes "memcpy buf off x = Some b" and "n \<le> length x"
  shows "bytes_at b (off + n) (length x - n) = Some (drop n x)"
proof -
  have "bytes_at b off (n + (length x - n)) = Some x"
    using bytes_at_memcpy_same [OF assms(1)] assms(2) by simp
  then show ?thesis by (rule bytes_at_split)
qed

lemma chunk_len_le: "data_len div MY_AES_BLOCK_SIZE * MY_AES_BLOCK_SIZE \<le> data_len"
  by (simp add: MY_AES_BLOCK_SIZE_def)

lemma encrypt_low_data_stepsE:
  assumes "encrypt_low_data X this src dst H data_len = Some (True, d)"
    and "data_len < 2 ^ 32"
  obtains plain c d1 where
    "bytes_at src FIL_PAGE_DATA (data_len div MY_AES_BLOCK_SIZE * MY_AES_BLOCK_SIZE) = Some plain"
    "my_aes_encrypt X plain (m_key this) (m_klen this mod 2 ^ 32) my_aes_256_cbc
       (Some (m_iv this)) False = Some c"
    "length c = data_len div MY_AES_BLOCK_SIZE * MY_AES_BLOCK_SIZE"
    "memcpy dst H c = Some d1"
    "data_len = data_len div MY_AES_BLOCK_SIZE * MY_AES_BLOCK_SIZE \<longrightarrow> d = d1"
    "data_len \<noteq> data_len div MY_AES_BLOCK_SIZE * MY_AES_BLOCK_SIZE \<longrightarrow>
       (\<exists>rest d2 tail buf.
          bytes_at src (FIL_PAGE_DATA + length c)
            (data_len - data_len div MY_AES_BLOCK_SIZE * MY_AES_BLOCK_SIZE) = Some rest \<and>
          memcpy d1 (H + length c) rest = Some d2 \<and>
          2 * MY_AES_BLOCK_SIZE \<le> H + data_len \<and>
          bytes_at d2 (H + data_len - 2 * MY_AES_BLOCK_SIZE) (2 * MY_AES_BLOCK_SIZE) = Some tail \<and>
          my_aes_encrypt X tail (m_key this) (m_klen this mod 2 ^ 32) my_aes_256_cbc
            (Some (m_iv this)) False = Some buf \<and>
          length buf = 2 * MY_AES_BLOCK_SIZE \<and>
          memcpy d2 (H + data_len - 2 * MY_AES_BLOCK_SIZE) buf = Some d)"
proof -
  define chunk where "chunk = data_len div MY_AES_BLOCK_SIZE * MY_AES_BLOCK_SIZE"
  have m: "chunk mod 2 ^ 32 = chunk"
    using chunk_len_le [of data_len] assms(2) unfolding chunk_def
    by (intro mod_less) (rule le_less_trans)
  have r: "data_len - chunk \<noteq> 0 \<longleftrightarrow> data_len \<noteq> chunk"
    using chunk_len_le [of data_len] unfolding chunk_def by linarith
  have run: "(do {
        plain \<leftarrow> bytes_at src FIL_PAGE_DATA chunk;
        case my_aes_encrypt X plain (m_key this) (m_klen this mod 2 ^ 32) my_aes_256_cbc
               (Some (m_iv this)) False of
          None \<Rightarrow> Some (False, dst)
        | Some c \<Rightarrow> do {
            dst \<leftarrow> memcpy dst H c;
            if length c \<noteq> chunk then None
            else if data_len \<noteq> chunk then do {
              rest \<leftarrow> bytes_at src (FIL_PAGE_DATA + length c) (data_len - chunk);
              dst \<leftarrow> memcpy dst (H + length c) rest;
              off \<leftarrow> usub (H + data_len) (MY_AES_BLOCK_SIZE * 2);
              tail \<leftarrow> bytes_at dst off (MY_AES_BLOCK_SIZE * 2);
              case my_aes_encrypt X tail (m_key this) (m_klen this mod 2 ^ 32) my_aes_256_cbc
                     (Some (m_iv this)) False of
                None \<Rightarrow> Some (False, dst)
              | Some buf \<Rightarrow>
                  if length buf \<noteq> MY_AES_BLOCK_SIZE * 2 then None
                  else do { dst \<leftarrow> memcpy dst off buf; Some (True, dst) }
            } else Some (True, dst)
          }
      }) = Some (True, d)"
    using assms(1) unfolding encrypt_low_data_def Let_def chunk_def [symmetric] m r .
  then obtain plain where p: "bytes_at src FIL_PAGE_DATA chunk = Some plain"
    by (auto split: bind_splits)
  from run p obtain c where c: "my_aes_encrypt X plain (m_key this) (m_klen this mod 2 ^ 32)
       my_aes_256_cbc (Some (m_iv this)) False = Some c"
    by (cases "my_aes_encrypt X plain (m_key this) (m_klen this mod 2 ^ 32)
       my_aes_256_cbc (Some (m_iv this)) False") auto
  from run p c obtain d1 where d1: "memcpy dst H c = Some d1"
    by (auto split: bind_splits)
  from run p c d1 have lc: "length c = chunk"
    by (auto split: if_splits)
  from run p c d1 lc have rest: "(if data_len \<noteq> chunk then do {
              rest \<leftarrow> bytes_at src (FIL_PAGE_DATA + length c) (data_len - chunk);
              dst \<leftarrow> memcpy d1 (H + length c) rest;
              off \<leftarrow> usub (H + data_len) (MY_AES_BLOCK_SIZE * 2);
              tail \<leftarrow> bytes_at dst off (MY_AES_BLOCK_SIZE * 2);
              case my_aes_encrypt X tail (m_key this) (m_klen this mod 2 ^ 32) my_aes_256_cbc
                     (Some (m_iv this)) False of
                None \<Rightarrow> Some (False, dst)
              | Some buf \<Rightarrow>
                  if length buf \<noteq> MY_AES_BLOCK_SIZE * 2 then None
                  else do { dst \<leftarrow> memcpy dst off buf; Some (True, dst) }
            } else Some (True, d1)) = Some (True, d)"
    by simp
  have a: "data_len = chunk \<longrightarrow> d = d1"
    using rest by auto
  have b: "data_len \<noteq> chunk \<longrightarrow>
       (\<exists>rest d2 tail buf.
          bytes_at src (FIL_PAGE_DATA + length c) (data_len - chunk) = Some rest \<and>
          memcpy d1 (H + length c) rest = Some d2 \<and>
          2 * MY_AES_BLOCK_SIZE \<le> H + data_len \<and>
          bytes_at d2 (H + data_len - 2 * MY_AES_BLOCK_SIZE) (2 * MY_AES_BLOCK_SIZE) = Some tail \<and>
          my_aes_encrypt X tail (m_key this) (m_klen this mod 2 ^ 32) my_aes_256_cbc
            (Some (m_iv this)) False = Some buf \<and>
          length buf = 2 * MY_AES_BLOCK_SIZE \<and>
          memcpy d2 (H + data_len - 2 * MY_AES_BLOCK_SIZE) buf = Some d)"
  proof
    assume ne: "data_len \<noteq> chunk"
    with rest obtain rs where rs: "bytes_at src (FIL_PAGE_DATA + length c) (data_len - chunk) = Some rs"
      by (auto split: bind_splits)
    from rest ne rs obtain d2 where d2: "memcpy d1 (H + length c) rs = Some d2"
      by (auto split: bind_splits)
    from rest ne rs d2 have le: "MY_AES_BLOCK_SIZE * 2 \<le> H + data_len"
      by (auto simp: usub_def split: bind_splits if_splits)
    then have u: "usub (H + data_len) (MY_AES_BLOCK_SIZE * 2) = Some (H + data_len - MY_AES_BLOCK_SIZE * 2)"
      by (simp add: usub_def)
    from rest ne rs d2 u obtain tail where
      tl: "bytes_at d2 (H + data_len - MY_AES_BLOCK_SIZE * 2) (MY_AES_BLOCK_SIZE * 2) = Some tail"
      by (auto split: bind_splits)
    from rest ne rs d2 u tl obtain buf where
      bf: "my_aes_encrypt X tail (m_key this) (m_klen this mod 2 ^ 32) my_aes_256_cbc
            (Some (m_iv this)) False = Some buf"
      by (cases "my_aes_encrypt X tail (m_key this) (m_klen this mod 2 ^ 32) my_aes_256_cbc
            (Some (m_iv this)) False") auto
    from rest ne rs d2 u tl bf have lb: "length buf = MY_AES_BLOCK_SIZE * 2"
      and fin: "memcpy d2 (H + data_len - MY_AES_BLOCK_SIZE * 2) buf = Some d"
      by (auto split: if_splits bind_splits)
    show "\<exists>rest d2 tail buf.
          bytes_at src (FIL_PAGE_DATA + length c) (data_len - chunk) = Some rest \<and>
          memcpy d1 (H + length c) rest = Some d2 \<and>
          2 * MY_AES_BLOCK_SIZE \<le> H + data_len \<and>
          bytes_at d2 (H + data_len - 2 * MY_AES_BLOCK_SIZE) (2 * MY_AES_BLOCK_SIZE) = Some tail \<and>
          my_aes_encrypt X tail (m_key this) (m_klen this mod 2 ^ 32) my_aes_256_cbc
            (Some (m_iv this)) False = Some buf \<and>
          length buf = 2 * MY_AES_BLOCK_SIZE \<and>
          memcpy d2 (H + data_len - 2 * MY_AES_BLOCK_SIZE) buf = Some d"
      using rs d2 le tl bf lb fin by (auto simp: mult.commute)
  qed
  show ?thesis
    using that [OF p [unfolded chunk_def] c lc [unfolded chunk_def] d1] a b
    unfolding chunk_def by blast
qed

lemma encrypt_low_data_result:
  assumes run: "encrypt_low_data X this src dst H data_len = Some (True, d)"
    and small: "data_len < 2 ^ 32" and big: "2 * MY_AES_BLOCK_SIZE \<le> data_len"
  obtains p c y where
    "bytes_at src FIL_PAGE_DATA data_len = Some p"
    "enc_pass X this (take (data_len div MY_AES_BLOCK_SIZE * MY_AES_BLOCK_SIZE) p) = Some c"
    "length c = data_len div MY_AES_BLOCK_SIZE * MY_AES_BLOCK_SIZE"
    "memcpy dst H y = Some d"
    "data_len = data_len div MY_AES_BLOCK_SIZE * MY_AES_BLOCK_SIZE \<longrightarrow> y = c"
    "data_len \<noteq> data_len div MY_AES_BLOCK_SIZE * MY_AES_BLOCK_SIZE \<longrightarrow>
       (\<exists>buf. enc_pass X this
                 (drop (data_len - 2 * MY_AES_BLOCK_SIZE)
                    (c @ drop (data_len div MY_AES_BLOCK_SIZE * MY_AES_BLOCK_SIZE) p)) = Some buf \<and>
              length buf = 2 * MY_AES_BLOCK_SIZE \<and>
              y = take (data_len - 2 * MY_AES_BLOCK_SIZE)
                    (c @ drop (data_len div MY_AES_BLOCK_SIZE * MY_AES_BLOCK_SIZE) p) @ buf)"
proof -
  define chunk where "chunk = data_len div MY_AES_BLOCK_SIZE * MY_AES_BLOCK_SIZE"
  have cl: "chunk \<le> data_len" unfolding chunk_def by (rule chunk_len_le)
  from run small obtain plain c d1 where
    pl: "bytes_at src FIL_PAGE_DATA chunk = Some plain"
    and c: "enc_pass X this plain = Some c"
    and lc: "length c = chunk"
    and d1: "memcpy dst H c = Some d1"
    and a: "data_len = chunk \<longrightarrow> d = d1"
    and b: "data_len \<noteq> chunk \<longrightarrow>
       (\<exists>rest d2 tail buf.
          bytes_at src (FIL_PAGE_DATA + length c) (data_len - chunk) = Some rest \<and>
          memcpy d1 (H + length c) rest = Some d2 \<and>
          2 * MY_AES_BLOCK_SIZE \<le> H + data_len \<and>
          bytes_at d2 (H + data_len - 2 * MY_AES_BLOCK_SIZE) (2 * MY_AES_BLOCK_SIZE) = Some tail \<and>
          enc_pass X this tail = Some buf \<and>
          length buf = 2 * MY_AES_BLOCK_SIZE \<and>
          memcpy d2 (H + data_len - 2 * MY_AES_BLOCK_SIZE) buf = Some d)"
    unfolding chunk_def by (rule encrypt_low_data_stepsE)
  show ?thesis
  proof (cases "data_len = chunk")
    case True
    have "bytes_at src FIL_PAGE_DATA data_len = Some plain" using pl True by simp
    moreover have "take chunk plain = plain"
      using bytes_at_length [OF pl] by simp
    ultimately show ?thesis
      using that [of plain c c] c lc d1 a True unfolding chunk_def [symmetric] by simp
  next
    case False
    with b obtain rest d2 tail buf where
      rs: "bytes_at src (FIL_PAGE_DATA + chunk) (data_len - chunk) = Some rest"
      and d2: "memcpy d1 (H + length c) rest = Some d2"
      and tl: "bytes_at d2 (H + data_len - 2 * MY_AES_BLOCK_SIZE) (2 * MY_AES_BLOCK_SIZE) = Some tail"
      and bf: "enc_pass X this tail = Some buf"
      and lb: "length buf = 2 * MY_AES_BLOCK_SIZE"
      and fin: "memcpy d2 (H + data_len - 2 * MY_AES_BLOCK_SIZE) buf = Some d"
      using lc by auto
    have p: "bytes_at src FIL_PAGE_DATA (chunk + (data_len - chunk)) = Some (plain @ rest)"
      using pl rs by (rule bytes_at_append)
    then have p': "bytes_at src FIL_PAGE_DATA data_len = Some (plain @ rest)"
      using cl by simp
    have lpl: "length plain = chunk" using pl by (rule bytes_at_length)
    have lrs: "length rest = data_len - chunk" using rs by (rule bytes_at_length)
    have tk: "take chunk (plain @ rest) = plain" and dr: "drop chunk (plain @ rest) = rest"
      using lpl by simp_all
    have x: "memcpy dst H (c @ rest) = Some d2"
      using d1 d2 by (rule memcpy_append)
    have lx: "length (c @ rest) = data_len" using lc lrs cl by simp
    have off: "H + data_len - 2 * MY_AES_BLOCK_SIZE = H + (data_len - 2 * MY_AES_BLOCK_SIZE)"
      using big by simp
    have "bytes_at d2 (H + (data_len - 2 * MY_AES_BLOCK_SIZE))
            (length (c @ rest) - (data_len - 2 * MY_AES_BLOCK_SIZE))
          = Some (drop (data_len - 2 * MY_AES_BLOCK_SIZE) (c @ rest))"
      using x by (rule memcpy_bytes_at_suffix) (simp only: lx diff_le_self)
    moreover have "length (c @ rest) - (data_len - 2 * MY_AES_BLOCK_SIZE) = 2 * MY_AES_BLOCK_SIZE"
      unfolding lx using big by simp
    ultimately have tail: "tail = drop (data_len - 2 * MY_AES_BLOCK_SIZE) (c @ rest)"
      using tl unfolding off by simp
    have y: "memcpy dst H (take (data_len - 2 * MY_AES_BLOCK_SIZE) (c @ rest) @ buf) = Some d"
    proof (rule memcpy_over_suffix [OF x])
      show "data_len - 2 * MY_AES_BLOCK_SIZE + length buf = length (c @ rest)"
        unfolding lx lb using big by simp
      show "memcpy d2 (H + (data_len - 2 * MY_AES_BLOCK_SIZE)) buf = Some d"
        using fin unfolding off .
    qed
    show ?thesis
      using that [of "plain @ rest" c "take (data_len - 2 * MY_AES_BLOCK_SIZE) (c @ rest) @ buf"]
        p' c lc y bf lb False tail
      unfolding chunk_def [symmetric] tk dr by simp
  qed
qed

lemma decrypt_data_run:
  assumes inv: "\<And>x c. length x mod MY_AES_BLOCK_SIZE = 0 \<Longrightarrow> enc_pass X this x = Some c
                    \<Longrightarrow> dec_pass X this c = Some x"
    and big: "2 * MY_AES_BLOCK_SIZE \<le> data_len" and small: "data_len < 2 ^ 32"
    and y: "bytes_at E H data_len = Some y"
    and S: "data_len \<le> length S"
    and lp: "length p = data_len"
    and c: "enc_pass X this (take (data_len div MY_AES_BLOCK_SIZE * MY_AES_BLOCK_SIZE) p) = Some c"
    and lc: "length c = data_len div MY_AES_BLOCK_SIZE * MY_AES_BLOCK_SIZE"
    and y1: "data_len = data_len div MY_AES_BLOCK_SIZE * MY_AES_BLOCK_SIZE \<longrightarrow> y = c"
    and y2: "data_len \<noteq> data_len div MY_AES_BLOCK_SIZE * MY_AES_BLOCK_SIZE \<longrightarrow>
       (\<exists>buf. enc_pass X this
                 (drop (data_len - 2 * MY_AES_BLOCK_SIZE)
                    (c @ drop (data_len div MY_AES_BLOCK_SIZE * MY_AES_BLOCK_SIZE) p)) = Some buf \<and>
              length buf = 2 * MY_AES_BLOCK_SIZE \<and>
              y = take (data_len - 2 * MY_AES_BLOCK_SIZE)
                    (c @ drop (data_len div MY_AES_BLOCK_SIZE * MY_AES_BLOCK_SIZE) p) @ buf)"
    and pre: "(if m_type this = KEYRING \<and> page_type = FIL_PAGE_COMPRESSED_AND_ENCRYPTED L
               then do {
                 ptr \<leftarrow> usub H 8;
                 src \<leftarrow> memset E (ptr + data_len) 0 8;
                 Some (src, ptr)
               } else Some (E, H)) = Some (E', H')"
    and room: "H' + data_len \<le> length E'"
  shows "\<exists>R S'. decrypt_data L X this E S page_type H data_len = Some (True, R, S') \<and>
           memcpy E' H' p = Some R \<and> length S' = length S"
proof -
  define chunk where "chunk = data_len div MY_AES_BLOCK_SIZE * MY_AES_BLOCK_SIZE"
  define q where "q = drop chunk p"
  have cl: "chunk \<le> data_len" unfolding chunk_def by (rule chunk_len_le)
  have m: "chunk mod 2 ^ 32 = chunk"
    using cl small by (intro mod_less) (rule le_less_trans)
  have r: "data_len - chunk \<noteq> 0 \<longleftrightarrow> data_len \<noteq> chunk"
    using cl by linarith
  have lq: "length q = data_len - chunk" unfolding q_def using lp by simp
  have pq: "take chunk p @ q = p" unfolding q_def by simp
  define x where "x = c @ q"
  have lx: "length x = data_len" using lc lq cl unfolding chunk_def [symmetric] x_def by simp
  have tx: "take chunk x = c" and dx: "drop chunk x = q"
    using lc unfolding chunk_def [symmetric] x_def by simp_all
  have ltp: "length (take chunk p) = chunk" using lp cl by simp
  have "length (take chunk p) mod MY_AES_BLOCK_SIZE = 0"
    unfolding ltp unfolding chunk_def by simp
  then have dc: "dec_pass X this c = Some (take chunk p)"
    using c unfolding chunk_def [symmetric] by (rule inv)
  \<comment> \<open>the scratch buffer after the first copies holds \<open>c @ q\<close>\<close>
  have first: "\<exists>S1. (if data_len \<noteq> chunk then do {
                off \<leftarrow> usub (H + data_len) (MY_AES_BLOCK_SIZE * 2);
                remain_buf \<leftarrow> bytes_at E off (MY_AES_BLOCK_SIZE * 2);
                case dec_pass X this remain_buf of
                  None \<Rightarrow> Some (False, S)
                | Some t \<Rightarrow> do {
                    doff \<leftarrow> usub data_len (MY_AES_BLOCK_SIZE * 2);
                    dst \<leftarrow> memcpy S doff t;
                    other \<leftarrow> bytes_at E H doff;
                    dst \<leftarrow> memcpy dst 0 other;
                    Some (True, dst)
                  }
              } else do {
                other \<leftarrow> bytes_at E H data_len;
                dst \<leftarrow> memcpy S 0 other;
                Some (True, dst)
              }) = Some (True, S1) \<and> memcpy S 0 x = Some S1"
  proof (cases "data_len = chunk")
    case True
    then have "q = []" using lq by simp
    then have xc: "x = c" unfolding x_def by simp
    moreover have "y = c" using y1 True unfolding chunk_def by simp
    moreover obtain S1 where "memcpy S 0 c = Some S1"
      using S lc True unfolding chunk_def [symmetric] by (simp add: memcpy_def)
    ultimately show ?thesis using y True by simp
  next
    case False
    define k where "k = data_len - 2 * MY_AES_BLOCK_SIZE"
    from y2 False obtain buf where
      bf: "enc_pass X this (drop k x) = Some buf"
      and lb: "length buf = 2 * MY_AES_BLOCK_SIZE"
      and yy: "y = take k x @ buf"
      unfolding chunk_def [symmetric] q_def [symmetric] k_def x_def [symmetric] by blast
    have kb: "k + 2 * MY_AES_BLOCK_SIZE = data_len" unfolding k_def using big by simp
    have ltk: "length (take k x) = k" using lx kb by simp
    have u1: "usub (H + data_len) (MY_AES_BLOCK_SIZE * 2) = Some (H + k)"
      using kb by (simp add: usub_def)
    have u2: "usub data_len (MY_AES_BLOCK_SIZE * 2) = Some k"
      using kb by (simp add: usub_def)
    have yk: "bytes_at E H (k + 2 * MY_AES_BLOCK_SIZE) = Some y" using y kb by simp
    have tky: "take k y = take k x" and dky: "drop k y = buf"
      unfolding yy using ltk by simp_all
    have rb: "bytes_at E (H + k) (MY_AES_BLOCK_SIZE * 2) = Some buf"
      using bytes_at_split(2) [OF yk] unfolding dky by (simp add: mult.commute)
    have ot: "bytes_at E H k = Some (take k x)"
      using bytes_at_split(1) [OF yk] unfolding tky .
    have ld: "length (drop k x) = 2 * MY_AES_BLOCK_SIZE" using lx kb by simp
    have "length (drop k x) mod MY_AES_BLOCK_SIZE = 0"
      unfolding ld by simp
    then have dt: "dec_pass X this buf = Some (drop k x)"
      using bf by (rule inv)
    obtain Sa where sa: "memcpy S k (drop k x) = Some Sa"
      using S kb ld by (simp add: memcpy_def)
    obtain S1 where s1: "memcpy Sa 0 (take k x) = Some S1"
      using memcpy_length [OF sa] S kb ltk by (simp add: memcpy_def)
    have "memcpy S 0 (take k x @ drop k x) = Some S1"
    proof (rule memcpy_prepend)
      show "memcpy S (0 + length (take k x)) (drop k x) = Some Sa"
        using sa ltk by simp
      show "memcpy Sa 0 (take k x) = Some S1" by (rule s1)
    qed
    then have "memcpy S 0 x = Some S1" by (simp only: append_take_drop_id)
    then show ?thesis
      using False u1 u2 rb dt sa ot s1 by simp
  qed
  then obtain S1 where
    f: "(if data_len \<noteq> chunk then do {
                off \<leftarrow> usub (H + data_len) (MY_AES_BLOCK_SIZE * 2);
                remain_buf \<leftarrow> bytes_at E off (MY_AES_BLOCK_SIZE * 2);
                case dec_pass X this remain_buf of
                  None \<Rightarrow> Some (False, S)
                | Some t \<Rightarrow> do {
                    doff \<leftarrow> usub data_len (MY_AES_BLOCK_SIZE * 2);
                    dst \<leftarrow> memcpy S doff t;
                    other \<leftarrow> bytes_at E H doff;
                    dst \<leftarrow> memcpy dst 0 other;
                    Some (True, dst)
                  }
              } else do {
                other \<leftarrow> bytes_at E H data_len;
                dst \<leftarrow> memcpy S 0 other;
                Some (True, dst)
              }) = Some (True, S1)"
    and s1: "memcpy S 0 x = Some S1"
    by blast
  have mn: "bytes_at S1 0 chunk = Some c"
    using memcpy_bytes_at_prefix [OF s1, of chunk] cl unfolding lx tx by simp
  have rs: "bytes_at S1 chunk (data_len - chunk) = Some q"
    using memcpy_bytes_at_suffix [OF s1, of chunk] cl unfolding lx dx by simp
  obtain Ra where ra: "memcpy E' H' (take chunk p) = Some Ra"
    using room ltp cl by (simp add: memcpy_def)
  obtain R where rr: "memcpy Ra (H' + chunk) q = Some R"
    using memcpy_length [OF ra] room lq cl by (simp add: memcpy_def)
  have "memcpy E' H' (take chunk p @ q) = Some R"
  proof (rule memcpy_append [OF ra])
    show "memcpy Ra (H' + length (take chunk p)) q = Some R" using rr ltp by simp
  qed
  then have fin: "memcpy E' H' p = Some R" using pq by simp
  have "decrypt_data L X this E S page_type H data_len = Some (True, R, S1)"
    unfolding decrypt_data_def Let_def chunk_def [symmetric] m r f
    using pre mn dc ra rs rr by (simp split del: if_split)
  then show ?thesis
    using fin memcpy_length [OF s1] by blast
qed

lemma bytes_at_eqI:
  assumes "off + n \<le> length buf" and "length y = n"
    and "\<And>j. j < n \<Longrightarrow> buf ! (off + j) = y ! j"
  shows "bytes_at buf off n = Some y"
proof -
  have "take n (drop off buf) = y"
    by (rule nth_equalityI) (use assms in auto)
  then show ?thesis using assms(1) by (simp add: bytes_at_def)
qed

lemma encrypt_low_src_enc_len_le:
  "encrypt_low_src_enc_len L src src_len page_type = Some n \<Longrightarrow> n \<le> src_len"
  by (auto simp: encrypt_low_src_enc_len_def Let_def split: bind_splits if_splits)

lemma encrypt_low_data_len_le:
  "encrypt_low_data_len L this type page_type n = Some k \<Longrightarrow> k + FIL_PAGE_DATA \<le> n"
  by (auto simp: encrypt_low_data_len_def usub_Some split: bind_splits if_splits)

lemma encrypt_low_ut_ad_data_len:
  assumes "encrypt_low_ut_ad L this type src src_len dst_len"
    and "mach_read_from_2 src (FIL_PAGE_TYPE L) = Some page_type"
    and "encrypt_low_src_enc_len L src src_len page_type = Some src_enc_len"
    and "encrypt_low_data_len L this type page_type src_enc_len = Some data_len"
  shows "2 * MY_AES_BLOCK_SIZE \<le> data_len"
  using assms by (simp add: encrypt_low_ut_ad_def)

lemma encrypt_low_cipher_text:
  assumes run: "encrypt_low L X this type src src_len dst dst_len = Some r" and ok: "ret r"
    and ut: "encrypt_low_ut_ad L this type src src_len dst_len"
    and lay: "layout_ok L" and small: "src_len < 2 ^ 32"
  obtains page_type src_enc_len data_len p c y where
    "mach_read_from_2 src (FIL_PAGE_TYPE L) = Some page_type"
    "encrypt_low_src_enc_len L src src_len page_type = Some src_enc_len"
    "encrypt_low_data_len L this type page_type src_enc_len = Some data_len"
    "2 * MY_AES_BLOCK_SIZE \<le> data_len" "data_len < 2 ^ 32"
    "bytes_at src FIL_PAGE_DATA data_len = Some p"
    "enc_pass X this (take (data_len div MY_AES_BLOCK_SIZE * MY_AES_BLOCK_SIZE) p) = Some c"
    "length c = data_len div MY_AES_BLOCK_SIZE * MY_AES_BLOCK_SIZE"
    "data_len = data_len div MY_AES_BLOCK_SIZE * MY_AES_BLOCK_SIZE \<longrightarrow> y = c"
    "data_len \<noteq> data_len div MY_AES_BLOCK_SIZE * MY_AES_BLOCK_SIZE \<longrightarrow>
       (\<exists>buf. enc_pass X this
                 (drop (data_len - 2 * MY_AES_BLOCK_SIZE)
                    (c @ drop (data_len div MY_AES_BLOCK_SIZE * MY_AES_BLOCK_SIZE) p)) = Some buf \<and>
              length buf = 2 * MY_AES_BLOCK_SIZE \<and>
              y = take (data_len - 2 * MY_AES_BLOCK_SIZE)
                    (c @ drop (data_len div MY_AES_BLOCK_SIZE * MY_AES_BLOCK_SIZE) p) @ buf)"
    "bytes_at (dst_out r)
       (if m_type this = KEYRING \<and> page_type = FIL_PAGE_COMPRESSED L
        then FIL_PAGE_DATA + 8 else FIL_PAGE_DATA) data_len = Some y"
proof -
  from run ok obtain page_type src_enc_len data_len d1 d2 d3 where
    pt: "mach_read_from_2 src (FIL_PAGE_TYPE L) = Some page_type"
    and sel: "encrypt_low_src_enc_len L src src_len page_type = Some src_enc_len"
    and dl: "encrypt_low_data_len L this type page_type src_enc_len = Some data_len"
    and dd: "encrypt_low_data X this src dst
       (if m_type this = KEYRING \<and> page_type = FIL_PAGE_COMPRESSED L
        then FIL_PAGE_DATA + 8 else FIL_PAGE_DATA) data_len = Some (True, d1)"
    and hd: "encrypt_low_header L src d1 page_type = Some d2"
    and pd: "encrypt_low_padding d2 src_len src_enc_len
       (if m_type this = KEYRING \<and> page_type = FIL_PAGE_COMPRESSED L
        then FIL_PAGE_DATA + 8 else FIL_PAGE_DATA) data_len = Some d3"
    and kr: "(if m_type this = KEYRING
      then encrypt_low_keyring L X this type src d3 dst_len page_type
      else Some (this, src, d3)) = Some (this_out r, src_out r, dst_out r)"
    by (rule encrypt_low_SomeE)
  define H where "H = (if m_type this = KEYRING \<and> page_type = FIL_PAGE_COMPRESSED L
        then FIL_PAGE_DATA + 8 else FIL_PAGE_DATA)"
  have Hge: "FIL_PAGE_DATA \<le> H" unfolding H_def by simp
  have big: "2 * MY_AES_BLOCK_SIZE \<le> data_len"
    using ut pt sel dl by (rule encrypt_low_ut_ad_data_len)
  have sm: "data_len < 2 ^ 32"
    using encrypt_low_src_enc_len_le [OF sel] encrypt_low_data_len_le [OF dl] small by simp
  have len: "m_type this = KEYRING \<longrightarrow> dst_len = src_len"
    using ut by (auto simp: encrypt_low_ut_ad_def)
  from dd sm big obtain p c y where
    p: "bytes_at src FIL_PAGE_DATA data_len = Some p"
    and c: "enc_pass X this (take (data_len div MY_AES_BLOCK_SIZE * MY_AES_BLOCK_SIZE) p) = Some c"
    and lc: "length c = data_len div MY_AES_BLOCK_SIZE * MY_AES_BLOCK_SIZE"
    and m: "memcpy dst H y = Some d1"
    and y1: "data_len = data_len div MY_AES_BLOCK_SIZE * MY_AES_BLOCK_SIZE \<longrightarrow> y = c"
    and y2: "data_len \<noteq> data_len div MY_AES_BLOCK_SIZE * MY_AES_BLOCK_SIZE \<longrightarrow>
       (\<exists>buf. enc_pass X this
                 (drop (data_len - 2 * MY_AES_BLOCK_SIZE)
                    (c @ drop (data_len div MY_AES_BLOCK_SIZE * MY_AES_BLOCK_SIZE) p)) = Some buf \<and>
              length buf = 2 * MY_AES_BLOCK_SIZE \<and>
              y = take (data_len - 2 * MY_AES_BLOCK_SIZE)
                    (c @ drop (data_len div MY_AES_BLOCK_SIZE * MY_AES_BLOCK_SIZE) p) @ buf)"
    unfolding H_def [symmetric] by (rule encrypt_low_data_result)
  have lp: "length p = data_len" using p by (rule bytes_at_length)
  have ly: "length y = data_len"
  proof (cases "data_len = data_len div MY_AES_BLOCK_SIZE * MY_AES_BLOCK_SIZE")
    case True
    then show ?thesis using y1 lc by simp
  next
    case False
    with y2 obtain buf where lb: "length buf = 2 * MY_AES_BLOCK_SIZE"
      and yy: "y = take (data_len - 2 * MY_AES_BLOCK_SIZE)
                    (c @ drop (data_len div MY_AES_BLOCK_SIZE * MY_AES_BLOCK_SIZE) p) @ buf"
      by blast
    have "length (c @ drop (data_len div MY_AES_BLOCK_SIZE * MY_AES_BLOCK_SIZE) p) = data_len"
      using lc lp chunk_len_le [of data_len] by simp
    then show ?thesis unfolding yy using lb big by simp
  qed
  have l1: "length d1 = length dst" using m by (rule memcpy_length)
  have l2: "length d2 = length d1" using hd by (rule encrypt_low_header_length)
  have l3: "length d3 = length d2" using pd by (rule encrypt_low_padding_length)
  have inb: "H + data_len \<le> length dst" using memcpy_in_bounds [OF m] ly by simp
  have lE: "length (dst_out r) = length dst"
    using encrypt_low_lengths [OF run] by simp
  have "bytes_at (dst_out r) H data_len = Some y"
  proof (rule bytes_at_eqI)
    show "H + data_len \<le> length (dst_out r)" using inb lE by simp
    show "length y = data_len" by (rule ly)
    fix j assume j: "j < data_len"
    have a1: "d1 ! (H + j) = y ! j"
      using memcpy_nth_inside [OF m, of "H + j"] j ly by simp
    have a2: "d2 ! (H + j) = d1 ! (H + j)"
      using hd
    proof (rule encrypt_low_header_rest)
      show "FIL_PAGE_DATA \<le> H + j" using Hge by simp
      show "H + j < length d1" using inb j l1 by simp
    qed (use lay in \<open>simp_all add: layout_ok_def\<close>)
    have a3: "d3 ! (H + j) = d2 ! (H + j)"
      using pd unfolding H_def [symmetric]
      by (rule encrypt_low_padding_nth) (use j inb l1 l2 in simp_all)
    have a4: "dst_out r ! (H + j) = d3 ! (H + j)"
    proof (cases "m_type this = KEYRING")
      case False
      then show ?thesis using kr by simp
    next
      case True
      then have k: "encrypt_low_keyring L X this type src d3 dst_len page_type
                      = Some (this_out r, src_out r, dst_out r)"
        using kr by simp
      have dlen: "dst_len = src_len" using len True by simp
      show ?thesis
        using k
      proof (rule encrypt_low_keyring_nth)
        show "H + j < length d3" using j inb l1 l2 l3 by simp
        show "page_type \<noteq> FIL_PAGE_COMPRESSED L \<or> H + j < FIL_PAGE_DATA \<or> FIL_PAGE_DATA + 8 \<le> H + j"
          using True unfolding H_def by simp
        show "\<not> (is_page_zip_compressed type \<and> m_encryption_rotation this = MASTER_KEY_TO_KEYRING) \<or>
           H + j < FIL_PAGE_ZIP_KEYRING_ENCRYPTION_MAGIC L \<or>
           FIL_PAGE_ZIP_KEYRING_ENCRYPTION_MAGIC L + length (ZIP_PAGE_KEYRING_ENCRYPTION_MAGIC L) \<le> H + j"
          using lay Hge by (simp add: layout_ok_def)
        show "page_type = FIL_PAGE_COMPRESSED L \<or>
           (H + j < FIL_PAGE_ENCRYPTION_KEY_VERSION L \<or> FIL_PAGE_ENCRYPTION_KEY_VERSION L + 4 \<le> H + j)
            \<and> (is_page_zip_compressed type \<or> H + j + 4 < dst_len \<or> dst_len \<le> H + j)"
        proof (cases "page_type = FIL_PAGE_COMPRESSED L")
          case False
          then have hh: "H = FIL_PAGE_DATA" unfolding H_def by simp
          have kv: "FIL_PAGE_ENCRYPTION_KEY_VERSION L + 4 \<le> H + j"
            using lay Hge by (simp add: layout_ok_def)
          have "is_page_zip_compressed type \<or> H + j + 4 < dst_len"
            using dl sel False True j hh unfolding dlen
            by (auto simp: encrypt_low_data_len_def encrypt_low_src_enc_len_def usub_Some
                  split: bind_splits if_splits)
          then show ?thesis using kv by blast
        qed simp
      qed
    qed
    show "dst_out r ! (H + j) = y ! j" using a1 a2 a3 a4 by simp
  qed
  then show ?thesis
    using that [OF pt sel dl big sm p c lc y1 y2] unfolding H_def by blast
qed

lemma mach_read_from_2_bytes:
  assumes "mach_read_from_2 buf off = Some v"
  shows "buf ! off = ucast (drop_bit 8 v)" and "buf ! (off + 1) = ucast v"
proof -
  have v: "v = push_bit 8 (ucast (buf ! off)) OR ucast (buf ! (off + 1))"
    using assms by (auto simp: mach_read_from_2_def split: if_splits)
  show "buf ! off = ucast (drop_bit 8 v)"
    unfolding v by (rule bit_word_eqI) (auto simp: bit_simps dest: bit_imp_le_length)
  show "buf ! (off + 1) = ucast v"
    unfolding v by (rule bit_word_eqI) (auto simp: bit_simps)
qed

lemma mach_read_from_2_same_bytes:
  assumes "mach_read_from_2 a off = Some v" and "mach_read_from_2 b off = Some v"
    and "off \<le> i" and "i < off + 2"
  shows "a ! i = b ! i"
proof -
  have "i = off \<or> i = off + 1" using assms(3,4) by linarith
  then show ?thesis
    using mach_read_from_2_bytes [OF assms(1)] mach_read_from_2_bytes [OF assms(2)] by auto
qed

lemma mach_write_to_2_ex:
  "off + 2 \<le> length buf \<Longrightarrow> \<exists>b. mach_write_to_2 buf off v = Some b"
  by (simp add: mach_write_to_2_def memcpy_def)

lemma decrypt_runI:
  assumes "mach_read_from_2 src (FIL_PAGE_TYPE L) = Some page_type"
    and "page_type = FIL_PAGE_ENCRYPTED L \<or> page_type = FIL_PAGE_COMPRESSED_AND_ENCRYPTED L
           \<or> page_type = FIL_PAGE_ENCRYPTED_RTREE L"
    and "m_type this \<noteq> NONE"
    and "decrypt_src_len L X type src src_len page_type = Some src_len'"
    and "mach_read_from_2 src (FIL_PAGE_ORIGINAL_TYPE_V1 L) = Some original_type"
    and "decrypt_data_len L this type page_type src_len'
       (if m_type this = KEYRING \<and> page_type = FIL_PAGE_COMPRESSED_AND_ENCRYPTED L
        then FIL_PAGE_DATA + 8 else FIL_PAGE_DATA) = Some data_len"
    and "decrypt_data L X this src (case dst of None \<Rightarrow> os_alloc_block X | Some d \<Rightarrow> d) page_type
       (if m_type this = KEYRING \<and> page_type = FIL_PAGE_COMPRESSED_AND_ENCRYPTED L
        then FIL_PAGE_DATA + 8 else FIL_PAGE_DATA) data_len = Some (True, src1, blk)"
    and "decrypt_header L this type src1 src_len' page_type original_type = Some p"
  shows "decrypt L X this type src src_len dst dst_len
           = Some (DB_SUCCESS, p, map_option (\<lambda>_. blk) dst)"
  using assms by (simp add: decrypt_def is_encrypted_page_def Let_def)

lemma decrypt_header_plain:
  assumes pt: "page_type \<noteq> FIL_PAGE_COMPRESSED_AND_ENCRYPTED L"
    and lay: "layout_ok L"
    and hdr: "FIL_PAGE_DATA \<le> length src"
    and tr: "m_type this = KEYRING \<and> \<not> is_page_zip_compressed type \<longrightarrow>
               FIL_PAGE_LSN L + 8 \<le> length src \<and> FIL_PAGE_DATA + 4 \<le> src_len \<and> src_len \<le> length src"
  obtains R where
    "decrypt_header L this type src src_len page_type original_type = Some R"
    "length R = length src"
    "\<And>i. i < length src \<Longrightarrow> i < FIL_PAGE_TYPE L \<or> FIL_PAGE_TYPE L + 2 \<le> i \<Longrightarrow>
       i < FIL_PAGE_ORIGINAL_TYPE_V1 L \<or> FIL_PAGE_ORIGINAL_TYPE_V1 L + 2 \<le> i \<Longrightarrow>
       \<not> (m_type this = KEYRING \<and> \<not> is_page_zip_compressed type \<and> src_len \<le> i + 4 \<and> i < src_len)
       \<Longrightarrow> R ! i = src ! i"
    "\<And>j. m_type this = KEYRING \<Longrightarrow> \<not> is_page_zip_compressed type \<Longrightarrow> j < 4 \<Longrightarrow>
       R ! (src_len - 4 + j) = src ! (FIL_PAGE_LSN L + 4 + j)"
    "original_type \<noteq> FIL_PAGE_TYPE_ALLOCATED L \<Longrightarrow>
       mach_read_from_2 R (FIL_PAGE_ORIGINAL_TYPE_V1 L) = Some (FIL_PAGE_ENCRYPTED L)"
    "\<And>i. original_type = FIL_PAGE_TYPE_ALLOCATED L \<Longrightarrow> FIL_PAGE_ORIGINAL_TYPE_V1 L \<le> i \<Longrightarrow>
       i < FIL_PAGE_ORIGINAL_TYPE_V1 L + 2 \<Longrightarrow> R ! i = src ! i"
proof -
  define K where "K \<longleftrightarrow> m_type this = KEYRING \<and> \<not> is_page_zip_compressed type"
  define t where "t = (if page_type = FIL_PAGE_ENCRYPTED L then original_type
                       else if page_type = FIL_PAGE_ENCRYPTED_RTREE L then FIL_PAGE_RTREE L
                       else FIL_PAGE_COMPRESSED L)"
  have T: "FIL_PAGE_TYPE L + 2 \<le> FIL_PAGE_DATA" and O: "FIL_PAGE_ORIGINAL_TYPE_V1 L + 2 \<le> FIL_PAGE_DATA"
    and TO: "FIL_PAGE_TYPE L + 2 \<le> FIL_PAGE_ORIGINAL_TYPE_V1 L \<or>
             FIL_PAGE_ORIGINAL_TYPE_V1 L + 2 \<le> FIL_PAGE_TYPE L"
    and e8: "FIL_PAGE_END_LSN_OLD_CHKSUM L = 8"
    using lay by (auto simp: layout_ok_def disjoint_fields_def)
  \<comment> \<open>the low LSN bytes go to the end of the page\<close>
  have "\<exists>s1. (if K then do {
               lsn \<leftarrow> bytes_at src (FIL_PAGE_LSN L + 4) 4;
               off \<leftarrow> usub src_len (FIL_PAGE_END_LSN_OLD_CHKSUM L);
               memcpy src (off + 4) lsn
             } else Some src) = Some s1 \<and> length s1 = length src \<and>
           (\<forall>i < length src. \<not> (K \<and> src_len \<le> i + 4 \<and> i < src_len) \<longrightarrow> s1 ! i = src ! i) \<and>
           (K \<longrightarrow> (\<forall>j < 4. s1 ! (src_len - 4 + j) = src ! (FIL_PAGE_LSN L + 4 + j)))"
  proof (cases K)
    case False
    then show ?thesis by simp
  next
    case True
    then have b: "FIL_PAGE_LSN L + 8 \<le> length src" "FIL_PAGE_DATA + 4 \<le> src_len"
      "src_len \<le> length src"
      using tr unfolding K_def by simp_all
    obtain lsn where lsn: "bytes_at src (FIL_PAGE_LSN L + 4) 4 = Some lsn"
      using b(1) by (simp add: bytes_at_def)
    have ll: "length lsn = 4" using lsn by (rule bytes_at_length)
    have us: "usub src_len (FIL_PAGE_END_LSN_OLD_CHKSUM L) = Some (src_len - 8)"
      using b(2) e8 by (simp add: usub_def FIL_PAGE_DATA_def)
    have off: "src_len - 8 + 4 = src_len - 4"
      using b(2) by (simp add: FIL_PAGE_DATA_def)
    obtain s1 where s1: "memcpy src (src_len - 4) lsn = Some s1"
      using b(2,3) ll by (simp add: memcpy_def FIL_PAGE_DATA_def)
    have run: "(if K then do {
               lsn \<leftarrow> bytes_at src (FIL_PAGE_LSN L + 4) 4;
               off \<leftarrow> usub src_len (FIL_PAGE_END_LSN_OLD_CHKSUM L);
               memcpy src (off + 4) lsn
             } else Some src) = Some s1"
      using True lsn us s1 off by simp
    have out: "\<forall>i < length src. \<not> (K \<and> src_len \<le> i + 4 \<and> i < src_len) \<longrightarrow> s1 ! i = src ! i"
    proof (intro allI impI)
      fix i assume i: "i < length src" and n: "\<not> (K \<and> src_len \<le> i + 4 \<and> i < src_len)"
      from n True have "i < src_len - 4 \<or> src_len - 4 + length lsn \<le> i"
        using b(2) ll by (auto simp: FIL_PAGE_DATA_def)
      with s1 i show "s1 ! i = src ! i" by (rule memcpy_nth_outside)
    qed
    have ins: "\<forall>j < 4. s1 ! (src_len - 4 + j) = src ! (FIL_PAGE_LSN L + 4 + j)"
    proof (intro allI impI)
      fix j :: nat assume j: "j < 4"
      have "s1 ! (src_len - 4 + j) = lsn ! (src_len - 4 + j - (src_len - 4))"
        using s1 by (rule memcpy_nth_inside) (use j ll in simp_all)
      also have "\<dots> = lsn ! j" by simp
      also have "\<dots> = src ! (FIL_PAGE_LSN L + 4 + j)"
        using lsn j by (rule bytes_at_nth)
      finally show "s1 ! (src_len - 4 + j) = src ! (FIL_PAGE_LSN L + 4 + j)" .
    qed
    show ?thesis using run memcpy_length [OF s1] out ins by blast
  qed
  then obtain s1 where
    r1: "(if K then do {
               lsn \<leftarrow> bytes_at src (FIL_PAGE_LSN L + 4) 4;
               off \<leftarrow> usub src_len (FIL_PAGE_END_LSN_OLD_CHKSUM L);
               memcpy src (off + 4) lsn
             } else Some src) = Some s1"
    and l1: "length s1 = length src"
    and o1: "\<And>i. i < length src \<Longrightarrow> \<not> (K \<and> src_len \<le> i + 4 \<and> i < src_len) \<Longrightarrow> s1 ! i = src ! i"
    and i1: "\<And>j. K \<Longrightarrow> j < 4 \<Longrightarrow> s1 ! (src_len - 4 + j) = src ! (FIL_PAGE_LSN L + 4 + j)"
    by blast
  obtain s2 where s2: "mach_write_to_2 s1 (FIL_PAGE_TYPE L) t = Some s2"
    using mach_write_to_2_ex [of "FIL_PAGE_TYPE L" s1 t] T hdr l1 by auto
  have l2: "length s2 = length s1" using s2 by (rule mach_write_to_2_length)
  have "\<exists>R. (if original_type \<noteq> FIL_PAGE_TYPE_ALLOCATED L
              then mach_write_to_2 s2 (FIL_PAGE_ORIGINAL_TYPE_V1 L) (FIL_PAGE_ENCRYPTED L)
              else Some s2) = Some R"
    using mach_write_to_2_ex [of "FIL_PAGE_ORIGINAL_TYPE_V1 L" s2 "FIL_PAGE_ENCRYPTED L"] O hdr l1 l2
    by auto
  then obtain R where
    r3: "(if original_type \<noteq> FIL_PAGE_TYPE_ALLOCATED L
              then mach_write_to_2 s2 (FIL_PAGE_ORIGINAL_TYPE_V1 L) (FIL_PAGE_ENCRYPTED L)
              else Some s2) = Some R"
    by blast
  have l3: "length R = length s2"
    using r3 by (auto simp: mach_write_to_2_length split: if_splits)
  have o3: "\<And>i. i < length src \<Longrightarrow>
              i < FIL_PAGE_ORIGINAL_TYPE_V1 L \<or> FIL_PAGE_ORIGINAL_TYPE_V1 L + 2 \<le> i \<or>
              original_type = FIL_PAGE_TYPE_ALLOCATED L \<Longrightarrow> R ! i = s2 ! i"
    using r3 l1 l2 by (auto simp: mach_write_to_2_nth_outside split: if_splits)
  have o2: "\<And>i. i < length src \<Longrightarrow> i < FIL_PAGE_TYPE L \<or> FIL_PAGE_TYPE L + 2 \<le> i \<Longrightarrow> s2 ! i = s1 ! i"
    using s2 l1 by (auto simp: mach_write_to_2_nth_outside)
  have s2': "(if page_type = FIL_PAGE_ENCRYPTED L
             then mach_write_to_2 s1 (FIL_PAGE_TYPE L) original_type
             else if page_type = FIL_PAGE_ENCRYPTED_RTREE L
             then mach_write_to_2 s1 (FIL_PAGE_TYPE L) (FIL_PAGE_RTREE L)
             else mach_write_to_2 s1 (FIL_PAGE_TYPE L) (FIL_PAGE_COMPRESSED L)) = Some s2"
    using s2 unfolding t_def by (auto split: if_splits)
  have run: "decrypt_header L this type src src_len page_type original_type = Some R"
    unfolding decrypt_header_def using pt r1 s2' r3 unfolding K_def
    by (simp split del: if_split)
  show ?thesis
  proof (rule that [OF run])
    show "length R = length src" using l1 l2 l3 by simp
  next
    fix i assume i: "i < length src" and a: "i < FIL_PAGE_TYPE L \<or> FIL_PAGE_TYPE L + 2 \<le> i"
      and b: "i < FIL_PAGE_ORIGINAL_TYPE_V1 L \<or> FIL_PAGE_ORIGINAL_TYPE_V1 L + 2 \<le> i"
      and c: "\<not> (m_type this = KEYRING \<and> \<not> is_page_zip_compressed type \<and> src_len \<le> i + 4 \<and> i < src_len)"
    have "R ! i = s2 ! i" using i b by (intro o3) auto
    also have "\<dots> = s1 ! i" using i a by (rule o2)
    also have "\<dots> = src ! i" using i c unfolding K_def by (intro o1) (auto simp: K_def)
    finally show "R ! i = src ! i" .
  next
    fix j :: nat
    assume k: "m_type this = KEYRING" "\<not> is_page_zip_compressed type" and j: "j < 4"
    have K: K unfolding K_def using k by simp
    have b: "FIL_PAGE_DATA + 4 \<le> src_len" "src_len \<le> length src" using tr k by simp_all
    have ge: "FIL_PAGE_DATA \<le> src_len - 4 + j" using b by simp
    have lt: "src_len - 4 + j < length src" using b j by (simp add: FIL_PAGE_DATA_def)
    have "R ! (src_len - 4 + j) = s2 ! (src_len - 4 + j)"
      using lt ge O by (intro o3) auto
    also have "\<dots> = s1 ! (src_len - 4 + j)"
      using lt ge T by (intro o2) auto
    also have "\<dots> = src ! (FIL_PAGE_LSN L + 4 + j)" using K j by (rule i1)
    finally show "R ! (src_len - 4 + j) = src ! (FIL_PAGE_LSN L + 4 + j)" .
  next
    assume "original_type \<noteq> FIL_PAGE_TYPE_ALLOCATED L"
    then have "mach_write_to_2 s2 (FIL_PAGE_ORIGINAL_TYPE_V1 L) (FIL_PAGE_ENCRYPTED L) = Some R"
      using r3 by simp
    then show "mach_read_from_2 R (FIL_PAGE_ORIGINAL_TYPE_V1 L) = Some (FIL_PAGE_ENCRYPTED L)"
      by (rule mach_read_write_2)
  next
    fix i assume al: "original_type = FIL_PAGE_TYPE_ALLOCATED L"
      and i: "FIL_PAGE_ORIGINAL_TYPE_V1 L \<le> i" "i < FIL_PAGE_ORIGINAL_TYPE_V1 L + 2"
    have lt: "i < length src" using i O hdr by simp
    have nk: "\<not> (K \<and> src_len \<le> i + 4 \<and> i < src_len)"
    proof
      assume h: "K \<and> src_len \<le> i + 4 \<and> i < src_len"
      then have "FIL_PAGE_DATA + 4 \<le> src_len" using tr unfolding K_def by simp
      with h i O show False by simp
    qed
    have "R ! i = s2 ! i" using lt al by (intro o3) auto
    also have "\<dots> = s1 ! i" using lt i TO by (intro o2) auto
    also have "\<dots> = src ! i" using lt nk by (rule o1)
    finally show "R ! i = src ! i" .
  qed
qed

lemma round_trip_plain:
  assumes run: "encrypt_low L X this type P src_len D dst_len = Some r" and ok: "ret r"
    and ut: "encrypt_low_ut_ad L this type P src_len dst_len"
    and lay: "layout_ok L" and tl: "trailer_layout_ok L"
    and small: "src_len < 2 ^ 32"
    and inv: "\<And>x c. length x mod MY_AES_BLOCK_SIZE = 0 \<Longrightarrow> enc_pass X this x = Some c
                    \<Longrightarrow> dec_pass X this c = Some x"
    and pt: "mach_read_from_2 P (FIL_PAGE_TYPE L) = Some page_type"
    and nc: "page_type \<noteq> FIL_PAGE_COMPRESSED L"
    and rt: "m_type this = KEYRING \<and> \<not> is_page_zip_compressed type \<longrightarrow> page_type \<noteq> FIL_PAGE_RTREE L"
    and roomD: "src_len \<le> length D"
    and roomS: "src_len \<le> length (case S of None \<Rightarrow> os_alloc_block X | Some d \<Rightarrow> d)"
  obtains R S' where
    "decrypt L X this type (dst_out r) src_len S scratch_len = Some (DB_SUCCESS, R, S')"
    "length R = length D"
    "\<And>i. i < src_len \<Longrightarrow>
       i < FIL_PAGE_ORIGINAL_TYPE_V1 L \<or> FIL_PAGE_ORIGINAL_TYPE_V1 L + 2 \<le> i \<Longrightarrow>
       m_type this \<noteq> KEYRING \<or> i < FIL_PAGE_ENCRYPTION_KEY_VERSION L
         \<or> FIL_PAGE_ENCRYPTION_KEY_VERSION L + 4 \<le> i \<Longrightarrow>
       \<not> (m_type this = KEYRING \<and> is_page_zip_compressed type
              \<and> m_encryption_rotation this = MASTER_KEY_TO_KEYRING) \<or>
         i < FIL_PAGE_ZIP_KEYRING_ENCRYPTION_MAGIC L \<or>
         FIL_PAGE_ZIP_KEYRING_ENCRYPTION_MAGIC L + length (ZIP_PAGE_KEYRING_ENCRYPTION_MAGIC L) \<le> i \<Longrightarrow>
       \<not> (m_type this = KEYRING \<and> \<not> is_page_zip_compressed type) \<or> i + 4 < src_len \<Longrightarrow>
       R ! i = P ! i"
    "\<And>j. m_type this = KEYRING \<Longrightarrow> \<not> is_page_zip_compressed type \<Longrightarrow> j < 4 \<Longrightarrow>
       R ! (src_len - 4 + j) = P ! (FIL_PAGE_LSN L + 4 + j)"
    "page_type \<noteq> FIL_PAGE_RTREE L \<Longrightarrow> page_type \<noteq> FIL_PAGE_TYPE_ALLOCATED L \<Longrightarrow>
       mach_read_from_2 R (FIL_PAGE_ORIGINAL_TYPE_V1 L) = Some (FIL_PAGE_ENCRYPTED L)"
    "m_type this = KEYRING \<Longrightarrow>
       mach_read_from_4 R (FIL_PAGE_ENCRYPTION_KEY_VERSION L) = Some (m_key_version this)"
proof -
  define E where "E = dst_out r"
  define K where "K \<longleftrightarrow> m_type this = KEYRING \<and> \<not> is_page_zip_compressed type"
  define pt' where "pt' = (if page_type = FIL_PAGE_RTREE L then FIL_PAGE_ENCRYPTED_RTREE L
                           else FIL_PAGE_ENCRYPTED L)"
  define blk where "blk = (case S of None \<Rightarrow> os_alloc_block X | Some d \<Rightarrow> d)"
  have len: "m_type this = KEYRING \<longrightarrow> dst_len = src_len"
    using ut by (auto simp: encrypt_low_ut_ad_def)
  have T: "FIL_PAGE_TYPE L + 2 \<le> FIL_PAGE_DATA" and O: "FIL_PAGE_ORIGINAL_TYPE_V1 L + 2 \<le> FIL_PAGE_DATA"
    and V: "FIL_PAGE_ENCRYPTION_KEY_VERSION L + 4 \<le> FIL_PAGE_DATA"
    and TO: "FIL_PAGE_TYPE L + 2 \<le> FIL_PAGE_ORIGINAL_TYPE_V1 L \<or>
             FIL_PAGE_ORIGINAL_TYPE_V1 L + 2 \<le> FIL_PAGE_TYPE L"
    and TV: "FIL_PAGE_TYPE L + 2 \<le> FIL_PAGE_ENCRYPTION_KEY_VERSION L \<or>
             FIL_PAGE_ENCRYPTION_KEY_VERSION L + 4 \<le> FIL_PAGE_TYPE L"
    and OV: "FIL_PAGE_ORIGINAL_TYPE_V1 L + 2 \<le> FIL_PAGE_ENCRYPTION_KEY_VERSION L \<or>
             FIL_PAGE_ENCRYPTION_KEY_VERSION L + 4 \<le> FIL_PAGE_ORIGINAL_TYPE_V1 L"
    and ne: "FIL_PAGE_ENCRYPTED L \<noteq> FIL_PAGE_COMPRESSED_AND_ENCRYPTED L"
      "FIL_PAGE_COMPRESSED_AND_ENCRYPTED L \<noteq> FIL_PAGE_ENCRYPTED_RTREE L"
      "FIL_PAGE_ENCRYPTED L \<noteq> FIL_PAGE_ENCRYPTED_RTREE L"
    using lay by (auto simp: layout_ok_def disjoint_fields_def)
  have pc: "pt' \<noteq> FIL_PAGE_COMPRESSED_AND_ENCRYPTED L" unfolding pt'_def using ne by auto
  from run ok ut lay small obtain page_type0 src_enc_len data_len p c y where
    pt0: "mach_read_from_2 P (FIL_PAGE_TYPE L) = Some page_type0"
    and sel: "encrypt_low_src_enc_len L P src_len page_type0 = Some src_enc_len"
    and dl: "encrypt_low_data_len L this type page_type0 src_enc_len = Some data_len"
    and big: "2 * MY_AES_BLOCK_SIZE \<le> data_len" and sm: "data_len < 2 ^ 32"
    and p: "bytes_at P FIL_PAGE_DATA data_len = Some p"
    and c: "enc_pass X this (take (data_len div MY_AES_BLOCK_SIZE * MY_AES_BLOCK_SIZE) p) = Some c"
    and lc: "length c = data_len div MY_AES_BLOCK_SIZE * MY_AES_BLOCK_SIZE"
    and y1: "data_len = data_len div MY_AES_BLOCK_SIZE * MY_AES_BLOCK_SIZE \<longrightarrow> y = c"
    and y2: "data_len \<noteq> data_len div MY_AES_BLOCK_SIZE * MY_AES_BLOCK_SIZE \<longrightarrow>
       (\<exists>buf. enc_pass X this
                 (drop (data_len - 2 * MY_AES_BLOCK_SIZE)
                    (c @ drop (data_len div MY_AES_BLOCK_SIZE * MY_AES_BLOCK_SIZE) p)) = Some buf \<and>
              length buf = 2 * MY_AES_BLOCK_SIZE \<and>
              y = take (data_len - 2 * MY_AES_BLOCK_SIZE)
                    (c @ drop (data_len div MY_AES_BLOCK_SIZE * MY_AES_BLOCK_SIZE) p) @ buf)"
    and y0: "bytes_at (dst_out r)
       (if m_type this = KEYRING \<and> page_type0 = FIL_PAGE_COMPRESSED L
        then FIL_PAGE_DATA + 8 else FIL_PAGE_DATA) data_len = Some y"
    by (rule encrypt_low_cipher_text)
  have same: "page_type0 = page_type" using pt pt0 by simp
  have y: "bytes_at E FIL_PAGE_DATA data_len = Some y"
    using y0 nc unfolding same E_def by simp
  have sl: "src_enc_len = src_len"
    using sel nc unfolding same by (simp add: encrypt_low_src_enc_len_def)
  have mt: "m_type this \<noteq> NONE"
    using run ok by (rule encrypt_low_SomeE)
  have dlv: "data_len = (if K then src_len - FIL_PAGE_DATA - 4 else src_len - FIL_PAGE_DATA)"
    and dlb: "FIL_PAGE_DATA \<le> src_len" "K \<longrightarrow> FIL_PAGE_DATA + 4 \<le> src_len"
    using dl nc unfolding same sl K_def
    by (auto simp: encrypt_low_data_len_def usub_Some split: if_splits bind_splits)
  have lE: "length E = length D"
    unfolding E_def using encrypt_low_lengths [OF run] by simp
  have hE: "FIL_PAGE_DATA \<le> length E" using dlb roomD lE by simp
  have et: "mach_read_from_2 E (FIL_PAGE_TYPE L) = Some pt'"
    unfolding E_def pt'_def using encrypt_low_type [OF run ok len pt lay] nc by simp
  obtain original_type where ot: "mach_read_from_2 E (FIL_PAGE_ORIGINAL_TYPE_V1 L) = Some original_type"
    using O hE by (simp add: mach_read_from_2_def)
  have otp: "page_type \<noteq> FIL_PAGE_RTREE L \<Longrightarrow> original_type = page_type"
    using encrypt_low_original_type [OF run ok len pt lay nc] ot unfolding E_def by simp
  have dsl: "decrypt_src_len L X type E src_len pt' = Some src_len"
    using pc by (simp add: decrypt_src_len_def)
  have ke: "K \<Longrightarrow> pt' = FIL_PAGE_ENCRYPTED L"
    using rt unfolding K_def pt'_def by simp
  have ddl: "decrypt_data_len L this type pt' src_len FIL_PAGE_DATA = Some data_len"
  proof (cases K)
    case True
    then show ?thesis
      using ke dlv dlb pc unfolding K_def by (simp add: decrypt_data_len_def usub_def)
  next
    case False
    then show ?thesis
      using dlv dlb pc unfolding K_def by (auto simp: decrypt_data_len_def usub_def)
  qed
  have lp: "length p = data_len" using p by (rule bytes_at_length)
  have room: "FIL_PAGE_DATA + data_len \<le> length E"
    using y by (simp add: bytes_at_Some)
  have dle: "data_len \<le> src_len" using dlv by (simp split: if_splits)
  have "\<exists>R1 S1. decrypt_data L X this E blk pt' FIL_PAGE_DATA data_len = Some (True, R1, S1) \<and>
           memcpy E FIL_PAGE_DATA p = Some R1 \<and> length S1 = length blk"
    using inv big sm y _ lp c lc y1 y2 _ room
  proof (rule decrypt_data_run)
    show "data_len \<le> length blk" using roomS dle unfolding blk_def by simp
    show "(if m_type this = KEYRING \<and> pt' = FIL_PAGE_COMPRESSED_AND_ENCRYPTED L
           then do {
             ptr \<leftarrow> usub FIL_PAGE_DATA 8;
             src \<leftarrow> memset E (ptr + data_len) 0 8;
             Some (src, ptr)
           } else Some (E, FIL_PAGE_DATA)) = Some (E, FIL_PAGE_DATA)"
      using pc by simp
  qed
  then obtain R1 S1 where
    dd: "decrypt_data L X this E blk pt' FIL_PAGE_DATA data_len = Some (True, R1, S1)"
    and r1: "memcpy E FIL_PAGE_DATA p = Some R1"
    by blast
  have l1: "length R1 = length E" using r1 by (rule memcpy_length)
  have tlf: "FIL_PAGE_LSN L + 8 \<le> FIL_PAGE_DATA"
    and lt: "FIL_PAGE_LSN L + 8 \<le> FIL_PAGE_TYPE L \<or> FIL_PAGE_TYPE L + 2 \<le> FIL_PAGE_LSN L + 4"
    and lo: "FIL_PAGE_LSN L + 8 \<le> FIL_PAGE_ORIGINAL_TYPE_V1 L
             \<or> FIL_PAGE_ORIGINAL_TYPE_V1 L + 2 \<le> FIL_PAGE_LSN L + 4"
    and lv: "FIL_PAGE_LSN L + 8 \<le> FIL_PAGE_ENCRYPTION_KEY_VERSION L
             \<or> FIL_PAGE_ENCRYPTION_KEY_VERSION L + 4 \<le> FIL_PAGE_LSN L + 4"
    using tl by (auto simp: trailer_layout_ok_def disjoint_fields_def)
  have h1: "FIL_PAGE_DATA \<le> length R1" using hE l1 by simp
  have h2: "m_type this = KEYRING \<and> \<not> is_page_zip_compressed type \<longrightarrow>
            FIL_PAGE_LSN L + 8 \<le> length R1 \<and> FIL_PAGE_DATA + 4 \<le> src_len \<and> src_len \<le> length R1"
    using tlf hE l1 dlb roomD lE unfolding K_def by simp
  have "\<exists>R. decrypt_header L this type R1 src_len pt' original_type = Some R \<and>
    length R = length R1 \<and>
    (\<forall>i. i < length R1 \<longrightarrow> i < FIL_PAGE_TYPE L \<or> FIL_PAGE_TYPE L + 2 \<le> i \<longrightarrow>
       i < FIL_PAGE_ORIGINAL_TYPE_V1 L \<or> FIL_PAGE_ORIGINAL_TYPE_V1 L + 2 \<le> i \<longrightarrow>
       \<not> (m_type this = KEYRING \<and> \<not> is_page_zip_compressed type \<and> src_len \<le> i + 4 \<and> i < src_len)
       \<longrightarrow> R ! i = R1 ! i) \<and>
    (\<forall>j. m_type this = KEYRING \<longrightarrow> \<not> is_page_zip_compressed type \<longrightarrow> j < 4 \<longrightarrow>
       R ! (src_len - 4 + j) = R1 ! (FIL_PAGE_LSN L + 4 + j)) \<and>
    (original_type \<noteq> FIL_PAGE_TYPE_ALLOCATED L \<longrightarrow>
       mach_read_from_2 R (FIL_PAGE_ORIGINAL_TYPE_V1 L) = Some (FIL_PAGE_ENCRYPTED L))"
    by (rule decrypt_header_plain [where original_type = original_type, OF pc lay h1 h2]) blast
  then obtain R where
    dh: "decrypt_header L this type R1 src_len pt' original_type = Some R"
    and lR: "length R = length R1"
    and frame: "\<And>i. i < length R1 \<Longrightarrow> i < FIL_PAGE_TYPE L \<or> FIL_PAGE_TYPE L + 2 \<le> i \<Longrightarrow>
       i < FIL_PAGE_ORIGINAL_TYPE_V1 L \<or> FIL_PAGE_ORIGINAL_TYPE_V1 L + 2 \<le> i \<Longrightarrow>
       \<not> (m_type this = KEYRING \<and> \<not> is_page_zip_compressed type \<and> src_len \<le> i + 4 \<and> i < src_len)
       \<Longrightarrow> R ! i = R1 ! i"
    and trail: "\<And>j. m_type this = KEYRING \<Longrightarrow> \<not> is_page_zip_compressed type \<Longrightarrow> j < 4 \<Longrightarrow>
       R ! (src_len - 4 + j) = R1 ! (FIL_PAGE_LSN L + 4 + j)"
    and orig: "original_type \<noteq> FIL_PAGE_TYPE_ALLOCATED L \<Longrightarrow>
       mach_read_from_2 R (FIL_PAGE_ORIGINAL_TYPE_V1 L) = Some (FIL_PAGE_ENCRYPTED L)"
    by blast
  have dec: "decrypt L X this type E src_len S scratch_len
               = Some (DB_SUCCESS, R, map_option (\<lambda>_. S1) S)"
    using et _ mt dsl ot
  proof (rule decrypt_runI)
    show "pt' = FIL_PAGE_ENCRYPTED L \<or> pt' = FIL_PAGE_COMPRESSED_AND_ENCRYPTED L
           \<or> pt' = FIL_PAGE_ENCRYPTED_RTREE L"
      unfolding pt'_def by simp
    show "decrypt_data_len L this type pt' src_len
       (if m_type this = KEYRING \<and> pt' = FIL_PAGE_COMPRESSED_AND_ENCRYPTED L
        then FIL_PAGE_DATA + 8 else FIL_PAGE_DATA) = Some data_len"
      using ddl pc by simp
    show "decrypt_data L X this E (case S of None \<Rightarrow> os_alloc_block X | Some d \<Rightarrow> d) pt'
       (if m_type this = KEYRING \<and> pt' = FIL_PAGE_COMPRESSED_AND_ENCRYPTED L
        then FIL_PAGE_DATA + 8 else FIL_PAGE_DATA) data_len = Some (True, R1, S1)"
      using dd pc unfolding blk_def by simp
    show "decrypt_header L this type R1 src_len pt' original_type = Some R" by (rule dh)
  qed
  \<comment> \<open>the restored page type\<close>
  have rtp: "mach_read_from_2 R (FIL_PAGE_TYPE L) = Some page_type"
  proof -
    have "mach_read_from_2 R (FIL_PAGE_TYPE L) =
           Some (if pt' = FIL_PAGE_ENCRYPTED L then original_type
                 else if pt' = FIL_PAGE_ENCRYPTED_RTREE L then FIL_PAGE_RTREE L
                 else FIL_PAGE_COMPRESSED L)"
      using dh by (rule decrypt_header_type) (use lay in \<open>simp add: layout_ok_def\<close>)
    then show ?thesis
      using otp ne unfolding pt'_def by (auto split: if_splits)
  qed
  show ?thesis
  proof (rule that [OF dec [unfolded E_def]])
    show "length R = length D" using lR l1 lE by simp
  next
    fix i assume i: "i < src_len"
      and a: "i < FIL_PAGE_ORIGINAL_TYPE_V1 L \<or> FIL_PAGE_ORIGINAL_TYPE_V1 L + 2 \<le> i"
      and b: "m_type this \<noteq> KEYRING \<or> i < FIL_PAGE_ENCRYPTION_KEY_VERSION L
         \<or> FIL_PAGE_ENCRYPTION_KEY_VERSION L + 4 \<le> i"
      and m: "\<not> (m_type this = KEYRING \<and> is_page_zip_compressed type
              \<and> m_encryption_rotation this = MASTER_KEY_TO_KEYRING) \<or>
         i < FIL_PAGE_ZIP_KEYRING_ENCRYPTION_MAGIC L \<or>
         FIL_PAGE_ZIP_KEYRING_ENCRYPTION_MAGIC L + length (ZIP_PAGE_KEYRING_ENCRYPTION_MAGIC L) \<le> i"
      and e: "\<not> (m_type this = KEYRING \<and> \<not> is_page_zip_compressed type) \<or> i + 4 < src_len"
    have iE: "i < length E" using i roomD lE by simp
    show "R ! i = P ! i"
    proof (cases "FIL_PAGE_TYPE L \<le> i \<and> i < FIL_PAGE_TYPE L + 2")
      case True
      then show ?thesis using mach_read_from_2_same_bytes [OF rtp pt] by simp
    next
      case False
      have "R ! i = R1 ! i"
        using e False a iE l1 by (intro frame) auto
      also have "R1 ! i = P ! i"
      proof (cases "i < FIL_PAGE_DATA")
        case True
        have "R1 ! i = E ! i"
          using r1 iE by (rule memcpy_nth_outside) (use True in simp)
        also have "\<dots> = P ! i"
          unfolding E_def using run ok len pt True
          by (rule encrypt_low_header_byte) (use False a b m nc in auto)
        finally show ?thesis .
      next
        case ge: False
        have il: "i < FIL_PAGE_DATA + data_len"
          using e i ge dlv unfolding K_def by (auto split: if_splits)
        have "R1 ! i = p ! (i - FIL_PAGE_DATA)"
          using r1 by (rule memcpy_nth_inside) (use ge il lp in simp_all)
        also have "\<dots> = P ! (FIL_PAGE_DATA + (i - FIL_PAGE_DATA))"
          using p by (rule bytes_at_nth) (use ge il in simp)
        finally show ?thesis using ge by simp
      qed
      finally show ?thesis .
    qed
  next
    fix j :: nat
    assume k: "m_type this = KEYRING" "\<not> is_page_zip_compressed type" and j: "j < 4"
    have lj: "FIL_PAGE_LSN L + 4 + j < FIL_PAGE_DATA" using tlf j by simp
    have "R ! (src_len - 4 + j) = R1 ! (FIL_PAGE_LSN L + 4 + j)" using k j by (rule trail)
    also have "\<dots> = E ! (FIL_PAGE_LSN L + 4 + j)"
      using r1 by (rule memcpy_nth_outside) (use lj hE in simp_all)
    also have "\<dots> = P ! (FIL_PAGE_LSN L + 4 + j)"
      unfolding E_def using run ok len pt lj
      by (rule encrypt_low_header_byte) (use lt lo lv j k in auto)
    finally show "R ! (src_len - 4 + j) = P ! (FIL_PAGE_LSN L + 4 + j)" .
  next
    assume "page_type \<noteq> FIL_PAGE_RTREE L" "page_type \<noteq> FIL_PAGE_TYPE_ALLOCATED L"
    then show "mach_read_from_2 R (FIL_PAGE_ORIGINAL_TYPE_V1 L) = Some (FIL_PAGE_ENCRYPTED L)"
      using otp by (intro orig) simp
  next
    assume k: "m_type this = KEYRING"
    from run ok obtain d3 where
      kr: "encrypt_low_keyring L X this type P d3 dst_len page_type
             = Some (this_out r, src_out r, dst_out r)"
      by (rule encrypt_low_SomeE) (use k pt in simp)
    have "is_page_zip_compressed type \<or> FIL_PAGE_ENCRYPTION_KEY_VERSION L + 8 \<le> dst_len"
      using dlb V len k unfolding K_def by auto
    with kr nc have ev: "mach_read_from_4 E (FIL_PAGE_ENCRYPTION_KEY_VERSION L) = Some (m_key_version this)"
      unfolding E_def by (rule encrypt_low_keyring_dst_version)
    have same_byte: "R ! i = E ! i"
      if i: "FIL_PAGE_ENCRYPTION_KEY_VERSION L \<le> i" "i < FIL_PAGE_ENCRYPTION_KEY_VERSION L + 4" for i
    proof -
      have il: "i < FIL_PAGE_DATA" using i V by simp
      have ntr: "\<not> (m_type this = KEYRING \<and> \<not> is_page_zip_compressed type \<and> src_len \<le> i + 4 \<and> i < src_len)"
        using dlb il unfolding K_def by auto
      have "R ! i = R1 ! i"
        using ntr by (intro frame) (use i TV OV il hE l1 in auto)
      also have "\<dots> = E ! i"
        using r1 by (rule memcpy_nth_outside) (use il hE in simp_all)
      finally show ?thesis .
    qed
    have "mach_read_from_4 R (FIL_PAGE_ENCRYPTION_KEY_VERSION L)
            = mach_read_from_4 E (FIL_PAGE_ENCRYPTION_KEY_VERSION L)"
      by (rule mach_read_from_4_eqI) (use lR l1 in \<open>simp_all add: same_byte\<close>)
    then show "mach_read_from_4 R (FIL_PAGE_ENCRYPTION_KEY_VERSION L) = Some (m_key_version this)"
      using ev by simp
  qed
qed

lemma cipher_ok_inverse:
  assumes "cipher_ok X" and "length x mod MY_AES_BLOCK_SIZE = 0"
    and "my_aes_encrypt X x key klen mode iv False = Some c"
  shows "my_aes_decrypt X c key klen mode iv False = Some x"
proof -
  from assms(1) [unfolded cipher_ok_def, rule_format, OF assms(2), of key klen mode iv]
  obtain c' where "my_aes_encrypt X x key klen mode iv False = Some c'"
    and "my_aes_decrypt X c' key klen mode iv False = Some x"
    by auto
  then show ?thesis using assms(3) by simp
qed

lemma cipher_ok_stand_in: "cipher_ok stand_in"
  by (simp add: cipher_ok_def stand_in_def shift_encrypt_def shift_decrypt_def
        MY_AES_BLOCK_SIZE_def o_def)

lemma trailer_layout_ok_fil0types: "trailer_layout_ok fil0types"
  by (simp add: trailer_layout_ok_def disjoint_fields_def fil0types_def FIL_PAGE_DATA_def)

lemma encrypt_low_ut_ad_keyring80: "encrypt_low_ut_ad fil0types ctx_keyring plain_io page80 80 80"
  by (simp add: page_defs Let_def)

lemma decrypt_keyring80:
  "decrypt fil0types stand_in ctx_keyring plain_io (dst_out run_keyring80) 80 None 80
     = Some (DB_SUCCESS, back_keyring80, None)"
  by (simp add: page_defs run_keyring80_def back_keyring80_def Let_def replicate_numeral)


section \<open>Log blocks\<close>

lemma encrypt_log_block_data_length:
  "encrypt_log_block_data G X this src dst data_len = Some (ok, d) \<Longrightarrow> length d = length dst"
  by (auto simp: encrypt_log_block_data_def Let_def
        split: bind_splits if_splits option.splits dest!: memcpy_length)

lemma decrypt_log_block_data_length:
  "decrypt_log_block_data G X this src dst data_len = Some (ok, s, d) \<Longrightarrow> length s = length src"
  by (auto simp: decrypt_log_block_data_def Let_def
        split: bind_splits if_splits option.splits prod.splits bool.splits dest!: memcpy_length)

lemma encrypt_log_block_SomeE:
  assumes "encrypt_log_block G X this src dst = Some (True, block)"
  obtains d where "length d = length dst"
    "block = (let b = log_block_set_encrypt_bit G d True in
              if m_type this = KEYRING
              then log_block_set_checksum G b
                     (ucast ((ucast (log_block_calc_checksum_crc32 G b) :: 64 word)
                             + ucast (m_key_version this)))
              else b)"
  using assms
  by (cases "m_type this")
     (auto simp: encrypt_log_block_def Let_def
        split: bind_splits if_splits prod.splits
        dest!: memcpy_length encrypt_log_block_data_length)

lemma encrypt_log_block_length:
  assumes "encrypt_log_block G X this src dst = Some (ok, block)" and "log0log_ok G"
    and "length dst = OS_FILE_LOG_BLOCK_SIZE"
  shows "length block = OS_FILE_LOG_BLOCK_SIZE"
proof (cases ok)
  case True
  with assms(1) obtain d where d: "length d = length dst"
    and b: "block = (let b = log_block_set_encrypt_bit G d True in
              if m_type this = KEYRING
              then log_block_set_checksum G b
                     (ucast ((ucast (log_block_calc_checksum_crc32 G b) :: 64 word)
                             + ucast (m_key_version this)))
              else b)"
    by (auto elim: encrypt_log_block_SomeE)
  have "length (log_block_set_encrypt_bit G d True) = OS_FILE_LOG_BLOCK_SIZE"
    using assms(2,3) d by (simp add: log0log_ok_def)
  then show ?thesis
    using assms(2) b by (simp add: log0log_ok_def Let_def)
next
  case False
  with assms(1) have "length block = length dst"
    by (cases "m_type this")
       (auto simp: encrypt_log_block_def Let_def
          split: bind_splits if_splits prod.splits
          dest!: memcpy_length encrypt_log_block_data_length)
  then show ?thesis using assms(3) by simp
qed

lemma decrypt_log_block_context:
  assumes "decrypt_log_block G X this src dst = Some (e, t, s, d)"
  shows "(if m_type this = KEYRING then decrypt_log_block_key G this src else Some this) = Some t"
  using assms
  by (cases "m_type this")
     (auto simp: decrypt_log_block_def Let_def
        split: bind_splits if_splits prod.splits)

lemma decrypt_log_block_key_type:
  "decrypt_log_block_key G this src = Some t \<Longrightarrow> m_type t = m_type this"
  by (auto simp: decrypt_log_block_key_def split: bind_splits if_splits)

lemma decrypt_log_block_cases:
  assumes "decrypt_log_block G X this src dst = Some (e, t, s, d)"
  shows "(m_type this = NONE \<and> e = DB_UNSUPPORTED \<and> s = src) \<or>
         (\<exists>data_len ok b. m_type this \<noteq> NONE \<and> m_type t = m_type this \<and>
            decrypt_log_block_data G X t src dst data_len = Some (ok, b, d) \<and>
            (if ok then e = DB_SUCCESS \<and>
               s = (let c = log_block_set_encrypt_bit G b False in
                    if m_type t = KEYRING
                    then log_block_set_checksum G c (log_block_calc_checksum_crc32 G c) else c)
             else e = DB_IO_DECRYPT_FAIL \<and> s = b))"
proof (cases "m_type this = NONE")
  case True
  with assms show ?thesis
    by (auto simp: decrypt_log_block_def split: bind_splits)
next
  case False
  from assms obtain data_len where dl: "log_block_data_len G this = Some data_len"
    by (auto simp: decrypt_log_block_def split: bind_splits)
  from False assms dl have
    r: "(do {
         this \<leftarrow> (if m_type this = KEYRING then decrypt_log_block_key G this src else Some this);
         (ok, src, dst) \<leftarrow> decrypt_log_block_data G X this src dst data_len;
         if \<not> ok then Some (DB_IO_DECRYPT_FAIL, this, src, dst)
         else do {
           let src = log_block_set_encrypt_bit G src False;
           let src =
             (if m_type this = KEYRING
              then log_block_set_checksum G src (log_block_calc_checksum_crc32 G src)
              else src);
           Some (DB_SUCCESS, this, src, dst)
         }
       }) = Some (e, t, s, d)"
    by (cases "m_type this") (simp_all add: decrypt_log_block_def)
  then obtain t' where t': "(if m_type this = KEYRING then decrypt_log_block_key G this src else Some this) = Some t'"
    by (auto split: bind_splits)
  then have mt: "m_type t' = m_type this"
    by (auto simp: decrypt_log_block_key_type split: if_splits)
  from r t' obtain ok b d' where dd: "decrypt_log_block_data G X t' src dst data_len = Some (ok, b, d')"
    by (auto split: bind_splits)
  show ?thesis
  proof (cases ok)
    case True
    with r t' dd have "e = DB_SUCCESS" "t = t'" "d = d'"
      "s = (let c = log_block_set_encrypt_bit G b False in
                    if m_type t' = KEYRING
                    then log_block_set_checksum G c (log_block_calc_checksum_crc32 G c) else c)"
      by (auto simp: Let_def)
    with False mt dd True show ?thesis by auto
  next
    case f: False
    with r t' dd have "e = DB_IO_DECRYPT_FAIL" "t = t'" "d = d'" "s = b"
      by auto
    with False mt dd f show ?thesis by auto
  qed
qed

lemma decrypt_log_block_length:
  assumes "decrypt_log_block G X this src dst = Some (e, t, s, d)" and "log0log_ok G"
    and "length src = OS_FILE_LOG_BLOCK_SIZE"
  shows "length s = OS_FILE_LOG_BLOCK_SIZE"
proof -
  from decrypt_log_block_cases [OF assms(1)] show ?thesis
  proof (elim disjE exE conjE)
    assume "s = src"
    then show ?thesis using assms(3) by simp
  next
    fix data_len ok b
    assume dd: "decrypt_log_block_data G X t src dst data_len = Some (ok, b, d)"
      and r: "if ok then e = DB_SUCCESS \<and>
               s = (let c = log_block_set_encrypt_bit G b False in
                    if m_type t = KEYRING
                    then log_block_set_checksum G c (log_block_calc_checksum_crc32 G c) else c)
             else e = DB_IO_DECRYPT_FAIL \<and> s = b"
    have lb: "length b = OS_FILE_LOG_BLOCK_SIZE"
      using decrypt_log_block_data_length [OF dd] assms(3) by simp
    then have "length (log_block_set_encrypt_bit G b False) = OS_FILE_LOG_BLOCK_SIZE"
      using assms(2) by (simp add: log0log_ok_def)
    then show ?thesis
      using r lb assms(2) by (cases ok) (simp_all add: log0log_ok_def Let_def)
  qed
qed

lemma byte_sum_Nil: "byte_sum [] = 0" by (simp add: byte_sum_def)
lemma byte_sum_Cons: "byte_sum (x # xs) = ucast x + byte_sum xs" by (simp add: byte_sum_def)
lemma byte_sum_append: "byte_sum (xs @ ys) = byte_sum xs + byte_sum ys"
  by (induction xs) (simp_all add: byte_sum_Nil byte_sum_Cons)
lemma byte_sum_replicate: "byte_sum (replicate n x) = of_nat n * ucast x"
  by (induction n) (simp_all add: byte_sum_Nil byte_sum_Cons algebra_simps)

text \<open>Runs of the log block functions on a payload of whole cipher blocks.\<close>

lemma encrypt_log_block_data_run:
  assumes "data_len mod MY_AES_BLOCK_SIZE = 0" and "data_len < 2 ^ 32"
    and "bytes_at src (LOG_BLOCK_HDR_SIZE G) data_len = Some plain"
    and "my_aes_encrypt X plain (m_key this) (m_klen this mod 2 ^ 32) my_aes_256_cbc
           (Some (m_iv this)) False = Some c"
    and "length c = data_len"
    and "memcpy dst (LOG_BLOCK_HDR_SIZE G) c = Some d1"
    and "LOG_BLOCK_HDR_SIZE G + data_len \<le> OS_FILE_LOG_BLOCK_SIZE"
    and "bytes_at src (LOG_BLOCK_HDR_SIZE G + data_len)
           (OS_FILE_LOG_BLOCK_SIZE - LOG_BLOCK_HDR_SIZE G - data_len) = Some rest"
    and "memcpy d1 (LOG_BLOCK_HDR_SIZE G + data_len) rest = Some d2"
  shows "encrypt_log_block_data G X this src dst data_len = Some (True, d2)"
proof -
  have m: "data_len div MY_AES_BLOCK_SIZE * MY_AES_BLOCK_SIZE = data_len"
    using div_mult_mod_eq [of data_len MY_AES_BLOCK_SIZE] assms(1) by simp
  show ?thesis
    using assms by (simp add: encrypt_log_block_data_def m usub_def)
qed

lemma encrypt_log_block_run:
  assumes "log_block_data_len G this = Some data_len"
    and "bytes_at src 0 (LOG_BLOCK_HDR_SIZE G) = Some h"
    and "memcpy dst 0 h = Some d0"
    and "m_type this = KEYRING"
    and "encrypt_log_block_data G X this src d0 data_len = Some (True, d2)"
    and "log_block_set_encrypt_bit G d2 True = b"
    and "log_block_calc_checksum_crc32 G b + m_key_version this = cs"
  shows "encrypt_log_block G X this src dst = Some (True, log_block_set_checksum G b cs)"
  using assms by (simp add: encrypt_log_block_def ucast_sum_64_32)

lemma decrypt_log_block_data_run:
  assumes "data_len mod MY_AES_BLOCK_SIZE = 0" and "data_len < 2 ^ 32"
    and "bytes_at src (LOG_BLOCK_HDR_SIZE G) data_len = Some other"
    and "memcpy dst 0 other = Some d1"
    and "bytes_at d1 0 data_len = Some main"
    and "my_aes_decrypt X main (m_key this) (m_klen this mod 2 ^ 32) my_aes_256_cbc
           (Some (m_iv this)) False = Some m"
    and "memcpy src (LOG_BLOCK_HDR_SIZE G) m = Some s1"
    and "data_len \<le> length d1" and "LOG_BLOCK_HDR_SIZE G + data_len \<le> length s1"
  shows "decrypt_log_block_data G X this src dst data_len = Some (True, s1, d1)"
proof -
  have m: "data_len div MY_AES_BLOCK_SIZE * MY_AES_BLOCK_SIZE = data_len"
    using div_mult_mod_eq [of data_len MY_AES_BLOCK_SIZE] assms(1) by simp
  have "bytes_at d1 data_len 0 = Some []"
    using assms(8) by (simp add: bytes_at_def)
  moreover have "memcpy s1 (LOG_BLOCK_HDR_SIZE G + data_len) [] = Some s1"
    using assms(9) by (simp add: memcpy_def)
  ultimately show ?thesis
    using assms by (simp add: decrypt_log_block_data_def m)
qed

lemma decrypt_log_block_run:
  assumes "log_block_data_len G this = Some data_len"
    and "m_type this = KEYRING"
    and "decrypt_log_block_key G this src = Some t"
    and "decrypt_log_block_data G X t src dst data_len = Some (True, s1, d1)"
    and "log_block_set_encrypt_bit G s1 False = b"
    and "log_block_calc_checksum_crc32 G b = crc"
  shows "decrypt_log_block G X this src dst = Some (DB_SUCCESS, t, log_block_set_checksum G b crc, d1)"
  using assms decrypt_log_block_key_type [OF assms(3)]
  by (simp add: decrypt_log_block_def)


lemmas log_std = log0log_std_def OS_FILE_LOG_BLOCK_SIZE_def MY_AES_BLOCK_SIZE_def

lemma log_block_data_len_keyring:
  "m_type this = KEYRING \<Longrightarrow> log_block_data_len log0log_std this = Some 496"
  by (simp add: log_block_data_len_def log_std usub_def)

lemma encrypt_log_block_data_512:
  "m_type this = KEYRING \<Longrightarrow>
   encrypt_log_block_data log0log_std stand_in this log_block512
     ([0, 0, 0, 7, 1, 0, 0, 12, 0, 0, 0, 3] @ replicate 500 0) 496
   = Some (True, [0, 0, 0, 7, 1, 0, 0, 12, 0, 0, 0, 3] @ replicate 496 0x22 @ [0, 0, 0, 0])"
proof (rule encrypt_log_block_data_run)
  show "bytes_at log_block512 (LOG_BLOCK_HDR_SIZE log0log_std) 496 = Some (replicate 496 0x21)"
    by (simp add: bytes_at_def log_block512_def log_std)
  show "my_aes_encrypt stand_in (replicate 496 0x21) (m_key this) (m_klen this mod 2 ^ 32)
          my_aes_256_cbc (Some (m_iv this)) False = Some (replicate 496 0x22)"
    by (simp add: stand_in_def shift_encrypt_def)
  show "memcpy ([0, 0, 0, 7, 1, 0, 0, 12, 0, 0, 0, 3] @ replicate 500 0)
          (LOG_BLOCK_HDR_SIZE log0log_std) (replicate 496 0x22)
        = Some ([0, 0, 0, 7, 1, 0, 0, 12, 0, 0, 0, 3] @ replicate 496 0x22 @ replicate 4 0)"
    by (simp add: memcpy_def log_std)
  show "bytes_at log_block512 (LOG_BLOCK_HDR_SIZE log0log_std + 496)
          (OS_FILE_LOG_BLOCK_SIZE - LOG_BLOCK_HDR_SIZE log0log_std - 496) = Some [0, 0, 0, 0]"
    by (simp add: bytes_at_def log_block512_def log_std)
  show "memcpy ([0, 0, 0, 7, 1, 0, 0, 12, 0, 0, 0, 3] @ replicate 496 0x22 @ replicate 4 0)
          (LOG_BLOCK_HDR_SIZE log0log_std + 496) [0, 0, 0, 0]
        = Some ([0, 0, 0, 7, 1, 0, 0, 12, 0, 0, 0, 3] @ replicate 496 0x22 @ [0, 0, 0, 0])"
    by (simp add: memcpy_def log_std)
qed (simp_all add: log_std)

lemma encrypt_log_block_512:
  assumes "m_type this = KEYRING"
  shows "encrypt_log_block log0log_std stand_in this log_block512 (replicate 512 0)
    = Some (True, [0, 0, 0, 7, 0x81, 0, 0, 12, 0, 0, 0, 3] @ replicate 496 0x22
                    @ bytes_of_4 (0x4277 + m_key_version this))"
proof -
  have "encrypt_log_block log0log_std stand_in this log_block512 (replicate 512 0)
    = Some (True, log_block_set_checksum log0log_std
         ([0, 0, 0, 7, 0x81, 0, 0, 12, 0, 0, 0, 3] @ replicate 496 0x22 @ [0, 0, 0, 0])
         (0x4277 + m_key_version this))"
  proof (rule encrypt_log_block_run [OF log_block_data_len_keyring [OF assms] _ _ assms
          encrypt_log_block_data_512 [OF assms]])
    show "bytes_at log_block512 0 (LOG_BLOCK_HDR_SIZE log0log_std)
            = Some [0, 0, 0, 7, 1, 0, 0, 12, 0, 0, 0, 3]"
      by (simp add: bytes_at_def log_block512_def log_std)
    show "memcpy (replicate 512 0) 0 [0, 0, 0, 7, 1, 0, 0, 12, 0, 0, 0, 3]
            = Some ([0, 0, 0, 7, 1, 0, 0, 12, 0, 0, 0, 3] @ replicate 500 0)"
      by (simp add: memcpy_def)
    show "log_block_set_encrypt_bit log0log_std
            ([0, 0, 0, 7, 1, 0, 0, 12, 0, 0, 0, 3] @ replicate 496 0x22 @ [0, 0, 0, 0]) True
          = [0, 0, 0, 7, 0x81, 0, 0, 12, 0, 0, 0, 3] @ replicate 496 0x22 @ [0, 0, 0, 0]"
      by (simp add: log_std)
    show "log_block_calc_checksum_crc32 log0log_std
            ([0, 0, 0, 7, 0x81, 0, 0, 12, 0, 0, 0, 3] @ replicate 496 0x22 @ [0, 0, 0, 0])
            + m_key_version this = 0x4277 + m_key_version this"
      by (simp add: log_std byte_sum_append byte_sum_replicate byte_sum_Cons byte_sum_Nil)
  qed
  then show ?thesis by (simp add: log_std)
qed


lemma decrypt_log_block_data_512:
  assumes "length trl = 4"
  shows "decrypt_log_block_data log0log_std stand_in t
     ([0, 0, 0, 7, 0x81, 0, 0, 12, 0, 0, 0, 3] @ replicate 496 0x22 @ trl) (replicate 512 0) 496
   = Some (True, [0, 0, 0, 7, 0x81, 0, 0, 12, 0, 0, 0, 3] @ replicate 496 0x21 @ trl,
           replicate 496 0x22 @ replicate 16 0)"
proof (rule decrypt_log_block_data_run)
  show "bytes_at ([0, 0, 0, 7, 0x81, 0, 0, 12, 0, 0, 0, 3] @ replicate 496 0x22 @ trl)
          (LOG_BLOCK_HDR_SIZE log0log_std) 496 = Some (replicate 496 0x22)"
    using assms by (simp add: bytes_at_def log_std)
  show "memcpy (replicate 512 0) 0 (replicate 496 0x22) = Some (replicate 496 0x22 @ replicate 16 0)"
    by (simp add: memcpy_def)
  show "bytes_at (replicate 496 0x22 @ replicate 16 0) 0 496 = Some (replicate 496 0x22)"
    by (simp add: bytes_at_def)
  show "my_aes_decrypt stand_in (replicate 496 0x22) (m_key t) (m_klen t mod 2 ^ 32)
          my_aes_256_cbc (Some (m_iv t)) False = Some (replicate 496 0x21)"
    by (simp add: stand_in_def shift_decrypt_def)
  show "memcpy ([0, 0, 0, 7, 0x81, 0, 0, 12, 0, 0, 0, 3] @ replicate 496 0x22 @ trl)
          (LOG_BLOCK_HDR_SIZE log0log_std) (replicate 496 0x21)
        = Some ([0, 0, 0, 7, 0x81, 0, 0, 12, 0, 0, 0, 3] @ replicate 496 0x21 @ trl)"
    using assms by (simp add: memcpy_def log_std)
qed (use assms in \<open>simp_all add: log_std\<close>)

lemma decrypt_log_block_512:
  assumes "m_type this = KEYRING" and "length trl = 4"
    and "decrypt_log_block_key log0log_std this
           ([0, 0, 0, 7, 0x81, 0, 0, 12, 0, 0, 0, 3] @ replicate 496 0x22 @ trl) = Some t"
  shows "decrypt_log_block log0log_std stand_in this
           ([0, 0, 0, 7, 0x81, 0, 0, 12, 0, 0, 0, 3] @ replicate 496 0x22 @ trl) (replicate 512 0)
    = Some (DB_SUCCESS, t, dec_block512, replicate 496 0x22 @ replicate 16 0)"
proof -
  have "decrypt_log_block log0log_std stand_in this
           ([0, 0, 0, 7, 0x81, 0, 0, 12, 0, 0, 0, 3] @ replicate 496 0x22 @ trl) (replicate 512 0)
    = Some (DB_SUCCESS, t, log_block_set_checksum log0log_std
         ([0, 0, 0, 7, 1, 0, 0, 12, 0, 0, 0, 3] @ replicate 496 0x21 @ trl) 0x4007,
         replicate 496 0x22 @ replicate 16 0)"
  proof (rule decrypt_log_block_run [OF log_block_data_len_keyring [OF assms(1)] assms(1,3)
            decrypt_log_block_data_512 [OF assms(2)]])
    show "log_block_set_encrypt_bit log0log_std
            ([0, 0, 0, 7, 0x81, 0, 0, 12, 0, 0, 0, 3] @ replicate 496 0x21 @ trl) False
          = [0, 0, 0, 7, 1, 0, 0, 12, 0, 0, 0, 3] @ replicate 496 0x21 @ trl"
      by (simp add: log_std)
    show "log_block_calc_checksum_crc32 log0log_std
            ([0, 0, 0, 7, 1, 0, 0, 12, 0, 0, 0, 3] @ replicate 496 0x21 @ trl) = 0x4007"
      by (simp add: log_std byte_sum_append byte_sum_replicate byte_sum_Cons byte_sum_Nil)
  qed
  then show ?thesis using assms(2) by (simp add: log_std dec_block512_def bytes_of_4_def)
qed

lemma enc_key_version_512:
  "enc_key_version log0log_std
     ([0, 0, 0, 7, 0x81, 0, 0, 12, 0, 0, 0, 3] @ replicate 496 0x22 @ bytes_of_4 (0x4277 + v))
   = ucast (0x4277 + v) - 0x4277"
  by (simp add: enc_key_version_def log_std mach_read_from_4_def nth_append
        byte_sum_append byte_sum_replicate byte_sum_Cons byte_sum_Nil)
     (simp add: bytes_of_4_def word32_of_bytes)

lemma log0log_ok_std: "log0log_ok log0log_std"
  by (simp add: log0log_ok_def log_std mach_read_from_4_def bytes_at_def bytes_of_4_def
        nth_append word32_of_bytes)

lemma encrypt_log_block_checksum:
  assumes "log0log_ok G" and "m_type this = KEYRING"
    and "length dst = OS_FILE_LOG_BLOCK_SIZE"
    and "encrypt_log_block G X this src dst = Some (True, block)"
  shows "log_block_get_checksum G block
           = log_block_calc_checksum_crc32 G block + m_key_version this"
proof -
  from assms(4) obtain d where d: "length d = length dst"
    and b: "block = (let b = log_block_set_encrypt_bit G d True in
              if m_type this = KEYRING
              then log_block_set_checksum G b
                     (ucast ((ucast (log_block_calc_checksum_crc32 G b) :: 64 word)
                             + ucast (m_key_version this)))
              else b)"
    by (auto elim: encrypt_log_block_SomeE)
  define c where "c = log_block_set_encrypt_bit G d True"
  have lc: "length c = OS_FILE_LOG_BLOCK_SIZE"
    using assms(1,3) d by (simp add: log0log_ok_def c_def)
  have blk: "block = log_block_set_checksum G c (log_block_calc_checksum_crc32 G c + m_key_version this)"
    using b assms(2) by (simp add: Let_def c_def ucast_sum_64_32)
  have "log_block_get_checksum G block = log_block_calc_checksum_crc32 G c + m_key_version this"
    using assms(1) lc unfolding blk by (simp add: log0log_ok_def)
  moreover have "log_block_calc_checksum_crc32 G block = log_block_calc_checksum_crc32 G c"
    using assms(1) lc unfolding blk by (simp add: log0log_ok_def)
  ultimately show ?thesis by simp
qed

lemma decrypt_log_block_key_cases:
  assumes "decrypt_log_block_key G that block = Some t"
  shows "if ucast (m_key_version that) \<noteq> enc_key_version G block
             \<and> enc_key_version G block \<noteq> REDO_LOG_ENCRYPT_NO_VERSION G
         then \<exists>mkey. load_key_version G (m_key_id_uuid that) (enc_key_version G block) = Some mkey
                  \<and> t = that\<lparr>m_key_version := mkey_version mkey, m_key := mkey_key mkey\<rparr>
         else t = that"
  using assms by (auto simp: decrypt_log_block_key_def split: bind_splits if_splits)

lemma bytes_of_4_numeral:
  "bytes_of_4 (0x4277 + 5) = [0, 0, 0x42, 0x7C]"
  unfolding bytes_of_4_def
  by (simp_all add: word_eq_iff_unsigned [where 'a = nat] unsigned_ucast_eq take_bit_eq_mod
        drop_bit_eq_div)

lemma ctx_keyring_type: "m_type ctx_keyring = KEYRING" by (simp add: ctx_keyring_def)
lemma ctx_log_type: "m_type ctx_log = KEYRING" by (simp add: ctx_log_def ctx_keyring_def)
lemma encrypt_log_block_keyring512:
  "encrypt_log_block log0log_std stand_in ctx_keyring log_block512 (replicate 512 0)
     = Some (True, enc_block512)"
  using encrypt_log_block_512 [OF ctx_keyring_type]
  by (simp only: enc_block512_def bytes_of_4_numeral [symmetric]) (simp add: ctx_keyring_def)

lemma enc_key_version_enc_block512: "enc_key_version log0log_std enc_block512 = 5"
  using enc_key_version_512 [of 5] by (simp only: enc_block512_def bytes_of_4_numeral) simp

lemma decrypt_log_block_key_enc_block512:
  "decrypt_log_block_key log0log_std ctx_log enc_block512
     = Some (ctx_log\<lparr>m_key_version := 5, m_key := replicate 32 5\<rparr>)"
  by (simp add: decrypt_log_block_key_def enc_key_version_enc_block512)
     (simp add: log0log_std_def ctx_log_def ctx_keyring_def)

lemma decrypt_log_block_enc_block512:
  "decrypt_log_block log0log_std stand_in ctx_log enc_block512 (replicate 512 0)
     = Some (DB_SUCCESS, ctx_log\<lparr>m_key_version := 5, m_key := replicate 32 5\<rparr>, dec_block512,
             replicate 496 0x22 @ replicate 16 0)"
  using decrypt_log_block_512 [of ctx_log "[0, 0, 0x42, 0x7C]", OF ctx_log_type]
    decrypt_log_block_key_enc_block512
  by (simp add: enc_block512_def)








section \<open>The master key id\<close>

lemma create_master_key_id:
  assumes "create_master_key K g = (g', mk)"
  shows "s_master_key_id g' = s_master_key_id g \<or> s_master_key_id g' = s_master_key_id g + 1"
  using assms
  by (auto simp: create_master_key_def Let_def split: prod.splits if_splits)

lemma get_master_key_id:
  assumes "get_master_key K g mid = (g', mid', mk)"
  shows "s_master_key_id g' = s_master_key_id g \<or>
         s_master_key_id g = DEFAULT_MASTER_KEY_ID K \<and> s_master_key_id g' = s_master_key_id g + 1"
  using assms
  by (auto simp: get_master_key_def Let_def split: prod.splits if_splits)

lemma word32_le_Suc:
  assumes "(x :: 32 word) \<noteq> - 1"
  shows "x \<le> x + 1"
proof -
  have "(- 1 :: 32 word) = 0xFFFFFFFF" by simp
  then have m: "unat (- 1 :: 32 word) = 4294967295" by (simp only: unsigned_numeral) simp
  have "unat x \<noteq> unat (- 1 :: 32 word)"
    using assms by (simp only: word_unat_eq_iff not_False_eq_True)
  moreover have "unat x < 2 ^ 32"
    using unsigned_less [of x, where 'a = nat] by simp
  ultimately have "unat x + unat (1 :: 32 word) < 2 ^ LENGTH(32)"
    by (simp add: m)
  then have "unat (x + 1) = unat x + unat (1 :: 32 word)"
    by (simp only: unat_add_lem [of x 1])
  then show ?thesis
    by (simp add: word_le_nat_alt)
qed

lemma get_master_key_from_info_id:
  assumes "get_master_key_from_info K g info off version su = Some (ptr, mid, uuid, Some mk)"
  shows "mach_read_from_4 info off = Some mid"
  using assms
  by (cases version)
     (auto simp: get_master_key_from_info_def Let_def
        split: bind_splits if_splits option.splits)


lemma decode_key_info_id:
  assumes "decode_key_info K X g info version True su = Some (ptr, mid, uuid, Some key_info)"
  shows "mach_read_from_4 info (MAGIC_SIZE K) = Some mid"
proof -
  from assms obtain mk where
    "get_master_key_from_info K g info (MAGIC_SIZE K) version su = Some (ptr, mid, uuid, Some mk)"
    by (auto simp: decode_key_info_def Let_def
          split: bind_splits if_splits option.splits prod.splits)
  then show ?thesis by (rule get_master_key_from_info_id)
qed

lemma decode_key_info_SomeE:
  assumes "decode_key_info K X g info version True su = Some (ptr, mid, uuid, Some key_info)"
  obtains mk wrapped where
    "get_master_key_from_info K g info (MAGIC_SIZE K) version su = Some (ptr, mid, uuid, Some mk)"
    "bytes_at info ptr (2 * KEY_LEN K) = Some wrapped"
    "my_aes_decrypt X wrapped mk (KEY_LEN K) my_aes_256_ecb None False = Some key_info"
    "length key_info = 2 * KEY_LEN K"
  using assms
  by (auto simp: decode_key_info_def Let_def
        split: bind_splits if_splits option.splits prod.splits)

lemma decode_key_info_run:
  assumes "get_master_key_from_info K g info (MAGIC_SIZE K) version su = Some (ptr, mid, uuid, Some mk)"
    and "bytes_at info ptr (2 * KEY_LEN K) = Some wrapped"
    and "my_aes_decrypt X wrapped mk (KEY_LEN K) my_aes_256_ecb None False = Some key_info"
    and "length key_info = 2 * KEY_LEN K"
  shows "decode_key_info K X g info version True su = Some (ptr, mid, uuid, Some key_info)"
  using assms by (simp add: decode_key_info_def)

lemma decode_encryption_info_SomeE:
  assumes "decode_encryption_info K X g key iv info decrypt_key su = Some (True, g', key', iv')"
    and "bytes_at info 0 (MAGIC_SIZE K) = Some magic"
    and "info_version K magic = Some version"
  obtains ptr mid uuid key_info where
    "decode_key_info K X g info version decrypt_key su = Some (ptr, mid, uuid, Some key_info)"
    "mach_read_from_4 info (ptr + 2 * KEY_LEN K) = Some (ut_crc32 X key_info)"
    "memcpy key 0 (take (KEY_LEN K) key_info) = Some key'"
    "memcpy iv 0 (take (KEY_LEN K) (drop (KEY_LEN K) key_info)) = Some iv'"
    "g' = (if decrypt_key \<and> s_master_key_id g < mid
           then g\<lparr>s_master_key_id := mid, s_uuid := take (SERVER_UUID_LEN K) uuid\<rparr> else g)"
  using assms
  by (auto simp: decode_encryption_info_def Let_def
        split: bind_splits if_splits option.splits prod.splits)

lemma decode_encryption_info_mismatch:
  assumes "bytes_at info 0 (MAGIC_SIZE K) = Some magic"
    and "info_version K magic = Some version"
    and "decode_key_info K X g info version decrypt_key su = Some (ptr, mid, uuid, Some key_info)"
    and "mach_read_from_4 info (ptr + 2 * KEY_LEN K) = Some crc1"
    and "crc1 \<noteq> ut_crc32 X key_info"
  shows "decode_encryption_info K X g key iv info decrypt_key su = Some (False, g, key, iv)"
  using assms by (simp add: decode_encryption_info_def)

lemma decode_encryption_info_run:
  assumes "bytes_at info 0 (MAGIC_SIZE K) = Some magic"
    and "info_version K magic = Some version"
    and "decode_key_info K X g info version decrypt_key su = Some (ptr, mid, uuid, Some key_info)"
    and "mach_read_from_4 info (ptr + 2 * KEY_LEN K) = Some (ut_crc32 X key_info)"
    and "memcpy key 0 (take (KEY_LEN K) key_info) = Some key'"
    and "memcpy iv 0 (take (KEY_LEN K) (drop (KEY_LEN K) key_info)) = Some iv'"
  shows "decode_encryption_info K X g key iv info decrypt_key su
           = Some (True, if decrypt_key \<and> s_master_key_id g < mid
                         then g\<lparr>s_master_key_id := mid, s_uuid := take (SERVER_UUID_LEN K) uuid\<rparr>
                         else g, key', iv')"
  using assms by (simp add: decode_encryption_info_def)

lemma decode_encryption_info_statics:
  assumes "decode_encryption_info K X g key iv info decrypt_key su = Some (ok, g', key', iv')"
  shows "g' = g \<or>
         (ok \<and> decrypt_key \<and> s_master_key_id g < s_master_key_id g' \<and>
          mach_read_from_4 info (MAGIC_SIZE K) = Some (s_master_key_id g'))"
proof (cases "ok \<and> g' \<noteq> g")
  case False
  with assms show ?thesis
    by (auto simp: decode_encryption_info_def Let_def
          split: bind_splits if_splits option.splits prod.splits)
next
  case True
  from assms obtain magic where m: "bytes_at info 0 (MAGIC_SIZE K) = Some magic"
    by (auto simp: decode_encryption_info_def split: bind_splits)
  from assms True m obtain version where v: "info_version K magic = Some version"
    by (cases "info_version K magic")
       (auto simp: decode_encryption_info_def split: if_splits)
  from True assms have r: "decode_encryption_info K X g key iv info decrypt_key su = Some (True, g', key', iv')"
    by simp
  from r m v obtain ptr mid uuid key_info where
    d: "decode_key_info K X g info version decrypt_key su = Some (ptr, mid, uuid, Some key_info)"
    and g': "g' = (if decrypt_key \<and> s_master_key_id g < mid
           then g\<lparr>s_master_key_id := mid, s_uuid := take (SERVER_UUID_LEN K) uuid\<rparr> else g)"
    by (rule decode_encryption_info_SomeE)
  from g' True have c: "decrypt_key" "s_master_key_id g < mid" "s_master_key_id g' = mid"
    by (auto split: if_splits)
  from d c(1) have "mach_read_from_4 info (MAGIC_SIZE K) = Some mid"
    by (auto intro: decode_key_info_id)
  with c True show ?thesis by simp
qed

lemmas key_std = os0enc_std_def master_key_name_def get_keyring_key_def

lemma decimal_digit: "n < 10 \<Longrightarrow> decimal n = [0x30 + of_nat n]"
  by (simp add: decimal.simps [of n])

lemma info_version_std:
  "info_version os0enc_std [0x6C, 0x43, 0x43] = Some VERSION_3"
  "info_version os0enc_std [0x6C, 0x43, 0x5A] = None"
  by (simp_all add: info_version_def os0enc_std_def)

lemma get_master_key_from_info_v3_run:
  assumes "mach_read_from_4 info off = Some key_id" and "key_id \<noteq> 0"
    and "bytes_at info (off + 4) (SERVER_UUID_LEN K) = Some u"
    and "get_master_key_by_id K g key_id (Some (c_str u)) = Some mk"
  shows "get_master_key_from_info K g info off VERSION_3 su
           = Some (off + 4 + SERVER_UUID_LEN K, key_id, c_str u, Some mk)"
  using assms by (simp add: get_master_key_from_info_def)

lemma get_master_key_from_info7:
  assumes "length trl = 4"
  shows "get_master_key_from_info os0enc_std globals2
     ([0x6C, 0x43, 0x43, 0, 0, 0, 7] @ replicate 36 0x61 @ replicate 32 0x12
             @ replicate 32 0x23 @ trl) 3 VERSION_3 su
   = Some (43, 7, replicate 36 0x61, Some (replicate 32 0x4B))"
proof -
  have n: "master_key_name os0enc_std (replicate 36 0x61) (decimal (unat (7 :: 32 word))) = name7"
    by (simp add: key_std name7_def decimal_digit)
  have c: "c_str (replicate 36 (0x61 :: byte)) = replicate 36 0x61"
    by (simp add: c_str_def takeWhile_eq_all_conv)
  have k: "get_master_key_by_id os0enc_std globals2 7 (Some (c_str (replicate 36 0x61)))
             = Some (replicate 32 0x4B)"
    unfolding get_master_key_by_id_def Let_def option.case c n
    by (simp add: get_keyring_key_def os0enc_std_def globals2_def)
  have r: "mach_read_from_4 ([0x6C, 0x43, 0x43, 0, 0, 0, 7] @ replicate 36 0x61 @ replicate 32 0x12
             @ replicate 32 0x23 @ trl) 3 = Some 7"
    by (simp add: mach_read_from_4_def)
  have u: "bytes_at ([0x6C, 0x43, 0x43, 0, 0, 0, 7] @ replicate 36 0x61 @ replicate 32 0x12
             @ replicate 32 0x23 @ trl) (3 + 4) (SERVER_UUID_LEN os0enc_std) = Some (replicate 36 0x61)"
    by (simp add: bytes_at_def os0enc_std_def)
  have "(7 :: 32 word) \<noteq> 0" by simp
  from get_master_key_from_info_v3_run [OF r this u k, of su]
  show ?thesis by (simp add: c) (simp add: os0enc_std_def)
qed

lemma decode_key_info7:
  assumes "length trl = 4"
  shows "decode_key_info os0enc_std stand_in globals2
     ([0x6C, 0x43, 0x43, 0, 0, 0, 7] @ replicate 36 0x61 @ replicate 32 0x12
             @ replicate 32 0x23 @ trl) VERSION_3 True su
   = Some (43, 7, replicate 36 0x61, Some (replicate 32 0x11 @ replicate 32 0x22))"
proof (rule decode_key_info_run)
  show "get_master_key_from_info os0enc_std globals2
     ([0x6C, 0x43, 0x43, 0, 0, 0, 7] @ replicate 36 0x61 @ replicate 32 0x12
             @ replicate 32 0x23 @ trl) (MAGIC_SIZE os0enc_std) VERSION_3 su
   = Some (43, 7, replicate 36 0x61, Some (replicate 32 0x4B))"
    using get_master_key_from_info7 [OF assms] by (simp add: os0enc_std_def)
  show "bytes_at ([0x6C, 0x43, 0x43, 0, 0, 0, 7] @ replicate 36 0x61 @ replicate 32 0x12
             @ replicate 32 0x23 @ trl) 43 (2 * KEY_LEN os0enc_std)
        = Some (replicate 32 0x12 @ replicate 32 0x23)"
    by (simp add: bytes_at_def os0enc_std_def)
  show "my_aes_decrypt stand_in (replicate 32 0x12 @ replicate 32 0x23) (replicate 32 0x4B)
          (KEY_LEN os0enc_std) my_aes_256_ecb None False
        = Some (replicate 32 0x11 @ replicate 32 0x22)"
    by (simp add: stand_in_def shift_decrypt_def MY_AES_BLOCK_SIZE_def)
  show "length (replicate 32 (0x11 :: byte) @ replicate 32 0x22) = 2 * KEY_LEN os0enc_std"
    by (simp add: os0enc_std_def)
qed

lemma crc7: "ut_crc32 stand_in (replicate 32 0x11 @ replicate 32 0x22) = 0x660"
  by (simp add: stand_in_def byte_sum_append byte_sum_replicate)

lemma decode_encryption_info7:
  "decode_encryption_info os0enc_std stand_in globals2 (replicate 32 0) (replicate 32 0) info7 True su
     = Some (True, globals2\<lparr>s_master_key_id := 7, s_uuid := replicate 36 0x61\<rparr>,
             replicate 32 0x11, replicate 32 0x22)"
proof -
  have "decode_encryption_info os0enc_std stand_in globals2 (replicate 32 0) (replicate 32 0) info7 True su
     = Some (True, if True \<and> s_master_key_id globals2 < 7
                   then globals2\<lparr>s_master_key_id := 7,
                           s_uuid := take (SERVER_UUID_LEN os0enc_std) (replicate 36 0x61)\<rparr>
                   else globals2, replicate 32 0x11, replicate 32 0x22)"
  proof (rule decode_encryption_info_run)
    show "bytes_at info7 0 (MAGIC_SIZE os0enc_std) = Some [0x6C, 0x43, 0x43]"
      by (simp add: bytes_at_def info7_def os0enc_std_def)
    show "info_version os0enc_std [0x6C, 0x43, 0x43] = Some VERSION_3"
      by (rule info_version_std)
    show "decode_key_info os0enc_std stand_in globals2 info7 VERSION_3 True su
            = Some (43, 7, replicate 36 0x61, Some (replicate 32 0x11 @ replicate 32 0x22))"
      unfolding info7_def by (rule decode_key_info7) simp
    show "mach_read_from_4 info7 (43 + 2 * KEY_LEN os0enc_std)
            = Some (ut_crc32 stand_in (replicate 32 0x11 @ replicate 32 0x22))"
      unfolding crc7 by (simp add: mach_read_from_4_def info7_def os0enc_std_def nth_append)
    show "memcpy (replicate 32 0) 0 (take (KEY_LEN os0enc_std) (replicate 32 0x11 @ replicate 32 0x22))
            = Some (replicate 32 0x11)"
      by (simp add: memcpy_def os0enc_std_def)
    show "memcpy (replicate 32 0) 0
            (take (KEY_LEN os0enc_std) (drop (KEY_LEN os0enc_std) (replicate 32 0x11 @ replicate 32 0x22)))
            = Some (replicate 32 0x22)"
      by (simp add: memcpy_def os0enc_std_def)
  qed
  then show ?thesis by (simp add: globals2_def os0enc_std_def)
qed

lemma decode_encryption_info7_bad:
  "decode_encryption_info os0enc_std stand_in globals2 (replicate 32 0) (replicate 32 0) info7_bad True su
     = Some (False, globals2, replicate 32 0, replicate 32 0)"
proof (rule decode_encryption_info_mismatch)
  show "bytes_at info7_bad 0 (MAGIC_SIZE os0enc_std) = Some [0x6C, 0x43, 0x43]"
    by (simp add: bytes_at_def info7_bad_def os0enc_std_def)
  show "info_version os0enc_std [0x6C, 0x43, 0x43] = Some VERSION_3"
    by (rule info_version_std)
  show "decode_key_info os0enc_std stand_in globals2 info7_bad VERSION_3 True su
          = Some (43, 7, replicate 36 0x61, Some (replicate 32 0x11 @ replicate 32 0x22))"
    unfolding info7_bad_def by (rule decode_key_info7) simp
  show "mach_read_from_4 info7_bad (43 + 2 * KEY_LEN os0enc_std) = Some 0x661"
    by (simp add: mach_read_from_4_def info7_bad_def os0enc_std_def nth_append)
  show "(0x661 :: 32 word) \<noteq> ut_crc32 stand_in (replicate 32 0x11 @ replicate 32 0x22)"
    unfolding crc7 by simp
qed

lemma create_master_key_last:
  "create_master_key os0enc_std globals_last
     = (\<lparr>s_master_key_id = 0, s_uuid = replicate 36 0x61, keyring = [(name0, replicate 32 0x4B)]\<rparr>,
        Some (replicate 32 0x4B))"
proof -
  have n: "master_key_name os0enc_std (replicate 36 0x61) (decimal 0) = name0"
    by (simp add: key_std name0_def decimal_digit)
  have u: "s_uuid globals_last = server_uuid os0enc_std" "s_master_key_id globals_last = 0xFFFFFFFF"
    "keyring globals_last = []"
    by (simp_all add: globals_last_def os0enc_std_def)
  have s: "s_uuid globals_last = replicate 36 0x61" by (simp add: globals_last_def)
  show ?thesis
    unfolding create_master_key_def u(1) Let_def
    by (simp add: s u(2) n) (simp add: os0enc_std_def globals_last_def)
qed

lemma create_master_key_globals2:
  "s_master_key_id (fst (create_master_key os0enc_std globals2)) = 3"
  by (simp add: create_master_key_def Let_def split_def globals2_def os0enc_std_def)

lemma get_master_key_first:
  "s_master_key_id (fst (get_master_key os0enc_std (globals2\<lparr>s_master_key_id := 0\<rparr>) 0)) = 1"
  by (simp add: get_master_key_def Let_def split_def globals2_def os0enc_std_def)


section \<open>The round trip of a page\<close>

text \<open>
  Claim C1, as stated: decrypting the encrypted page restores the page byte for byte over
  the whole page buffer. \<open>decrypt\<close> does not undo all that \<open>encrypt_low\<close> did to the header:
  it marks \<open>FIL_PAGE_ORIGINAL_TYPE_V1\<close> as \<open>FIL_PAGE_ENCRYPTED\<close> (lines 1737 to 1742), and in
  keyring mode the key version stays in the header. The index page \<open>page80\<close> comes back from
  the AES round trip with 15 in byte 29, the low byte of \<open>FIL_PAGE_ORIGINAL_TYPE_V1\<close>, where
  the page has 0; from the keyring round trip it comes back with that and with 5, the key
  version, in byte 33, the low byte of \<open>FIL_PAGE_ENCRYPTION_KEY_VERSION\<close>, where the page has 0.
\<close>

theorem page_round_trip_counterexample:
  "encrypt_low fil0types stand_in ctx_aes plain_io page80 80 (replicate 80 0) 80 = Some run_aes80 \<and>
   ret run_aes80 \<and>
   decrypt fil0types stand_in ctx_aes plain_io (dst_out run_aes80) 80 None 80
     = Some (DB_SUCCESS, back_aes80, None) \<and>
   back_aes80 \<noteq> page80 \<and> page80 ! 29 = 0 \<and> back_aes80 ! 29 = 15 \<and>
   encrypt_low fil0types stand_in ctx_keyring plain_io page80 80 (replicate 80 0) 80
     = Some run_keyring80 \<and>
   ret run_keyring80 \<and>
   decrypt fil0types stand_in ctx_keyring plain_io (dst_out run_keyring80) 80 None 80
     = Some (DB_SUCCESS, back_keyring80, None) \<and>
   back_keyring80 \<noteq> page80 \<and> page80 ! 33 = 0 \<and> back_keyring80 ! 33 = 5"
  using encrypt_low_aes80 decrypt_aes80 encrypt_low_keyring80 decrypt_keyring80
  by (simp add: run_aes80_def run_keyring80_def back_aes80_def back_keyring80_def page80_def)

text \<open>
  Claim C1, amended. Let \<open>encrypt_low\<close> succeed on a page \<open>P\<close> of \<open>src_len\<close> bytes that is
  not encrypted already and not \<open>FIL_PAGE_COMPRESSED\<close>, under a context in AES or keyring mode
  whose cipher decrypts what it encrypted; the \<open>ut_ad\<close>s of \<open>encrypt_low\<close> hold, and in keyring
  mode the page is no R-tree page unless it is a zip page (\<open>can_page_be_keyring_encrypted\<close>,
  line 371, keeps R-tree pages from keyring encryption). Then \<open>decrypt\<close> of the encrypted
  page returns \<open>DB_SUCCESS\<close>, and the page it leaves equals \<open>P\<close> in every byte of the
  \<open>src_len\<close>, the page type included, save: the two bytes of \<open>FIL_PAGE_ORIGINAL_TYPE_V1\<close>, which
  read \<open>FIL_PAGE_ENCRYPTED\<close> afterwards (for a page that is neither an R-tree page nor
  \<open>FIL_PAGE_TYPE_ALLOCATED\<close>); in keyring mode the four bytes of
  \<open>FIL_PAGE_ENCRYPTION_KEY_VERSION\<close>, which read the key version, and the zip magic of a zip
  page encrypted during a rotation from the master key; and in keyring mode without zip
  the last four bytes of the page, which are not encrypted but restored from the low four
  bytes of the LSN in the header (line 1720), so that they are those of \<open>P\<close> when the trailer
  of \<open>P\<close> repeats its LSN. \<open>src_len < 2^32\<close> is what the casts of the lengths to \<open>uint32\<close> ask;
  the destination and the scratch buffer hold \<open>src_len\<close> bytes.
\<close>

theorem page_round_trip:
  assumes run: "encrypt_low L X this type P src_len D dst_len = Some r" and ok: "ret r"
    and ut: "encrypt_low_ut_ad L this type P src_len dst_len"
    and lay: "layout_ok L" and tl: "trailer_layout_ok L"
    and small: "src_len < 2 ^ 32"
    and cipher: "cipher_ok X"
    and pt: "mach_read_from_2 P (FIL_PAGE_TYPE L) = Some page_type"
    and nc: "page_type \<noteq> FIL_PAGE_COMPRESSED L"
    and rt: "m_type this = KEYRING \<and> \<not> is_page_zip_compressed type \<longrightarrow> page_type \<noteq> FIL_PAGE_RTREE L"
    and roomD: "src_len \<le> length D"
    and roomS: "src_len \<le> length (case S of None \<Rightarrow> os_alloc_block X | Some d \<Rightarrow> d)"
  shows "\<exists>R S'. decrypt L X this type (dst_out r) src_len S scratch_len = Some (DB_SUCCESS, R, S') \<and>
           length R = length D \<and>
           (\<forall>i < src_len.
              i \<notin> {FIL_PAGE_ORIGINAL_TYPE_V1 L ..< FIL_PAGE_ORIGINAL_TYPE_V1 L + 2} \<longrightarrow>
              (m_type this = KEYRING \<longrightarrow>
                 i \<notin> {FIL_PAGE_ENCRYPTION_KEY_VERSION L ..< FIL_PAGE_ENCRYPTION_KEY_VERSION L + 4}) \<longrightarrow>
              (m_type this = KEYRING \<and> is_page_zip_compressed type
                 \<and> m_encryption_rotation this = MASTER_KEY_TO_KEYRING \<longrightarrow>
                 i \<notin> {FIL_PAGE_ZIP_KEYRING_ENCRYPTION_MAGIC L ..<
                       FIL_PAGE_ZIP_KEYRING_ENCRYPTION_MAGIC L
                         + length (ZIP_PAGE_KEYRING_ENCRYPTION_MAGIC L)}) \<longrightarrow>
              (m_type this = KEYRING \<and> \<not> is_page_zip_compressed type \<longrightarrow> i + 4 < src_len) \<longrightarrow>
              R ! i = P ! i) \<and>
           (m_type this = KEYRING \<and> \<not> is_page_zip_compressed type \<longrightarrow>
              (\<forall>j < 4. R ! (src_len - 4 + j) = P ! (FIL_PAGE_LSN L + 4 + j))) \<and>
           (page_type \<noteq> FIL_PAGE_RTREE L \<and> page_type \<noteq> FIL_PAGE_TYPE_ALLOCATED L \<longrightarrow>
              mach_read_from_2 R (FIL_PAGE_ORIGINAL_TYPE_V1 L) = Some (FIL_PAGE_ENCRYPTED L)) \<and>
           (m_type this = KEYRING \<longrightarrow>
              mach_read_from_4 R (FIL_PAGE_ENCRYPTION_KEY_VERSION L) = Some (m_key_version this))"
proof -
  have inv: "\<And>x c. length x mod MY_AES_BLOCK_SIZE = 0 \<Longrightarrow> enc_pass X this x = Some c
                    \<Longrightarrow> dec_pass X this c = Some x"
    using cipher by (rule cipher_ok_inverse)
  show ?thesis
  proof (rule round_trip_plain [where scratch_len = scratch_len,
          OF run ok ut lay tl small inv pt nc rt roomD roomS])
    fix R S'
    assume d: "decrypt L X this type (dst_out r) src_len S scratch_len = Some (DB_SUCCESS, R, S')"
      and l: "length R = length D"
      and f: "\<And>i. i < src_len \<Longrightarrow>
         i < FIL_PAGE_ORIGINAL_TYPE_V1 L \<or> FIL_PAGE_ORIGINAL_TYPE_V1 L + 2 \<le> i \<Longrightarrow>
         m_type this \<noteq> KEYRING \<or> i < FIL_PAGE_ENCRYPTION_KEY_VERSION L
           \<or> FIL_PAGE_ENCRYPTION_KEY_VERSION L + 4 \<le> i \<Longrightarrow>
         \<not> (m_type this = KEYRING \<and> is_page_zip_compressed type
                \<and> m_encryption_rotation this = MASTER_KEY_TO_KEYRING) \<or>
           i < FIL_PAGE_ZIP_KEYRING_ENCRYPTION_MAGIC L \<or>
           FIL_PAGE_ZIP_KEYRING_ENCRYPTION_MAGIC L + length (ZIP_PAGE_KEYRING_ENCRYPTION_MAGIC L) \<le> i \<Longrightarrow>
         \<not> (m_type this = KEYRING \<and> \<not> is_page_zip_compressed type) \<or> i + 4 < src_len \<Longrightarrow>
         R ! i = P ! i"
      and t: "\<And>j. m_type this = KEYRING \<Longrightarrow> \<not> is_page_zip_compressed type \<Longrightarrow> j < 4 \<Longrightarrow>
         R ! (src_len - 4 + j) = P ! (FIL_PAGE_LSN L + 4 + j)"
      and o: "page_type \<noteq> FIL_PAGE_RTREE L \<Longrightarrow> page_type \<noteq> FIL_PAGE_TYPE_ALLOCATED L \<Longrightarrow>
         mach_read_from_2 R (FIL_PAGE_ORIGINAL_TYPE_V1 L) = Some (FIL_PAGE_ENCRYPTED L)"
      and v: "m_type this = KEYRING \<Longrightarrow>
         mach_read_from_4 R (FIL_PAGE_ENCRYPTION_KEY_VERSION L) = Some (m_key_version this)"
    have body: "\<forall>i < src_len.
              i \<notin> {FIL_PAGE_ORIGINAL_TYPE_V1 L ..< FIL_PAGE_ORIGINAL_TYPE_V1 L + 2} \<longrightarrow>
              (m_type this = KEYRING \<longrightarrow>
                 i \<notin> {FIL_PAGE_ENCRYPTION_KEY_VERSION L ..< FIL_PAGE_ENCRYPTION_KEY_VERSION L + 4}) \<longrightarrow>
              (m_type this = KEYRING \<and> is_page_zip_compressed type
                 \<and> m_encryption_rotation this = MASTER_KEY_TO_KEYRING \<longrightarrow>
                 i \<notin> {FIL_PAGE_ZIP_KEYRING_ENCRYPTION_MAGIC L ..<
                       FIL_PAGE_ZIP_KEYRING_ENCRYPTION_MAGIC L
                         + length (ZIP_PAGE_KEYRING_ENCRYPTION_MAGIC L)}) \<longrightarrow>
              (m_type this = KEYRING \<and> \<not> is_page_zip_compressed type \<longrightarrow> i + 4 < src_len) \<longrightarrow>
              R ! i = P ! i"
    proof (intro allI impI)
      fix i assume "i < src_len"
        and "i \<notin> {FIL_PAGE_ORIGINAL_TYPE_V1 L ..< FIL_PAGE_ORIGINAL_TYPE_V1 L + 2}"
        and "m_type this = KEYRING \<longrightarrow>
                 i \<notin> {FIL_PAGE_ENCRYPTION_KEY_VERSION L ..< FIL_PAGE_ENCRYPTION_KEY_VERSION L + 4}"
        and "m_type this = KEYRING \<and> is_page_zip_compressed type
                 \<and> m_encryption_rotation this = MASTER_KEY_TO_KEYRING \<longrightarrow>
                 i \<notin> {FIL_PAGE_ZIP_KEYRING_ENCRYPTION_MAGIC L ..<
                       FIL_PAGE_ZIP_KEYRING_ENCRYPTION_MAGIC L
                         + length (ZIP_PAGE_KEYRING_ENCRYPTION_MAGIC L)}"
        and "m_type this = KEYRING \<and> \<not> is_page_zip_compressed type \<longrightarrow> i + 4 < src_len"
      then show "R ! i = P ! i" by (intro f) auto
    qed
    show ?thesis using d l body t o v by blast
  qed
qed

theorem page_round_trip_witness:
  "encrypt_low fil0types stand_in ctx_keyring plain_io page80 80 (replicate 80 0) 80
     = Some run_keyring80 \<and> ret run_keyring80 \<and> cipher_ok stand_in \<and>
   mach_read_from_2 page80 (FIL_PAGE_TYPE fil0types) = Some 0x45BF \<and>
   decrypt fil0types stand_in ctx_keyring plain_io (dst_out run_keyring80) 80 None 80
     = Some (DB_SUCCESS, back_keyring80, None) \<and>
   length back_keyring80 = 80 \<and> back_keyring80 ! 40 = page80 ! 40 \<and> page80 ! 40 = 17 \<and>
   back_keyring80 ! 77 = page80 ! 21 \<and>
   mach_read_from_2 back_keyring80 28 = Some 15 \<and> mach_read_from_4 back_keyring80 30 = Some 5"
proof -
  have r: "ret run_keyring80" by (simp add: run_keyring80_def)
  have pt: "mach_read_from_2 page80 (FIL_PAGE_TYPE fil0types) = Some 0x45BF"
    by (simp add: mach_read_from_2_def page80_def fil0types_def)
  have nc: "(0x45BF :: 16 word) \<noteq> FIL_PAGE_COMPRESSED fil0types" by (simp add: fil0types_def)
  have rt: "m_type ctx_keyring = KEYRING \<and> \<not> is_page_zip_compressed plain_io
              \<longrightarrow> (0x45BF :: 16 word) \<noteq> FIL_PAGE_RTREE fil0types"
    by (simp add: fil0types_def)
  have roomD: "(80::nat) \<le> length (replicate 80 (0::byte))" by simp
  have roomS: "(80::nat) \<le> length (case None of None \<Rightarrow> os_alloc_block stand_in | Some d \<Rightarrow> d)"
    by (simp add: stand_in_def)
  have small: "(80::nat) < 2 ^ 32" by simp
  from page_round_trip [where scratch_len = 80, OF encrypt_low_keyring80 r encrypt_low_ut_ad_keyring80
      layout_ok_fil0types trailer_layout_ok_fil0types small cipher_ok_stand_in pt nc rt roomD roomS]
  obtain R S' where
    d: "decrypt fil0types stand_in ctx_keyring plain_io (dst_out run_keyring80) 80 None 80
          = Some (DB_SUCCESS, R, S')"
    and l: "length R = length (replicate 80 (0::byte))"
    and f: "\<forall>i < 80.
              i \<notin> {FIL_PAGE_ORIGINAL_TYPE_V1 fil0types ..< FIL_PAGE_ORIGINAL_TYPE_V1 fil0types + 2} \<longrightarrow>
              (m_type ctx_keyring = KEYRING \<longrightarrow>
                 i \<notin> {FIL_PAGE_ENCRYPTION_KEY_VERSION fil0types ..<
                       FIL_PAGE_ENCRYPTION_KEY_VERSION fil0types + 4}) \<longrightarrow>
              (m_type ctx_keyring = KEYRING \<and> is_page_zip_compressed plain_io
                 \<and> m_encryption_rotation ctx_keyring = MASTER_KEY_TO_KEYRING \<longrightarrow>
                 i \<notin> {FIL_PAGE_ZIP_KEYRING_ENCRYPTION_MAGIC fil0types ..<
                       FIL_PAGE_ZIP_KEYRING_ENCRYPTION_MAGIC fil0types
                         + length (ZIP_PAGE_KEYRING_ENCRYPTION_MAGIC fil0types)}) \<longrightarrow>
              (m_type ctx_keyring = KEYRING \<and> \<not> is_page_zip_compressed plain_io \<longrightarrow> i + 4 < 80) \<longrightarrow>
              R ! i = page80 ! i"
    and t: "m_type ctx_keyring = KEYRING \<and> \<not> is_page_zip_compressed plain_io \<longrightarrow>
              (\<forall>j < 4. R ! (80 - 4 + j) = page80 ! (FIL_PAGE_LSN fil0types + 4 + j))"
    and o: "(0x45BF :: 16 word) \<noteq> FIL_PAGE_RTREE fil0types
              \<and> (0x45BF :: 16 word) \<noteq> FIL_PAGE_TYPE_ALLOCATED fil0types \<longrightarrow>
              mach_read_from_2 R (FIL_PAGE_ORIGINAL_TYPE_V1 fil0types)
                = Some (FIL_PAGE_ENCRYPTED fil0types)"
    and v: "m_type ctx_keyring = KEYRING \<longrightarrow>
              mach_read_from_4 R (FIL_PAGE_ENCRYPTION_KEY_VERSION fil0types)
                = Some (m_key_version ctx_keyring)"
    by blast
  have R: "R = back_keyring80" and S': "S' = None"
    using d decrypt_keyring80 by simp_all
  have "R ! 40 = page80 ! 40"
    using f [rule_format, of 40] by (simp add: fil0types_def ctx_keyring_def plain_io_def)
  moreover have "R ! 77 = page80 ! 21"
    using t [rule_format, of 1] by (simp add: fil0types_def ctx_keyring_def plain_io_def)
  moreover have "mach_read_from_2 R 28 = Some 15"
    using o by (simp add: fil0types_def)
  moreover have "mach_read_from_4 R 30 = Some 5"
    using v by (simp add: fil0types_def ctx_keyring_def)
  moreover have "page80 ! 40 = 17" by (simp add: page80_def)
  ultimately show ?thesis
    using encrypt_low_keyring80 r cipher_ok_stand_in pt d l unfolding R S' by simp
qed


section \<open>The source page of \<open>encrypt_low\<close>\<close>

text \<open>
  Claim C10. Page encryption is not read-only on its source: whenever \<open>encrypt_low\<close>
  succeeds in \<open>KEYRING\<close> mode, the source page it hands back is the source page with the
  4-byte key version written at \<open>FIL_PAGE_ENCRYPTION_KEY_VERSION\<close>, and the destination
  carries the key version too (at \<open>FIL_PAGE_ENCRYPTION_KEY_VERSION\<close>, or at
  \<open>FIL_PAGE_DATA + 4\<close> when the source page is \<open>FIL_PAGE_COMPRESSED\<close>); in \<open>AES\<close> mode the
  source page is left as it was. \<open>dst_len = src_len\<close> is the \<open>ut_ad\<close> of keyring mode.
\<close>

theorem encrypt_low_source_page:
  assumes run: "encrypt_low L X this type src src_len dst dst_len = Some r" and ok: "ret r"
    and lay: "layout_ok L" and len: "dst_len = src_len"
  shows "(m_type this = KEYRING \<longrightarrow>
            mach_write_to_4 src (FIL_PAGE_ENCRYPTION_KEY_VERSION L) (m_key_version this)
              = Some (src_out r) \<and>
            mach_read_from_4 (src_out r) (FIL_PAGE_ENCRYPTION_KEY_VERSION L)
              = Some (m_key_version this) \<and>
            mach_read_from_4 (dst_out r)
              (if mach_read_from_2 src (FIL_PAGE_TYPE L) = Some (FIL_PAGE_COMPRESSED L)
               then FIL_PAGE_DATA + 4 else FIL_PAGE_ENCRYPTION_KEY_VERSION L)
              = Some (m_key_version this)) \<and>
         (m_type this = AES \<longrightarrow> src_out r = src)"
proof (intro conjI impI)
  assume aes: "m_type this = AES"
  from run ok show "src_out r = src"
    by (rule encrypt_low_SomeE) (use aes in simp)
next
  assume k: "m_type this = KEYRING"
  from run ok obtain page_type src_enc_len data_len d3 where
    pt: "mach_read_from_2 src (FIL_PAGE_TYPE L) = Some page_type"
    and sel: "encrypt_low_src_enc_len L src src_len page_type = Some src_enc_len"
    and dl: "encrypt_low_data_len L this type page_type src_enc_len = Some data_len"
    and kr: "encrypt_low_keyring L X this type src d3 dst_len page_type
               = Some (this_out r, src_out r, dst_out r)"
    by (rule encrypt_low_SomeE) (use k in simp)
  show w: "mach_write_to_4 src (FIL_PAGE_ENCRYPTION_KEY_VERSION L) (m_key_version this)
             = Some (src_out r)"
    by (rule encrypt_low_keyring_src [OF kr])
  show "mach_read_from_4 (src_out r) (FIL_PAGE_ENCRYPTION_KEY_VERSION L)
          = Some (m_key_version this)"
    by (rule mach_read_write_4 [OF w])
  show "mach_read_from_4 (dst_out r)
          (if mach_read_from_2 src (FIL_PAGE_TYPE L) = Some (FIL_PAGE_COMPRESSED L)
           then FIL_PAGE_DATA + 4 else FIL_PAGE_ENCRYPTION_KEY_VERSION L)
          = Some (m_key_version this)"
  proof (cases "page_type = FIL_PAGE_COMPRESSED L")
    case True
    then show ?thesis
      using encrypt_low_keyring_dst_version_compressed [OF kr True] lay pt
      by (simp add: layout_ok_def)
  next
    case False
    have "is_page_zip_compressed type \<or> FIL_PAGE_ENCRYPTION_KEY_VERSION L + 8 \<le> dst_len"
      using dl sel False k lay len
      by (auto simp: encrypt_low_data_len_def encrypt_low_src_enc_len_def usub_Some
            layout_ok_def FIL_PAGE_DATA_def split: bind_splits if_splits)
    then show ?thesis
      using encrypt_low_keyring_dst_version [OF kr False] pt False by simp
  qed
qed

theorem encrypt_low_source_page_witness:
  "encrypt_low fil0types stand_in ctx_keyring plain_io page80 80 (replicate 80 0) 80
     = Some run_keyring80 \<and> ret run_keyring80 \<and> layout_ok fil0types \<and>
   m_type ctx_keyring = KEYRING \<and>
   mach_write_to_4 page80 30 5 = Some (src_out run_keyring80) \<and>
   mach_read_from_4 (src_out run_keyring80) 30 = Some 5 \<and>
   mach_read_from_4 (dst_out run_keyring80) 30 = Some 5 \<and>
   src_out run_keyring80 \<noteq> page80"
proof -
  have r: "ret run_keyring80" by (simp add: run_keyring80_def)
  have t: "mach_read_from_2 page80 (FIL_PAGE_TYPE fil0types) \<noteq> Some (FIL_PAGE_COMPRESSED fil0types)"
    by (simp add: mach_read_from_2_def page80_def fil0types_def)
  have "src_out run_keyring80 \<noteq> page80"
    by (simp add: run_keyring80_def page80_def)
  then show ?thesis
    using encrypt_low_source_page [OF encrypt_low_keyring80 r layout_ok_fil0types refl] t
      encrypt_low_keyring80 r layout_ok_fil0types
    by (simp add: ctx_keyring_def fil0types_def)
qed


section \<open>The header of the encrypted page\<close>

text \<open>
  Claim C9, as stated: the first 38 bytes are copied verbatim, and no byte of them
  differs between source and destination after \<open>encrypt_low\<close>. After copying the header
  the code rewrites bytes of it in the destination, so this fails on every page. In AES
  mode byte 25, the low byte of \<open>FIL_PAGE_TYPE\<close>, is \<open>0xBF\<close> in the index page and 15
  (\<open>FIL_PAGE_ENCRYPTED\<close>) in the encrypted one, and byte 29, the low byte of
  \<open>FIL_PAGE_ORIGINAL_TYPE_V1\<close>, is 0 in the page and \<open>0xBF\<close> in the encrypted one. In keyring
  mode byte 33, the low byte of \<open>FIL_PAGE_ENCRYPTION_KEY_VERSION\<close>, is 0 in the page that
  is handed in and 5, the key version, in the encrypted one. For a zip page in a rotation
  from the master key byte 26 is 0 in the page and \<open>0x52\<close>, the first byte of the zip magic,
  in the encrypted one.
\<close>

theorem encrypt_low_header_verbatim_counterexample:
  "encrypt_low fil0types stand_in ctx_aes plain_io page80 80 (replicate 80 0) 80 = Some run_aes80 \<and>
   ret run_aes80 \<and> (25::nat) < FIL_PAGE_DATA \<and> page80 ! 25 = 0xBF \<and> dst_out run_aes80 ! 25 = 15 \<and>
   (29::nat) < FIL_PAGE_DATA \<and> page80 ! 29 = 0 \<and> dst_out run_aes80 ! 29 = 0xBF \<and>
   encrypt_low fil0types stand_in ctx_keyring plain_io page80 80 (replicate 80 0) 80
     = Some run_keyring80 \<and>
   ret run_keyring80 \<and> (33::nat) < FIL_PAGE_DATA \<and> page80 ! 33 = 0 \<and> dst_out run_keyring80 ! 33 = 5 \<and>
   encrypt_low fil0types stand_in ctx_rot zip_io page80 80 (replicate 80 0) 80 = Some run_rot80 \<and>
   ret run_rot80 \<and> (26::nat) < FIL_PAGE_DATA \<and> page80 ! 26 = 0 \<and> dst_out run_rot80 ! 26 = 0x52"
  using encrypt_low_aes80 encrypt_low_keyring80 encrypt_low_rot80
  by (simp add: run_aes80_def run_keyring80_def run_rot80_def page80_def FIL_PAGE_DATA_def)

text \<open>
  Claim C9, amended. After a successful \<open>encrypt_low\<close>, every byte \<open>i\<close> of the first 38
  of the destination equals the byte of the source page as it is handed in (in keyring
  mode \<open>encrypt_low\<close> writes the key version into the source as well, which is claim C10;
  the comparison is with the source before that), save the bytes the code rewrites in
  the destination after copying the header: the two of \<open>FIL_PAGE_TYPE\<close>; the two of
  \<open>FIL_PAGE_ORIGINAL_TYPE_V1\<close> when the source is neither \<open>FIL_PAGE_COMPRESSED\<close> nor
  \<open>FIL_PAGE_RTREE\<close>; in keyring mode the four of \<open>FIL_PAGE_ENCRYPTION_KEY_VERSION\<close> when the
  source is not \<open>FIL_PAGE_COMPRESSED\<close>, and the zip magic when a zip page is encrypted
  during a rotation from the master key.
\<close>

theorem encrypt_low_header_frame:
  assumes run: "encrypt_low L X this type src src_len dst dst_len = Some r" and ok: "ret r"
    and len: "m_type this = KEYRING \<longrightarrow> dst_len = src_len"
    and pt: "mach_read_from_2 src (FIL_PAGE_TYPE L) = Some page_type"
    and i: "i < FIL_PAGE_DATA"
    and T: "i \<notin> {FIL_PAGE_TYPE L ..< FIL_PAGE_TYPE L + 2}"
    and O: "page_type \<noteq> FIL_PAGE_COMPRESSED L \<and> page_type \<noteq> FIL_PAGE_RTREE L \<longrightarrow>
            i \<notin> {FIL_PAGE_ORIGINAL_TYPE_V1 L ..< FIL_PAGE_ORIGINAL_TYPE_V1 L + 2}"
    and K: "m_type this = KEYRING \<and> page_type \<noteq> FIL_PAGE_COMPRESSED L \<longrightarrow>
            i \<notin> {FIL_PAGE_ENCRYPTION_KEY_VERSION L ..< FIL_PAGE_ENCRYPTION_KEY_VERSION L + 4}"
    and M: "m_type this = KEYRING \<and> is_page_zip_compressed type
              \<and> m_encryption_rotation this = MASTER_KEY_TO_KEYRING \<longrightarrow>
            i \<notin> {FIL_PAGE_ZIP_KEYRING_ENCRYPTION_MAGIC L ..<
                  FIL_PAGE_ZIP_KEYRING_ENCRYPTION_MAGIC L + length (ZIP_PAGE_KEYRING_ENCRYPTION_MAGIC L)}"
  shows "dst_out r ! i = src ! i"
proof (rule encrypt_low_header_byte [OF run ok len pt i])
  show "i < FIL_PAGE_TYPE L \<or> FIL_PAGE_TYPE L + 2 \<le> i"
    using T by auto
  show "page_type = FIL_PAGE_COMPRESSED L \<or> page_type = FIL_PAGE_RTREE L \<or>
         i < FIL_PAGE_ORIGINAL_TYPE_V1 L \<or> FIL_PAGE_ORIGINAL_TYPE_V1 L + 2 \<le> i"
    using O by auto
  show "m_type this \<noteq> KEYRING \<or> page_type = FIL_PAGE_COMPRESSED L \<or>
         i < FIL_PAGE_ENCRYPTION_KEY_VERSION L \<or> FIL_PAGE_ENCRYPTION_KEY_VERSION L + 4 \<le> i"
    using K by auto
  show "\<not> (m_type this = KEYRING \<and> is_page_zip_compressed type
              \<and> m_encryption_rotation this = MASTER_KEY_TO_KEYRING) \<or>
         i < FIL_PAGE_ZIP_KEYRING_ENCRYPTION_MAGIC L \<or>
         FIL_PAGE_ZIP_KEYRING_ENCRYPTION_MAGIC L + length (ZIP_PAGE_KEYRING_ENCRYPTION_MAGIC L) \<le> i"
    using M by auto
qed

theorem encrypt_low_header_frame_witness:
  "encrypt_low fil0types stand_in ctx_keyring plain_io page80 80 (replicate 80 0) 80
     = Some run_keyring80 \<and> ret run_keyring80 \<and> m_type ctx_keyring = KEYRING \<and>
   mach_read_from_2 page80 (FIL_PAGE_TYPE fil0types) = Some 0x45BF \<and> (23::nat) < FIL_PAGE_DATA \<and>
   dst_out run_keyring80 ! 23 = page80 ! 23 \<and> page80 ! 23 = 7"
proof -
  have r: "ret run_keyring80" by (simp add: run_keyring80_def)
  have pt: "mach_read_from_2 page80 (FIL_PAGE_TYPE fil0types) = Some 0x45BF"
    by (simp add: mach_read_from_2_def page80_def fil0types_def)
  have i: "(23::nat) < FIL_PAGE_DATA" by (simp add: FIL_PAGE_DATA_def)
  have "dst_out run_keyring80 ! 23 = page80 ! 23"
    by (rule encrypt_low_header_frame [OF encrypt_low_keyring80 r _ pt i])
       (simp_all add: fil0types_def)
  then show ?thesis
    using encrypt_low_keyring80 r pt i by (simp add: ctx_keyring_def page80_def)
qed

section \<open>The key version of a keyring-encrypted page\<close>



section \<open>The page type across encryption and decryption\<close>

text \<open>
  Claim C4. After a successful \<open>encrypt_low\<close> of a page of type \<open>page_type\<close>, the
  \<open>FIL_PAGE_TYPE\<close> of the destination is \<open>FIL_PAGE_ENCRYPTED\<close>,
  \<open>FIL_PAGE_ENCRYPTED_RTREE\<close> or \<open>FIL_PAGE_COMPRESSED_AND_ENCRYPTED\<close>: the last exactly when
  the source was \<open>FIL_PAGE_COMPRESSED\<close>, the second exactly when it was \<open>FIL_PAGE_RTREE\<close>,
  and otherwise \<open>FIL_PAGE_ENCRYPTED\<close> with the old type at \<open>FIL_PAGE_ORIGINAL_TYPE_V1\<close>. Every
  \<open>decrypt\<close> of that destination that returns \<open>DB_SUCCESS\<close> leaves the page with
  \<open>FIL_PAGE_TYPE\<close> equal to \<open>page_type\<close> again.
\<close>

theorem page_type_discipline:
  assumes run: "encrypt_low L X this type src src_len dst dst_len = Some r" and ok: "ret r"
    and len: "m_type this = KEYRING \<longrightarrow> dst_len = src_len"
    and pt: "mach_read_from_2 src (FIL_PAGE_TYPE L) = Some page_type"
    and lay: "layout_ok L"
  shows "\<exists>new. mach_read_from_2 (dst_out r) (FIL_PAGE_TYPE L) = Some new \<and>
           (new = FIL_PAGE_ENCRYPTED L \<or> new = FIL_PAGE_ENCRYPTED_RTREE L
              \<or> new = FIL_PAGE_COMPRESSED_AND_ENCRYPTED L) \<and>
           (new = FIL_PAGE_COMPRESSED_AND_ENCRYPTED L \<longleftrightarrow> page_type = FIL_PAGE_COMPRESSED L) \<and>
           (new = FIL_PAGE_ENCRYPTED_RTREE L \<longleftrightarrow> page_type = FIL_PAGE_RTREE L) \<and>
           (new = FIL_PAGE_ENCRYPTED L \<longrightarrow>
              mach_read_from_2 (dst_out r) (FIL_PAGE_ORIGINAL_TYPE_V1 L) = Some page_type) \<and>
           (\<forall>X' this' type' n scratch m p s.
              decrypt L X' this' type' (dst_out r) n scratch m = Some (DB_SUCCESS, p, s) \<longrightarrow>
              mach_read_from_2 p (FIL_PAGE_TYPE L) = Some page_type)"
proof -
  define new where "new = (if page_type = FIL_PAGE_COMPRESSED L then FIL_PAGE_COMPRESSED_AND_ENCRYPTED L
                 else if page_type = FIL_PAGE_RTREE L then FIL_PAGE_ENCRYPTED_RTREE L
                 else FIL_PAGE_ENCRYPTED L)"
  have codes: "FIL_PAGE_ENCRYPTED L \<noteq> FIL_PAGE_COMPRESSED_AND_ENCRYPTED L"
    "FIL_PAGE_ENCRYPTED L \<noteq> FIL_PAGE_ENCRYPTED_RTREE L"
    "FIL_PAGE_COMPRESSED_AND_ENCRYPTED L \<noteq> FIL_PAGE_ENCRYPTED_RTREE L"
    "FIL_PAGE_COMPRESSED L \<noteq> FIL_PAGE_RTREE L"
    and disj: "disjoint_fields (FIL_PAGE_TYPE L) 2 (FIL_PAGE_ORIGINAL_TYPE_V1 L) 2"
    using lay by (simp_all add: layout_ok_def)
  have ty: "mach_read_from_2 (dst_out r) (FIL_PAGE_TYPE L) = Some new"
    unfolding new_def by (rule encrypt_low_type [OF run ok len pt lay])
  have kinds: "new = FIL_PAGE_ENCRYPTED L \<or> new = FIL_PAGE_ENCRYPTED_RTREE L
              \<or> new = FIL_PAGE_COMPRESSED_AND_ENCRYPTED L"
    by (simp add: new_def)
  have c: "new = FIL_PAGE_COMPRESSED_AND_ENCRYPTED L \<longleftrightarrow> page_type = FIL_PAGE_COMPRESSED L"
    using codes by (auto simp: new_def)
  have t: "new = FIL_PAGE_ENCRYPTED_RTREE L \<longleftrightarrow> page_type = FIL_PAGE_RTREE L"
    using codes by (auto simp: new_def)
  have o: "mach_read_from_2 (dst_out r) (FIL_PAGE_ORIGINAL_TYPE_V1 L) = Some page_type"
    if "new = FIL_PAGE_ENCRYPTED L"
  proof -
    from that have "page_type \<noteq> FIL_PAGE_COMPRESSED L" "page_type \<noteq> FIL_PAGE_RTREE L"
      using codes by (auto simp: new_def split: if_splits)
    then show ?thesis
      by (rule encrypt_low_original_type [OF run ok len pt lay])
  qed
  have restored: "mach_read_from_2 p (FIL_PAGE_TYPE L) = Some page_type"
    if dec: "decrypt L X' this' type' (dst_out r) n scratch m = Some (DB_SUCCESS, p, s)"
    for X' this' type' n scratch m p s
  proof -
    have enc: "is_encrypted_page L (dst_out r) = Some True"
      using ty kinds by (auto simp: is_encrypted_page_def)
    from dec enc obtain n' original_type src1 where
      ot: "mach_read_from_2 (dst_out r) (FIL_PAGE_ORIGINAL_TYPE_V1 L) = Some original_type"
      and hd: "decrypt_header L this' type' src1 n' new original_type = Some p"
      by (rule decrypt_SomeE) (use ty in simp)
    have "mach_read_from_2 p (FIL_PAGE_TYPE L) =
           Some (if new = FIL_PAGE_ENCRYPTED L then original_type
                 else if new = FIL_PAGE_ENCRYPTED_RTREE L then FIL_PAGE_RTREE L
                 else FIL_PAGE_COMPRESSED L)"
      by (rule decrypt_header_type [OF hd disj])
    then show ?thesis
      using o ot c t kinds codes by (auto split: if_splits)
  qed
  show ?thesis
    using ty kinds c t o restored by blast
qed

theorem page_type_discipline_witness:
  "encrypt_low fil0types stand_in ctx_aes plain_io page80 80 (replicate 80 0) 80 = Some run_aes80 \<and>
   ret run_aes80 \<and> m_type ctx_aes \<noteq> KEYRING \<and> layout_ok fil0types \<and>
   mach_read_from_2 page80 (FIL_PAGE_TYPE fil0types) = Some 0x45BF \<and>
   mach_read_from_2 (dst_out run_aes80) (FIL_PAGE_TYPE fil0types) = Some (FIL_PAGE_ENCRYPTED fil0types) \<and>
   mach_read_from_2 (dst_out run_aes80) (FIL_PAGE_ORIGINAL_TYPE_V1 fil0types) = Some 0x45BF \<and>
   decrypt fil0types stand_in ctx_aes plain_io (dst_out run_aes80) 80 None 80
     = Some (DB_SUCCESS, back_aes80, None) \<and>
   mach_read_from_2 back_aes80 (FIL_PAGE_TYPE fil0types) = Some 0x45BF"
proof -
  have r: "ret run_aes80" by (simp add: run_aes80_def)
  have k: "m_type ctx_aes = KEYRING \<longrightarrow> (80::nat) = 80" by simp
  have pt: "mach_read_from_2 page80 (FIL_PAGE_TYPE fil0types) = Some 0x45BF"
    by (simp add: mach_read_from_2_def page80_def fil0types_def)
  have e: "mach_read_from_2 (dst_out run_aes80) (FIL_PAGE_TYPE fil0types) = Some (FIL_PAGE_ENCRYPTED fil0types)"
    by (simp add: mach_read_from_2_def run_aes80_def fil0types_def)
  from page_type_discipline [OF encrypt_low_aes80 r k pt layout_ok_fil0types]
  obtain new where n: "mach_read_from_2 (dst_out run_aes80) (FIL_PAGE_TYPE fil0types) = Some new"
    and o: "new = FIL_PAGE_ENCRYPTED fil0types \<longrightarrow>
              mach_read_from_2 (dst_out run_aes80) (FIL_PAGE_ORIGINAL_TYPE_V1 fil0types) = Some 0x45BF"
    and b: "\<And>X' this' type' n scratch m p s.
              decrypt fil0types X' this' type' (dst_out run_aes80) n scratch m = Some (DB_SUCCESS, p, s) \<Longrightarrow>
              mach_read_from_2 p (FIL_PAGE_TYPE fil0types) = Some 0x45BF"
    by blast
  from n e have "new = FIL_PAGE_ENCRYPTED fil0types" by simp
  with o have "mach_read_from_2 (dst_out run_aes80) (FIL_PAGE_ORIGINAL_TYPE_V1 fil0types) = Some 0x45BF"
    by simp
  moreover have "mach_read_from_2 back_aes80 (FIL_PAGE_TYPE fil0types) = Some 0x45BF"
    by (rule b [OF decrypt_aes80])
  ultimately show ?thesis
    using encrypt_low_aes80 r pt e decrypt_aes80 layout_ok_fil0types by (simp add: ctx_aes_def)
qed

section \<open>The key version in the checksum of a log block\<close>


section \<open>Lengths\<close>

text \<open>
  Claim C5: \<open>encrypt_low\<close> reports \<open>*dst_len = src_len\<close>, and what it writes is to end
  there: line 1144 aborts unless \<open>src_enc_len <= src_len\<close>, and lines 1255 to 1259 pad with zeros
  up to \<open>src_len\<close>. For a \<open>FIL_PAGE_COMPRESSED\<close> page in keyring mode the ciphertext starts
  8 bytes later (\<open>DST_HEADER_SIZE\<close>), and that bound is not moved with it. The page here
  has type \<open>FIL_PAGE_COMPRESSED\<close> and 42 bytes of compressed data, which fill its 80 bytes,
  and every \<open>ut_ad\<close> holds. In a destination of 80 bytes the run leaves the buffer. In a
  destination of 96 bytes it returns true and reports 80, and bytes 80 to 87 of the
  destination are the last 8 bytes of the ciphertext.
\<close>

theorem encrypt_low_keyring_compressed_extent:
  "m_type ctx_keyring = KEYRING \<and> m_key_version ctx_keyring = 5 \<and> m_klen ctx_keyring = 32 \<and>
   length zfull80 = 80 \<and> is_encrypted_page fil0types zfull80 = Some False \<and>
   mach_read_from_2 zfull80 (FIL_PAGE_TYPE fil0types) = Some (FIL_PAGE_COMPRESSED fil0types) \<and>
   mach_read_from_2 zfull80 (FIL_PAGE_COMPRESS_SIZE_V1 fil0types) = Some 42 \<and>
   encrypt_low_src_enc_len fil0types zfull80 80 (FIL_PAGE_COMPRESSED fil0types) = Some 80 \<and>
   encrypt_low_data_len fil0types ctx_keyring plain_io (FIL_PAGE_COMPRESSED fil0types) 80 = Some 42 \<and>
   encrypt_low fil0types stand_in ctx_keyring plain_io zfull80 80 (replicate 80 0) 80 = None \<and>
   encrypt_low fil0types stand_in ctx_keyring plain_io zfull80 80 (replicate 96 0) 80
     = Some run_zfull80 \<and>
   ret run_zfull80 \<and> dst_len_out run_zfull80 = 80 \<and>
   take 8 (drop 80 (dst_out run_zfull80)) = [242, 249, 5, 12, 1, 1, 10, 8] \<and>
   take 8 (drop 80 (replicate 96 (0::byte))) = replicate 8 0"
proof -
  have "is_encrypted_page fil0types zfull80 = Some False"
    by (simp add: page_defs zfull80_def)
  moreover have "encrypt_low_src_enc_len fil0types zfull80 80 (FIL_PAGE_COMPRESSED fil0types) = Some 80"
    "encrypt_low_data_len fil0types ctx_keyring plain_io (FIL_PAGE_COMPRESSED fil0types) 80 = Some 42"
    by (simp_all add: page_defs zfull80_def Let_def)
  moreover have "mach_read_from_2 zfull80 (FIL_PAGE_TYPE fil0types) = Some (FIL_PAGE_COMPRESSED fil0types)"
    "mach_read_from_2 zfull80 (FIL_PAGE_COMPRESS_SIZE_V1 fil0types) = Some 42"
    by (simp_all add: mach_read_from_2_def zfull80_def fil0types_def)
  ultimately show ?thesis
    using encrypt_low_zfull80 encrypt_low_zfull80_short
    by (simp add: run_zfull80_def ctx_keyring_def zfull80_def)
qed

section \<open>Decoding the encryption information\<close>

text \<open>
  Claim C3: when the first \<open>MAGIC_SIZE\<close> bytes of the information are none of
  \<open>KEY_MAGIC_V1\<close>, \<open>KEY_MAGIC_V2\<close> and \<open>KEY_MAGIC_V3\<close>, \<open>decode_encryption_info\<close> returns true
  if recovery is in progress and false if it is not, and in both cases leaves the key,
  the iv and the statics as they were.
\<close>

theorem decode_encryption_info_unknown_magic:
  assumes "bytes_at encryption_info 0 (MAGIC_SIZE K) = Some magic"
    and "magic \<noteq> take (MAGIC_SIZE K) (KEY_MAGIC_V1 K)"
    and "magic \<noteq> take (MAGIC_SIZE K) (KEY_MAGIC_V2 K)"
    and "magic \<noteq> take (MAGIC_SIZE K) (KEY_MAGIC_V3 K)"
  shows "decode_encryption_info K X g key iv encryption_info decrypt_key srv_uuid
           = Some (recv_recovery_is_on K, g, key, iv)"
  using assms by (simp add: decode_encryption_info_def info_version_def)

theorem decode_encryption_info_unknown_magic_witness:
  "bytes_at info_unknown 0 (MAGIC_SIZE os0enc_std) = Some [0x6C, 0x43, 0x5A] \<and>
   decode_encryption_info os0enc_std stand_in globals2 (replicate 32 0) (replicate 32 0)
     info_unknown True [] = Some (True, globals2, replicate 32 0, replicate 32 0) \<and>
   decode_encryption_info (os0enc_std\<lparr>recv_recovery_is_on := False\<rparr>) stand_in globals2
     (replicate 32 0) (replicate 32 0) info_unknown True []
     = Some (False, globals2, replicate 32 0, replicate 32 0)"
proof -
  have b: "bytes_at info_unknown 0 (MAGIC_SIZE os0enc_std) = Some [0x6C, 0x43, 0x5A]"
    by (simp add: bytes_at_def info_unknown_def os0enc_std_def)
  have m: "[0x6C, 0x43, 0x5A] \<noteq> take (MAGIC_SIZE os0enc_std) (KEY_MAGIC_V1 os0enc_std)"
    "[0x6C, 0x43, 0x5A] \<noteq> take (MAGIC_SIZE os0enc_std) (KEY_MAGIC_V2 os0enc_std)"
    "[0x6C, 0x43, 0x5A] \<noteq> take (MAGIC_SIZE os0enc_std) (KEY_MAGIC_V3 os0enc_std)"
    by (simp_all add: os0enc_std_def)
  have b': "bytes_at info_unknown 0 (MAGIC_SIZE (os0enc_std\<lparr>recv_recovery_is_on := False\<rparr>))
              = Some [0x6C, 0x43, 0x5A]"
    using b by simp
  have m': "[0x6C, 0x43, 0x5A] \<noteq> take (MAGIC_SIZE (os0enc_std\<lparr>recv_recovery_is_on := False\<rparr>))
                                      (KEY_MAGIC_V1 (os0enc_std\<lparr>recv_recovery_is_on := False\<rparr>))"
    "[0x6C, 0x43, 0x5A] \<noteq> take (MAGIC_SIZE (os0enc_std\<lparr>recv_recovery_is_on := False\<rparr>))
                                      (KEY_MAGIC_V2 (os0enc_std\<lparr>recv_recovery_is_on := False\<rparr>))"
    "[0x6C, 0x43, 0x5A] \<noteq> take (MAGIC_SIZE (os0enc_std\<lparr>recv_recovery_is_on := False\<rparr>))
                                      (KEY_MAGIC_V3 (os0enc_std\<lparr>recv_recovery_is_on := False\<rparr>))"
    using m by simp_all
  have r: "recv_recovery_is_on os0enc_std" by (simp add: os0enc_std_def)
  show ?thesis
    using decode_encryption_info_unknown_magic [OF b m, of stand_in globals2 "replicate 32 0"
        "replicate 32 0" True "[]"]
      decode_encryption_info_unknown_magic [OF b' m', of stand_in globals2 "replicate 32 0"
        "replicate 32 0" True "[]"] b r
    by simp
qed

text \<open>
  Claim C2: on an information with one of the three magics, \<open>decode_encryption_info\<close>
  with \<open>decrypt_key\<close> set returns true only if the master key was found, the wrapped
  \<open>2 * KEY_LEN\<close> bytes decrypted under it, and the CRC32 of the decrypted bytes is the
  4-byte value stored after them (the key and the iv handed back are then the two halves
  of the decrypted bytes); and whenever the stored value differs from the CRC32 of the
  decrypted bytes it returns false and leaves the key, the iv and the statics alone.
\<close>

theorem decode_encryption_info_crc:
  assumes "bytes_at encryption_info 0 (MAGIC_SIZE K) = Some magic"
    and "info_version K magic = Some version"
  shows "(decode_encryption_info K X g key iv encryption_info True srv_uuid = Some (True, g', key', iv')
            \<longrightarrow> (\<exists>ptr master_key_id uuid master_key wrapped key_info.
                   get_master_key_from_info K g encryption_info (MAGIC_SIZE K) version srv_uuid
                     = Some (ptr, master_key_id, uuid, Some master_key) \<and>
                   bytes_at encryption_info ptr (2 * KEY_LEN K) = Some wrapped \<and>
                   my_aes_decrypt X wrapped master_key (KEY_LEN K) my_aes_256_ecb None False
                     = Some key_info \<and>
                   length key_info = 2 * KEY_LEN K \<and>
                   mach_read_from_4 encryption_info (ptr + 2 * KEY_LEN K)
                     = Some (ut_crc32 X key_info) \<and>
                   memcpy key 0 (take (KEY_LEN K) key_info) = Some key' \<and>
                   memcpy iv 0 (take (KEY_LEN K) (drop (KEY_LEN K) key_info)) = Some iv')) \<and>
         (\<forall>ptr master_key_id uuid master_key wrapped key_info crc1.
            get_master_key_from_info K g encryption_info (MAGIC_SIZE K) version srv_uuid
              = Some (ptr, master_key_id, uuid, Some master_key) \<longrightarrow>
            bytes_at encryption_info ptr (2 * KEY_LEN K) = Some wrapped \<longrightarrow>
            my_aes_decrypt X wrapped master_key (KEY_LEN K) my_aes_256_ecb None False
              = Some key_info \<longrightarrow>
            length key_info = 2 * KEY_LEN K \<longrightarrow>
            mach_read_from_4 encryption_info (ptr + 2 * KEY_LEN K) = Some crc1 \<longrightarrow>
            crc1 \<noteq> ut_crc32 X key_info \<longrightarrow>
            decode_encryption_info K X g key iv encryption_info True srv_uuid
              = Some (False, g, key, iv))"
proof (intro conjI impI allI)
  assume r: "decode_encryption_info K X g key iv encryption_info True srv_uuid = Some (True, g', key', iv')"
  from r assms obtain ptr mid uuid key_info where
    d: "decode_key_info K X g encryption_info version True srv_uuid = Some (ptr, mid, uuid, Some key_info)"
    and c: "mach_read_from_4 encryption_info (ptr + 2 * KEY_LEN K) = Some (ut_crc32 X key_info)"
    and k: "memcpy key 0 (take (KEY_LEN K) key_info) = Some key'"
    and i: "memcpy iv 0 (take (KEY_LEN K) (drop (KEY_LEN K) key_info)) = Some iv'"
    by (rule decode_encryption_info_SomeE)
  from d obtain mk wrapped where
    "get_master_key_from_info K g encryption_info (MAGIC_SIZE K) version srv_uuid
       = Some (ptr, mid, uuid, Some mk)"
    "bytes_at encryption_info ptr (2 * KEY_LEN K) = Some wrapped"
    "my_aes_decrypt X wrapped mk (KEY_LEN K) my_aes_256_ecb None False = Some key_info"
    "length key_info = 2 * KEY_LEN K"
    by (rule decode_key_info_SomeE)
  with c k i show "\<exists>ptr master_key_id uuid master_key wrapped key_info.
                   get_master_key_from_info K g encryption_info (MAGIC_SIZE K) version srv_uuid
                     = Some (ptr, master_key_id, uuid, Some master_key) \<and>
                   bytes_at encryption_info ptr (2 * KEY_LEN K) = Some wrapped \<and>
                   my_aes_decrypt X wrapped master_key (KEY_LEN K) my_aes_256_ecb None False
                     = Some key_info \<and>
                   length key_info = 2 * KEY_LEN K \<and>
                   mach_read_from_4 encryption_info (ptr + 2 * KEY_LEN K)
                     = Some (ut_crc32 X key_info) \<and>
                   memcpy key 0 (take (KEY_LEN K) key_info) = Some key' \<and>
                   memcpy iv 0 (take (KEY_LEN K) (drop (KEY_LEN K) key_info)) = Some iv'"
    by blast
next
  fix ptr master_key_id uuid master_key wrapped key_info crc1
  assume "get_master_key_from_info K g encryption_info (MAGIC_SIZE K) version srv_uuid
              = Some (ptr, master_key_id, uuid, Some master_key)"
    and "bytes_at encryption_info ptr (2 * KEY_LEN K) = Some wrapped"
    and "my_aes_decrypt X wrapped master_key (KEY_LEN K) my_aes_256_ecb None False = Some key_info"
    and "length key_info = 2 * KEY_LEN K"
  then have "decode_key_info K X g encryption_info version True srv_uuid
               = Some (ptr, master_key_id, uuid, Some key_info)"
    by (rule decode_key_info_run)
  moreover assume "mach_read_from_4 encryption_info (ptr + 2 * KEY_LEN K) = Some crc1"
    and "crc1 \<noteq> ut_crc32 X key_info"
  ultimately show "decode_encryption_info K X g key iv encryption_info True srv_uuid
              = Some (False, g, key, iv)"
    using assms by (intro decode_encryption_info_mismatch)
qed


theorem decode_encryption_info_crc_witness:
  "bytes_at info7 0 (MAGIC_SIZE os0enc_std) = Some [0x6C, 0x43, 0x43] \<and>
   info_version os0enc_std [0x6C, 0x43, 0x43] = Some VERSION_3 \<and>
   decode_encryption_info os0enc_std stand_in globals2 (replicate 32 0) (replicate 32 0) info7 True []
     = Some (True, globals2\<lparr>s_master_key_id := 7, s_uuid := replicate 36 0x61\<rparr>,
             replicate 32 0x11, replicate 32 0x22) \<and>
   mach_read_from_4 info7 107 = Some (ut_crc32 stand_in (replicate 32 0x11 @ replicate 32 0x22)) \<and>
   mach_read_from_4 info7_bad 107 = Some 0x661 \<and>
   ut_crc32 stand_in (replicate 32 0x11 @ replicate 32 0x22) = 0x660 \<and>
   decode_encryption_info os0enc_std stand_in globals2 (replicate 32 0) (replicate 32 0) info7_bad True []
     = Some (False, globals2, replicate 32 0, replicate 32 0)"
proof -
  have b: "bytes_at info7 0 (MAGIC_SIZE os0enc_std) = Some [0x6C, 0x43, 0x43]"
    "bytes_at info7_bad 0 (MAGIC_SIZE os0enc_std) = Some [0x6C, 0x43, 0x43]"
    by (simp_all add: bytes_at_def info7_def info7_bad_def os0enc_std_def)
  have v: "info_version os0enc_std [0x6C, 0x43, 0x43] = Some VERSION_3"
    by (rule info_version_std)
  have g: "get_master_key_from_info os0enc_std globals2 info7 (MAGIC_SIZE os0enc_std) VERSION_3 []
             = Some (43, 7, replicate 36 0x61, Some (replicate 32 0x4B))"
    "get_master_key_from_info os0enc_std globals2 info7_bad (MAGIC_SIZE os0enc_std) VERSION_3 []
             = Some (43, 7, replicate 36 0x61, Some (replicate 32 0x4B))"
    using get_master_key_from_info7 [of "[0, 0, 6, 0x60]" "[]"]
      get_master_key_from_info7 [of "[0, 0, 6, 0x61]" "[]"]
    by (simp_all add: info7_def info7_bad_def os0enc_std_def)
  have w: "bytes_at info7 43 (2 * KEY_LEN os0enc_std) = Some (replicate 32 0x12 @ replicate 32 0x23)"
    "bytes_at info7_bad 43 (2 * KEY_LEN os0enc_std) = Some (replicate 32 0x12 @ replicate 32 0x23)"
    by (simp_all add: bytes_at_def info7_def info7_bad_def os0enc_std_def)
  have d: "my_aes_decrypt stand_in (replicate 32 0x12 @ replicate 32 0x23) (replicate 32 0x4B)
          (KEY_LEN os0enc_std) my_aes_256_ecb None False
        = Some (replicate 32 0x11 @ replicate 32 0x22)"
    by (simp add: stand_in_def shift_decrypt_def)
  have l: "length (replicate 32 (0x11 :: byte) @ replicate 32 0x22) = 2 * KEY_LEN os0enc_std"
    by (simp add: os0enc_std_def)
  have c: "mach_read_from_4 info7_bad (43 + 2 * KEY_LEN os0enc_std) = Some 0x661"
    by (simp add: mach_read_from_4_def info7_bad_def os0enc_std_def nth_append)
  have n: "(0x661 :: 32 word) \<noteq> ut_crc32 stand_in (replicate 32 0x11 @ replicate 32 0x22)"
    unfolding crc7 by simp
  note run = decode_encryption_info7 [of "[]"]
  from decode_encryption_info_crc [OF b(1) v, where X = stand_in and g = globals2
      and key = "replicate 32 0" and iv = "replicate 32 0" and srv_uuid = "[]"
      and g' = "globals2\<lparr>s_master_key_id := 7, s_uuid := replicate 36 0x61\<rparr>"
      and key' = "replicate 32 0x11" and iv' = "replicate 32 0x22"] run
  obtain ptr mid uuid mk wrapped key_info where
    g': "get_master_key_from_info os0enc_std globals2 info7 (MAGIC_SIZE os0enc_std) VERSION_3 []
           = Some (ptr, mid, uuid, Some mk)"
    and w': "bytes_at info7 ptr (2 * KEY_LEN os0enc_std) = Some wrapped"
    and d': "my_aes_decrypt stand_in wrapped mk (KEY_LEN os0enc_std) my_aes_256_ecb None False
               = Some key_info"
    and c': "mach_read_from_4 info7 (ptr + 2 * KEY_LEN os0enc_std) = Some (ut_crc32 stand_in key_info)"
    by blast
  from g' g(1) have "ptr = 43" "mk = replicate 32 0x4B" by simp_all
  with w' w(1) d' d have "key_info = replicate 32 0x11 @ replicate 32 0x22" by simp
  with c' \<open>ptr = 43\<close>
  have ok: "mach_read_from_4 info7 107 = Some (ut_crc32 stand_in (replicate 32 0x11 @ replicate 32 0x22))"
    by (simp add: os0enc_std_def)
  from decode_encryption_info_crc [OF b(2) v, where X = stand_in and g = globals2
      and key = "replicate 32 0" and iv = "replicate 32 0" and srv_uuid = "[]"
      and g' = globals2 and key' = "replicate 32 0" and iv' = "replicate 32 0"]
    g(2) w(2) d l c n
  have bad: "decode_encryption_info os0enc_std stand_in globals2 (replicate 32 0) (replicate 32 0)
               info7_bad True [] = Some (False, globals2, replicate 32 0, replicate 32 0)"
    by blast
  from c have "mach_read_from_4 info7_bad 107 = Some 0x661" by (simp add: os0enc_std_def)
  then show ?thesis
    using b(1) v run ok bad crc7 by simp
qed

section \<open>The current master key id\<close>

text \<open>
  Claim C6, as stated: the current master key id never decreases. \<open>s_master_key_id\<close> is
  a \<open>uint32_t\<close> and \<open>create_master_key\<close> increments it without a bound: at the last id,
  with a keyring that generates and fetches the key, the id comes back as 0.
\<close>

theorem master_key_id_counterexample:
  "create_master_key os0enc_std globals_last
     = (\<lparr>s_master_key_id = 0, s_uuid = replicate 36 0x61, keyring = [(name0, replicate 32 0x4B)]\<rparr>,
        Some (replicate 32 0x4B)) \<and>
   s_master_key_id globals_last = 0xFFFFFFFF \<and>
   s_master_key_id (fst (create_master_key os0enc_std globals_last)) < s_master_key_id globals_last"
  by (simp add: create_master_key_last) (simp add: globals_last_def)

text \<open>
  Claim C6, amended: \<open>create_master_key\<close> leaves the id or increments it, and does not
  decrease it unless the id is \<open>2\<^sup>3\<^sup>2 - 1\<close>; with \<open>DEFAULT_MASTER_KEY_ID\<close> = 0,
  \<open>get_master_key\<close> leaves the id or, on its first-key path, advances it from 0 to 1;
  \<open>decode_encryption_info\<close> never decreases it, and changes it only on a successful
  decode with \<open>decrypt_key\<close> set, to the master key id read from the information, which
  is then strictly greater than the id before.
\<close>

theorem master_key_id_monotone:
  "(create_master_key K g = (g1, k1) \<longrightarrow>
      (s_master_key_id g1 = s_master_key_id g \<or> s_master_key_id g1 = s_master_key_id g + 1) \<and>
      (s_master_key_id g \<noteq> - 1 \<longrightarrow> s_master_key_id g \<le> s_master_key_id g1)) \<and>
   (get_master_key K g master_key_id = (g2, id2, k2) \<longrightarrow> DEFAULT_MASTER_KEY_ID K = 0 \<longrightarrow>
      (s_master_key_id g2 = s_master_key_id g \<or>
       s_master_key_id g = 0 \<and> s_master_key_id g2 = 1) \<and>
      s_master_key_id g \<le> s_master_key_id g2) \<and>
   (decode_encryption_info K X g key iv encryption_info decrypt_key srv_uuid = Some (ok, g3, key3, iv3)
      \<longrightarrow> s_master_key_id g \<le> s_master_key_id g3 \<and>
          (s_master_key_id g3 \<noteq> s_master_key_id g \<longrightarrow>
             ok \<and> decrypt_key \<and> s_master_key_id g < s_master_key_id g3 \<and>
             mach_read_from_4 encryption_info (MAGIC_SIZE K) = Some (s_master_key_id g3)))"
proof (intro conjI impI)
  assume c: "create_master_key K g = (g1, k1)"
  from create_master_key_id [OF c]
  show s: "s_master_key_id g1 = s_master_key_id g \<or> s_master_key_id g1 = s_master_key_id g + 1" .
  assume "s_master_key_id g \<noteq> - 1"
  from word32_le_Suc [OF this] s show "s_master_key_id g \<le> s_master_key_id g1"
    by auto
next
  assume m: "get_master_key K g master_key_id = (g2, id2, k2)" and z: "DEFAULT_MASTER_KEY_ID K = 0"
  from get_master_key_id [OF m] z
  show s: "s_master_key_id g2 = s_master_key_id g \<or> s_master_key_id g = 0 \<and> s_master_key_id g2 = 1"
    by auto
  then show "s_master_key_id g \<le> s_master_key_id g2" by auto
next
  assume d: "decode_encryption_info K X g key iv encryption_info decrypt_key srv_uuid = Some (ok, g3, key3, iv3)"
  from decode_encryption_info_statics [OF d]
  show "s_master_key_id g \<le> s_master_key_id g3" by auto
  assume "s_master_key_id g3 \<noteq> s_master_key_id g"
  with decode_encryption_info_statics [OF d]
  show "ok" "decrypt_key" "s_master_key_id g < s_master_key_id g3"
    "mach_read_from_4 encryption_info (MAGIC_SIZE K) = Some (s_master_key_id g3)"
    by auto
qed

theorem master_key_id_monotone_witness:
  "s_master_key_id globals2 = 2 \<and>
   s_master_key_id (fst (create_master_key os0enc_std globals2)) = 3 \<and>
   DEFAULT_MASTER_KEY_ID os0enc_std = 0 \<and>
   s_master_key_id (fst (get_master_key os0enc_std (globals2\<lparr>s_master_key_id := 0\<rparr>) 0)) = 1 \<and>
   decode_encryption_info os0enc_std stand_in globals2 (replicate 32 0) (replicate 32 0) info7 True []
     = Some (True, globals2\<lparr>s_master_key_id := 7, s_uuid := replicate 36 0x61\<rparr>,
             replicate 32 0x11, replicate 32 0x22) \<and>
   mach_read_from_4 info7 (MAGIC_SIZE os0enc_std) = Some 7 \<and>
   s_master_key_id globals2 \<le> s_master_key_id (fst (create_master_key os0enc_std globals2))"
proof -
  have s: "s_master_key_id globals2 = 2" by (simp add: globals2_def)
  have z: "DEFAULT_MASTER_KEY_ID os0enc_std = 0" by (simp add: os0enc_std_def)
  have n: "s_master_key_id globals2 \<noteq> - 1" by (simp add: s)
  note run = decode_encryption_info7 [of "[]"]
  note m = master_key_id_monotone [of os0enc_std globals2
      "fst (create_master_key os0enc_std globals2)" "snd (create_master_key os0enc_std globals2)"
      0 "fst (get_master_key os0enc_std globals2 0)"
      "fst (snd (get_master_key os0enc_std globals2 0))"
      "snd (snd (get_master_key os0enc_std globals2 0))"
      stand_in "replicate 32 0" "replicate 32 0" info7 True "[]" True
      "globals2\<lparr>s_master_key_id := 7, s_uuid := replicate 36 0x61\<rparr>"
      "replicate 32 0x11" "replicate 32 0x22"]
  from m n have le: "s_master_key_id globals2 \<le> s_master_key_id (fst (create_master_key os0enc_std globals2))"
    by simp
  from m run have "s_master_key_id (globals2\<lparr>s_master_key_id := 7, s_uuid := replicate 36 0x61\<rparr>)
                     \<noteq> s_master_key_id globals2
                   \<longrightarrow> mach_read_from_4 info7 (MAGIC_SIZE os0enc_std)
                         = Some (s_master_key_id (globals2\<lparr>s_master_key_id := 7, s_uuid := replicate 36 0x61\<rparr>))"
    by blast
  then have r: "mach_read_from_4 info7 (MAGIC_SIZE os0enc_std) = Some 7"
    by (simp add: s)
  show ?thesis
    using s z le r run create_master_key_globals2 get_master_key_first by simp
qed

end
